(* ===== verification/Wok_Prelude.thy ===== *)
theory Wok_Prelude
  imports Main "HOL-Library.Word" "HOL-Library.List_Lexorder"
begin

text \<open>
  The prelude of the development: the machine types of the Rust sources, their
  fallible results, the pieces of the standard library the sources call (saturating
  arithmetic, little- and big-endian integers, binary search, sorted maps) and the
  generic lemmas every component uses.

  A byte is an \<^typ>\<open>8 word\<close>, a \<open>u64\<close> a \<^typ>\<open>64 word\<close>, and a slice, \<open>Vec\<close> or
  \<open>String\<close> a list of bytes (a Rust string is its UTF-8 bytes).  A \<open>usize\<close> that counts
  elements held in memory is a \<^typ>\<open>nat\<close>.  \<open>Result<T, E>\<close> is the sum \<open>'e + 'a\<close> with
  \<^term>\<open>Inl\<close> for the error; the \<open>?\<close> operator is \<open>rbind\<close>.  The order on byte lists is
  the lexicographic order of \<open>HOL-Library.List_Lexorder\<close>, which is the \<open>Ord\<close> of Rust
  slices and strings.
\<close>

section \<open>Types and results\<close>

type_synonym u8 = "8 word"
type_synonym u16 = "16 word"
type_synonym u32 = "32 word"
type_synonym u64 = "64 word"
type_synonym bytes = "8 word list"

named_theorems res_simps \<open>how results are composed and taken apart\<close>
named_theorems byte_simps \<open>lengths and inverses of the integer encodings\<close>

definition rbind :: "'e + 'a \<Rightarrow> ('a \<Rightarrow> 'e + 'b) \<Rightarrow> 'e + 'b" where
  "rbind m f = (case m of Inl e \<Rightarrow> Inl e | Inr x \<Rightarrow> f x)"

definition ok_or :: "'e \<Rightarrow> 'a option \<Rightarrow> 'e + 'a" where
  "ok_or e m = (case m of None \<Rightarrow> Inl e | Some x \<Rightarrow> Inr x)"

definition ensure :: "'e \<Rightarrow> bool \<Rightarrow> 'e + unit" where
  "ensure e b = (if b then Inr () else Inl e)"

definition is_ok :: "'e + 'a \<Rightarrow> bool" where
  "is_ok r = (case r of Inl _ \<Rightarrow> False | Inr _ \<Rightarrow> True)"

lemma rbind_Inl [simp]: "rbind (Inl e) f = Inl e"
  by (simp add: rbind_def)

lemma rbind_Inr [simp]: "rbind (Inr x) f = f x"
  by (simp add: rbind_def)

lemma rbind_eq_Inr [res_simps]: "rbind m f = Inr y \<longleftrightarrow> (\<exists>x. m = Inr x \<and> f x = Inr y)"
  by (cases m) simp_all

lemma rbind_eq_Inl [res_simps]: "rbind m f = Inl e \<longleftrightarrow> m = Inl e \<or> (\<exists>x. m = Inr x \<and> f x = Inl e)"
  by (cases m) simp_all

lemma rbind_cong [fundef_cong]:
  "m = m' \<Longrightarrow> (\<And>x. m' = Inr x \<Longrightarrow> f x = f' x) \<Longrightarrow> rbind m f = rbind m' f'"
  by (cases m') simp_all

text \<open>A \<open>for\<close> loop whose body may return early with an error.\<close>

fun try_fold :: "('s \<Rightarrow> 'a \<Rightarrow> 'e + 's) \<Rightarrow> 's \<Rightarrow> 'a list \<Rightarrow> 'e + 's" where
  "try_fold f s [] = Inr s"
| "try_fold f s (x # xs) = rbind (f s x) (\<lambda>s'. try_fold f s' xs)"

lemma try_fold_append: "try_fold f s (xs @ ys) = rbind (try_fold f s xs) (\<lambda>s'. try_fold f s' ys)"
  by (induction xs arbitrary: s) (simp_all add: rbind_def split: sum.split)

lemma try_fold_invariant:
  assumes "try_fold f s xs = Inr s'" "I s"
    "\<And>s x s'. x \<in> set xs \<Longrightarrow> I s \<Longrightarrow> f s x = Inr s' \<Longrightarrow> I s'"
  shows "I s'"
  using assms by (induction xs arbitrary: s) (auto simp: rbind_eq_Inr)

text \<open>Indexing a slice and writing to one, which panic out of range, and a \<open>for\<close> loop whose body may panic.\<close>

definition nth_opt :: "'a list \<Rightarrow> nat \<Rightarrow> 'a option" where
  "nth_opt xs i = (if i < length xs then Some (xs ! i) else None)"

definition set_opt :: "'a list \<Rightarrow> nat \<Rightarrow> 'a \<Rightarrow> 'a list option" where
  "set_opt xs i x = (if i < length xs then Some (xs[i := x]) else None)"

fun opt_fold :: "('s \<Rightarrow> 'a \<Rightarrow> 's option) \<Rightarrow> 's \<Rightarrow> 'a list \<Rightarrow> 's option" where
  "opt_fold f s [] = Some s"
| "opt_fold f s (x # xs) = Option.bind (f s x) (\<lambda>s'. opt_fold f s' xs)"

lemma nth_opt_simps [simp]: "i < length xs \<Longrightarrow> nth_opt xs i = Some (xs ! i)" "i < length xs \<Longrightarrow> set_opt xs i x = Some (xs[i := x])"
  by (simp_all add: nth_opt_def set_opt_def)

lemma opt_fold_append: "opt_fold f s (xs @ ys) = Option.bind (opt_fold f s xs) (\<lambda>s'. opt_fold f s' ys)"
  by (induction xs arbitrary: s) (simp_all add: Option.bind_assoc)

text \<open>A loop whose body keeps an invariant of the state and the elements still to come returns.\<close>

lemma opt_fold_invariant:
  assumes "I s xs" "\<And>s x xs. I s (x # xs) \<Longrightarrow> \<exists>s'. f s x = Some s' \<and> I s' xs"
  shows "\<exists>s'. opt_fold f s xs = Some s' \<and> I s' []"
  using assms(1)
proof (induction xs arbitrary: s)
  case (Cons x xs)
  from assms(2) [OF Cons.prems] obtain s' where s': "f s x = Some s'" "I s' xs" by blast
  from Cons.IH [OF s'(2)] s'(1) show ?case by simp
qed simp

lemma ok_or_simps [simp]: "ok_or e None = Inl e" "ok_or e (Some x) = Inr x"
  by (simp_all add: ok_or_def)

lemma ok_or_eq_Inr [res_simps]: "ok_or e m = Inr x \<longleftrightarrow> m = Some x"
  by (cases m) simp_all

lemma ok_or_eq_Inl [res_simps]: "ok_or e m = Inl e' \<longleftrightarrow> m = None \<and> e' = e"
  by (cases m) auto

lemma ensure_simps [simp]: "ensure e True = Inr ()" "ensure e False = Inl e"
  by (simp_all add: ensure_def)

lemma ensure_eq_Inr [res_simps]: "ensure e b = Inr u \<longleftrightarrow> b"
  by (simp add: ensure_def)

lemma ensure_eq_Inl [res_simps]: "ensure e b = Inl e' \<longleftrightarrow> \<not> b \<and> e' = e"
  by (auto simp: ensure_def)

lemma is_ok_simps [simp]: "\<not> is_ok (Inl e)" "is_ok (Inr x)"
  by (simp_all add: is_ok_def)

lemma is_ok_iff: "is_ok r \<longleftrightarrow> (\<exists>x. r = Inr x)"
  by (cases r) simp_all

section \<open>Saturating arithmetic\<close>

definition sat_add :: "'a::len word \<Rightarrow> 'a word \<Rightarrow> 'a word" where
  "sat_add a b = (if unat a + unat b < 2 ^ LENGTH('a) then a + b else - 1)"

definition sat_sub :: "'a::len word \<Rightarrow> 'a word \<Rightarrow> 'a word" where
  "sat_sub a b = (if b \<le> a then a - b else 0)"

definition sat_mul :: "'a::len word \<Rightarrow> 'a word \<Rightarrow> 'a word" where
  "sat_mul a b = (if unat a * unat b < 2 ^ LENGTH('a) then a * b else - 1)"

text \<open>A \<open>usize\<close> is a natural number; where its bound matters it is 64 bits wide.\<close>

definition usize_max :: nat where "usize_max = 2 ^ 64 - 1"

definition usize_sat_add :: "nat \<Rightarrow> nat \<Rightarrow> nat" where
  "usize_sat_add a b = min (a + b) usize_max"

lemma unat_minus_one_word: "unat (- 1 :: 'a::len word) = 2 ^ LENGTH('a) - 1"
  by (simp add: unsigned_minus_1_eq_mask mask_eq_exp_minus_1)

lemma unat_sat_add: "unat (sat_add a b) = min (unat a + unat b) (2 ^ LENGTH('a) - 1)"
  for a b :: "'a::len word"
  by (auto simp: sat_add_def unat_word_ariths unat_minus_one_word)

lemma unat_sat_sub: "unat (sat_sub a b) = unat a - unat b"
  for a b :: "'a::len word"
  by (auto simp: sat_sub_def unat_sub word_le_nat_alt)

lemma unat_sat_mul: "unat (sat_mul a b) = min (unat a * unat b) (2 ^ LENGTH('a) - 1)"
  for a b :: "'a::len word"
  by (auto simp: sat_mul_def unat_word_ariths unat_minus_one_word)

lemma sat_add_mono: "a \<le> a' \<Longrightarrow> b \<le> b' \<Longrightarrow> sat_add a b \<le> sat_add a' b'"
  for a b :: "'a::len word"
  by (auto simp: word_le_nat_alt unat_sat_add)

lemma unat_le_max: "unat w \<le> 2 ^ LENGTH('a) - 1"
  for w :: "'a::len word"
  using unsigned_less [of w, where 'a = nat] by linarith

lemma sat_add_ge: "a \<le> sat_add a b"
  for a b :: "'a::len word"
  unfolding word_le_nat_alt unat_sat_add using unat_le_max [of a] by simp

section \<open>Integers as bytes\<close>

text \<open>
  The sources write integers with \<open>to_le_bytes\<close>, \<open>to_be_bytes\<close> and \<open>to_ne_bytes\<close>.
  The native order is the little-endian one on every target the packed formats support.
\<close>

primrec le_nat :: "bytes \<Rightarrow> nat" where
  "le_nat [] = 0"
| "le_nat (b # bs) = unat b + 256 * le_nat bs"

primrec le_digits :: "nat \<Rightarrow> nat \<Rightarrow> bytes" where
  "le_digits 0 n = []"
| "le_digits (Suc k) n = of_nat (n mod 256) # le_digits k (n div 256)"

definition be_nat :: "bytes \<Rightarrow> nat" where
  "be_nat bs = le_nat (rev bs)"

definition u64_to_ne :: "u64 \<Rightarrow> bytes" where
  "u64_to_ne w = le_digits 8 (unat w)"

definition u64_from_ne :: "bytes \<Rightarrow> u64" where
  "u64_from_ne bs = of_nat (le_nat bs)"

definition u16_to_be :: "u16 \<Rightarrow> bytes" where
  "u16_to_be w = rev (le_digits 2 (unat w))"

definition u32_to_be :: "u32 \<Rightarrow> bytes" where
  "u32_to_be w = rev (le_digits 4 (unat w))"

definition u64_to_be :: "u64 \<Rightarrow> bytes" where
  "u64_to_be w = rev (le_digits 8 (unat w))"

lemma length_le_digits [simp, byte_simps]: "length (le_digits k n) = k"
  by (induction k arbitrary: n) simp_all

lemma unat_of_nat_byte: "unat (of_nat (n mod 256) :: u8) = n mod 256"
  by (simp add: unat_of_nat)

lemma le_nat_bound: "le_nat bs < 256 ^ length bs"
proof (induction bs)
  case Nil
  then show ?case by simp
next
  case (Cons b bs)
  have "unat b < 256" using unsigned_less [of b, where 'a = nat] by simp
  with Cons show ?case by simp
qed

lemma le_nat_le_digits [byte_simps]: "le_nat (le_digits k n) = n mod 256 ^ k"
proof (induction k arbitrary: n)
  case 0
  then show ?case by simp
next
  case (Suc k)
  have "n mod 256 + 256 * (n div 256 mod 256 ^ k) = n mod (256 * 256 ^ k)"
    by (simp add: mod_mult2_eq)
  with Suc show ?case by (simp add: unat_of_nat)
qed

lemma le_digits_le_nat [byte_simps]: "length bs = k \<Longrightarrow> le_digits k (le_nat bs) = bs"
proof (induction bs arbitrary: k)
  case Nil
  then show ?case by simp
next
  case (Cons b bs)
  have b: "unat b < 256" using unsigned_less [of b, where 'a = nat] by simp
  then have "(unat b + 256 * le_nat bs) mod 256 = unat b"
    and "(unat b + 256 * le_nat bs) div 256 = le_nat bs"
    by simp_all
  with Cons b show ?case by auto
qed

lemma le_nat_append: "le_nat (xs @ ys) = le_nat xs + 256 ^ length xs * le_nat ys"
  by (induction xs) (simp_all add: algebra_simps)

lemma le_nat_inject: "length xs = length ys \<Longrightarrow> le_nat xs = le_nat ys \<longleftrightarrow> xs = ys"
  by (metis le_digits_le_nat)

lemma length_u64_to_ne [simp]: "length (u64_to_ne w) = 8"
  by (simp add: u64_to_ne_def)

lemma length_u64_to_be [simp]: "length (u64_to_be w) = 8"
  by (simp add: u64_to_be_def)

lemma length_u16_to_be [simp]: "length (u16_to_be w) = 2"
  by (simp add: u16_to_be_def)

lemma length_u32_to_be [simp]: "length (u32_to_be w) = 4"
  by (simp add: u32_to_be_def)

lemma unat_u64_bound: "unat (w :: u64) < 256 ^ 8"
  using unsigned_less [of w, where 'a = nat] by simp

lemma u64_from_to_ne [simp]: "u64_from_ne (u64_to_ne w) = w"
  using unat_u64_bound [of w] by (simp add: u64_from_ne_def u64_to_ne_def le_nat_le_digits)

lemma be_nat_u64_to_be [simp]: "be_nat (u64_to_be w) = unat w"
  using unat_u64_bound [of w] by (simp add: be_nat_def u64_to_be_def le_nat_le_digits)

lemma be_nat_u16_to_be [simp]: "be_nat (u16_to_be w) = unat w"
  using unsigned_less [of w, where 'a = nat] by (simp add: be_nat_def u16_to_be_def le_nat_le_digits)

lemma u64_to_from_ne: "length bs = 8 \<Longrightarrow> u64_to_ne (u64_from_ne bs) = bs"
  using le_nat_bound [of bs]
  by (simp add: u64_to_ne_def u64_from_ne_def unat_of_nat le_digits_le_nat)

section \<open>Slices\<close>

definition slice :: "nat \<Rightarrow> nat \<Rightarrow> 'a list \<Rightarrow> 'a list" where
  "slice b e xs = take (e - b) (drop b xs)"

lemma length_slice: "e \<le> length xs \<Longrightarrow> length (slice b e xs) = e - b"
  by (simp add: slice_def)

lemma slice_append_left: "length xs = n \<Longrightarrow> slice 0 n (xs @ ys) = xs"
  by (simp add: slice_def)

lemma slice_append_right: "length xs = n \<Longrightarrow> slice (n + i) (n + j) (xs @ ys) = slice i j ys"
  by (simp add: slice_def)

lemma slice_all: "slice 0 (length xs) xs = xs"
  by (simp add: slice_def)

lemma slice_empty [simp]: "slice i i xs = []"
  by (simp add: slice_def)

lemma slice_Suc: "b < e \<Longrightarrow> e \<le> length xs \<Longrightarrow> slice b e xs = xs ! b # slice (Suc b) e xs"
proof -
  assume be: "b < e" "e \<le> length xs"
  then have "drop b xs = xs ! b # drop (Suc b) xs"
    by (simp add: Cons_nth_drop_Suc)
  moreover from be have "e - b = Suc (e - Suc b)" by simp
  ultimately show ?thesis by (simp only: slice_def take_Suc_Cons)
qed

lemma slice_join: "a \<le> b \<Longrightarrow> b \<le> c \<Longrightarrow> slice a b xs @ slice b c xs = slice a c xs"
proof -
  assume ab: "a \<le> b" and bc: "b \<le> c"
  have "take (b - a + (c - b)) (drop a xs) = take (b - a) (drop a xs) @ take (c - b) (drop (b - a) (drop a xs))"
    by (rule take_add)
  with ab bc show ?thesis by (simp add: slice_def)
qed

lemma set_slice_subset: "set (slice b e xs) \<subseteq> set xs"
  unfolding slice_def by (meson order.trans set_drop_subset set_take_subset)

end
