(* ===== verification/Wok_Collections.thy ===== *)
theory Wok_Collections
  imports Wok_Prelude
begin

text \<open>
  The collections of the Rust standard library that the components use, and the
  contracts the components rely on: \<open>slice::binary_search_by\<close> and \<open>partition_point\<close>
  as the standard library computes them, \<open>BTreeMap\<close> as a key-sorted association list,
  and the interface of a self-delimiting byte encoding.
\<close>

section \<open>Binary search\<close>

text \<open>
  \<open>binary_search_by\<close> halves a window \<open>[base, base + sz)\<close>.  The comparison gives
  how the element at an index compares with the target.
\<close>

datatype cmp = Less | Equal | Greater

definition cmp_of :: "'a::linorder \<Rightarrow> 'a \<Rightarrow> cmp" where
  "cmp_of x y = (if x < y then Less else if x = y then Equal else Greater)"

function bsearch_base :: "(nat \<Rightarrow> cmp) \<Rightarrow> nat \<Rightarrow> nat \<Rightarrow> nat" where
  "bsearch_base f base sz =
     (if sz \<le> 1 then base
      else let half = sz div 2; mid = base + half
           in bsearch_base f (if f mid = Greater then base else mid) (sz - half))"
  by pat_completeness auto
termination
  by (relation "measure (\<lambda>(f, base, sz). sz)") auto

declare bsearch_base.simps [simp del]

definition binary_search_by :: "(nat \<Rightarrow> cmp) \<Rightarrow> nat \<Rightarrow> nat + nat" where
  "binary_search_by f n =
     (if n = 0 then Inl 0
      else let base = bsearch_base f 0 n
           in case f base of Equal \<Rightarrow> Inr base | Less \<Rightarrow> Inl (base + 1) | Greater \<Rightarrow> Inl base)"

definition binary_search :: "'a::linorder list \<Rightarrow> 'a \<Rightarrow> nat + nat" where
  "binary_search xs y = binary_search_by (\<lambda>i. cmp_of (xs ! i) y) (length xs)"

definition partition_point :: "('a \<Rightarrow> bool) \<Rightarrow> 'a list \<Rightarrow> nat" where
  "partition_point p xs =
     (case binary_search_by (\<lambda>i. if p (xs ! i) then Less else Greater) (length xs) of
        Inl i \<Rightarrow> i | Inr i \<Rightarrow> i)"

text \<open>The window always holds an index, and the boundary between the elements that do
  not exceed the target and those that do lies in it.\<close>

lemma bsearch_base_window:
  assumes "0 < sz"
    and "\<And>i j. i \<le> j \<Longrightarrow> j < n \<Longrightarrow> f i = Greater \<Longrightarrow> f j = Greater"
    and "\<And>i. base < i \<Longrightarrow> base + sz \<le> i \<Longrightarrow> i < n \<Longrightarrow> f i = Greater"
    and "\<And>i. i < base \<Longrightarrow> f i \<noteq> Greater" and "base = 0 \<or> f base \<noteq> Greater"
    and "base + sz \<le> n"
  shows "base \<le> bsearch_base f base sz \<and> bsearch_base f base sz < base + sz
    \<and> (\<forall>i < bsearch_base f base sz. f i \<noteq> Greater)
    \<and> (\<forall>i. bsearch_base f base sz < i \<and> i < n \<longrightarrow> f i = Greater)
    \<and> (bsearch_base f base sz = 0 \<or> f (bsearch_base f base sz) \<noteq> Greater)"
  using assms
proof (induction f base sz rule: bsearch_base.induct)
  case (1 f base sz)
  show ?case
  proof (cases "sz \<le> 1")
    case True
    then have "bsearch_base f base sz = base" by (simp add: bsearch_base.simps)
    moreover from True "1.prems" have "sz = 1" by simp
    ultimately show ?thesis using "1.prems"(3-) by auto
  next
    case False
    define half where "half = sz div 2"
    define mid where "mid = base + half"
    define base' where "base' = (if f mid = Greater then base else mid)"
    from False have half: "0 < half" "half < sz" by (auto simp: half_def)
    have unfold: "bsearch_base f base sz = bsearch_base f base' (sz - half)"
      using False by (simp add: bsearch_base.simps [of f base sz] half_def mid_def base'_def Let_def)
    have le: "base \<le> base'" "base' + (sz - half) \<le> base + sz"
      using half by (auto simp: base'_def mid_def)
    have after: "f i = Greater" if "base' < i" "base' + (sz - half) \<le> i" "i < n" for i
    proof (cases "f mid = Greater")
      case True
      have "mid \<le> i" using that True half unfolding base'_def mid_def half_def by simp
      with True that "1.prems"(2) show ?thesis by blast
    next
      case False
      with that half have "base < i" "base + sz \<le> i" by (auto simp: base'_def mid_def)
      with that "1.prems"(3) show ?thesis by blast
    qed
    have before: "f i \<noteq> Greater" if "i < base'" for i
    proof (cases "f mid = Greater")
      case True
      with that "1.prems"(4) show ?thesis by (simp add: base'_def)
    next
      case False
      with that have "i \<le> mid" by (simp add: base'_def)
      moreover have "mid < n" using half "1.prems"(6) by (simp add: mid_def)
      ultimately show ?thesis using False "1.prems"(2) by blast
    qed
    have here: "base' = 0 \<or> f base' \<noteq> Greater"
      using "1.prems"(5) by (auto simp: base'_def)
    have "base' \<le> bsearch_base f base' (sz - half) \<and> bsearch_base f base' (sz - half) < base' + (sz - half)
      \<and> (\<forall>i < bsearch_base f base' (sz - half). f i \<noteq> Greater)
      \<and> (\<forall>i. bsearch_base f base' (sz - half) < i \<and> i < n \<longrightarrow> f i = Greater)
      \<and> (bsearch_base f base' (sz - half) = 0 \<or> f (bsearch_base f base' (sz - half)) \<noteq> Greater)"
    proof (rule "1.IH" [OF False half_def mid_def, folded base'_def])
      show "0 < sz - half" using half by simp
      show "f j = Greater" if "i \<le> j" "j < n" "f i = Greater" for i j
        using that by (rule "1.prems"(2))
      show "base' + (sz - half) \<le> n" using le "1.prems"(6) by simp
    qed (fact after before here)+
    with unfold le show ?thesis by auto
  qed
qed

lemma length_takeWhile_eq_boundary:
  assumes "k \<le> length xs" and "\<And>i. i < k \<Longrightarrow> p (xs ! i)" and "k < length xs \<Longrightarrow> \<not> p (xs ! k)"
  shows "length (takeWhile p xs) = k"
proof (cases "k < length xs")
  case True
  then have "takeWhile p xs = take k xs"
    using assms by (intro takeWhile_eq_take_P_nth) auto
  with True show ?thesis by simp
next
  case False
  with assms(1) have "k = length xs" by simp
  with assms(2) have "\<forall>x \<in> set xs. p x" by (auto simp: in_set_conv_nth)
  then have "takeWhile p xs = xs" by (simp only: takeWhile_eq_all_conv)
  with \<open>k = length xs\<close> show ?thesis by (simp only:)
qed

text \<open>On a list ordered like the comparison, the search finds the target exactly when
  it is there, and the partition point counts the leading elements that satisfy the
  predicate.\<close>

lemma bsearch_base_top:
  assumes "0 < n" and "\<And>i j. i \<le> j \<Longrightarrow> j < n \<Longrightarrow> f i = Greater \<Longrightarrow> f j = Greater"
  shows "bsearch_base f 0 n < n"
    and "\<And>i. i < bsearch_base f 0 n \<Longrightarrow> f i \<noteq> Greater"
    and "\<And>i. bsearch_base f 0 n < i \<Longrightarrow> i < n \<Longrightarrow> f i = Greater"
    and "bsearch_base f 0 n = 0 \<or> f (bsearch_base f 0 n) \<noteq> Greater"
proof -
  have *: "0 \<le> bsearch_base f 0 n \<and> bsearch_base f 0 n < 0 + n
    \<and> (\<forall>i < bsearch_base f 0 n. f i \<noteq> Greater)
    \<and> (\<forall>i. bsearch_base f 0 n < i \<and> i < n \<longrightarrow> f i = Greater)
    \<and> (bsearch_base f 0 n = 0 \<or> f (bsearch_base f 0 n) \<noteq> Greater)"
    by (rule bsearch_base_window) (use assms in auto)
  then show "bsearch_base f 0 n < n" by simp
  from * show "\<And>i. i < bsearch_base f 0 n \<Longrightarrow> f i \<noteq> Greater" by blast
  from * show "\<And>i. bsearch_base f 0 n < i \<Longrightarrow> i < n \<Longrightarrow> f i = Greater" by blast
  from * show "bsearch_base f 0 n = 0 \<or> f (bsearch_base f 0 n) \<noteq> Greater" by blast
qed

lemma binary_search_correct:
  assumes "sorted xs"
  shows "is_ok (binary_search xs y) \<longleftrightarrow> y \<in> set xs"
proof (cases "xs = []")
  case True
  then show ?thesis by (simp add: binary_search_def binary_search_by_def)
next
  case False
  define f where "f = (\<lambda>i. cmp_of (xs ! i) y)"
  define b where "b = bsearch_base f 0 (length xs)"
  have mono: "f j = Greater" if "i \<le> j" "j < length xs" "f i = Greater" for i j
    using that sorted_nth_mono [OF assms, of i j] by (auto simp: f_def cmp_of_def split: if_splits)
  have n: "0 < length xs" using False by simp
  have b: "b < length xs"
    unfolding b_def using n mono by (rule bsearch_base_top(1))
  have low: "f i \<noteq> Greater" if "i < b" for i
    using n mono that unfolding b_def by (rule bsearch_base_top(2))
  have high: "f i = Greater" if "b < i" "i < length xs" for i
    using n mono that unfolding b_def by (rule bsearch_base_top(3))
  have "y = xs ! b" if "y \<in> set xs"
  proof -
    from that obtain k where k: "k < length xs" "xs ! k = y" by (auto simp: in_set_conv_nth)
    then have "f k = Equal" by (simp add: f_def cmp_of_def)
    then have "k \<le> b" using high [of k] k by (cases "b < k") auto
    then have "y \<le> xs ! b" using k b assms by (metis sorted_nth_mono)
    moreover have "\<not> y < xs ! b"
    proof
      assume less: "y < xs ! b"
      then have "f b = Greater" by (auto simp: f_def cmp_of_def)
      then have "k \<noteq> b" using \<open>f k = Equal\<close> by auto
      with \<open>k \<le> b\<close> have "k < b" by simp
      have "b = 0 \<or> f b \<noteq> Greater"
        unfolding b_def using n mono by (rule bsearch_base_top(4))
      with \<open>f b = Greater\<close> \<open>k < b\<close> show False by simp
    qed
    ultimately show ?thesis by simp
  qed
  moreover have "is_ok (binary_search xs y) \<longleftrightarrow> f b = Equal"
    using False by (simp add: binary_search_def binary_search_by_def f_def [symmetric] b_def [symmetric]
        Let_def split: cmp.split)
  ultimately show ?thesis using b by (auto simp: f_def cmp_of_def split: if_splits)
qed

lemma partition_point_correct:
  assumes "\<And>i j. i \<le> j \<Longrightarrow> j < length xs \<Longrightarrow> p (xs ! j) \<Longrightarrow> p (xs ! i)"
  shows "partition_point p xs = length (takeWhile p xs)"
proof (cases "xs = []")
  case True
  then show ?thesis by (simp add: partition_point_def binary_search_by_def)
next
  case False
  define f where "f = (\<lambda>i. if p (xs ! i) then Less else Greater)"
  define b where "b = bsearch_base f 0 (length xs)"
  have mono: "f j = Greater" if "i \<le> j" "j < length xs" "f i = Greater" for i j
    using that assms [of i j] by (auto simp: f_def split: if_splits)
  have n: "0 < length xs" using False by simp
  have b: "b < length xs"
    unfolding b_def using n mono by (rule bsearch_base_top(1))
  have low: "f i \<noteq> Greater" if "i < b" for i
    using n mono that unfolding b_def by (rule bsearch_base_top(2))
  have high: "f i = Greater" if "b < i" "i < length xs" for i
    using n mono that unfolding b_def by (rule bsearch_base_top(3))
  have below: "p (xs ! i)" if "i < b" for i
    using low [OF that] by (auto simp: f_def split: if_splits)
  have above: "\<not> p (xs ! i)" if "b < i" "i < length xs" for i
    using high [OF that] by (auto simp: f_def split: if_splits)
  have pp: "partition_point p xs = (if p (xs ! b) then Suc b else b)"
    using False by (simp add: partition_point_def binary_search_by_def f_def [symmetric]
        b_def [symmetric] Let_def) (simp add: f_def)
  show ?thesis
    unfolding pp by (rule sym, rule length_takeWhile_eq_boundary) (use b below above in \<open>auto simp: less_Suc_eq split: if_splits\<close>)
qed

section \<open>Sorted maps\<close>

text \<open>\<open>sort\<close> followed by \<open>dedup\<close>.\<close>

lemma strict_sorted_remdups_adj: "sorted xs \<Longrightarrow> sorted_wrt (<) (remdups_adj xs)"
  for xs :: "'a::linorder list"
proof (induction xs rule: remdups_adj.induct)
  case (3 x y xs)
  then show ?case by (cases "x = y") (auto simp: less_le)
qed simp_all

text \<open>
  \<open>BTreeMap\<close> as the association list of its entries in key order.  Looking a key up is
  \<^const>\<open>map_of\<close>.
\<close>

abbreviation btree_keys :: "('k::linorder \<times> 'v) list \<Rightarrow> bool" where
  "btree_keys m \<equiv> sorted_wrt (<) (map fst m)"

fun btree_insert :: "'k::linorder \<Rightarrow> 'v \<Rightarrow> ('k \<times> 'v) list \<Rightarrow> ('k \<times> 'v) list" where
  "btree_insert k v [] = [(k, v)]"
| "btree_insert k v ((k', v') # m) =
     (if k < k' then (k, v) # (k', v') # m
      else if k = k' then (k, v) # m
      else (k', v') # btree_insert k v m)"

lemma btree_insert_keys_set: "fst ` set (btree_insert k v m) = insert k (fst ` set m)"
  by (induction m rule: btree_insert.induct) auto

lemma btree_insert_sorted: "btree_keys m \<Longrightarrow> btree_keys (btree_insert k v m)"
proof (induction k v m rule: btree_insert.induct)
  case (1 k v)
  then show ?case by simp
next
  case (2 k v k' v' m)
  have "k' < a" if "k' < k" "a \<in> fst ` set (btree_insert k v m)" for a
    using that "2.prems" by (auto simp: btree_insert_keys_set)
  with 2 show ?case by auto
qed

lemma map_of_btree_insert: "btree_keys m \<Longrightarrow> map_of (btree_insert k v m) = (map_of m)(k \<mapsto> v)"
proof (induction k v m rule: btree_insert.induct)
  case (1 k v)
  then show ?case by simp
next
  case (2 k v k' v' m)
  then show ?case by (auto simp: fun_eq_iff)
qed

lemma btree_insert_last:
  "\<forall>a \<in> set m. fst a < k \<Longrightarrow> btree_insert k v m = m @ [(k, v)]"
  by (induction m) auto

lemma set_btree_insert: "set (btree_insert k v m) \<subseteq> insert (k, v) (set m)"
  by (induction k v m rule: btree_insert.induct) auto

lemma btree_keys_distinct: "btree_keys m \<Longrightarrow> distinct (map fst m)"
  by (simp add: strict_sorted_iff)

section \<open>Self-delimiting encodings\<close>

text \<open>
  What a reader relies on when it decodes a value at the front of a buffer: decoding
  an encoding gives the value back and leaves what followed it.  \<open>ok\<close> is the set of
  values the encoder is called with.
\<close>

fun decode_all :: "nat \<Rightarrow> (bytes \<Rightarrow> 'e + 'a \<times> bytes) \<Rightarrow> bytes \<Rightarrow> 'e + 'a list \<times> bytes" where
  "decode_all 0 dec bs = Inr ([], bs)"
| "decode_all (Suc n) dec bs =
     rbind (dec bs) (\<lambda>(x, bs'). rbind (decode_all n dec bs') (\<lambda>(xs, bs''). Inr (x # xs, bs'')))"

locale self_delimiting =
  fixes enc :: "'a \<Rightarrow> bytes" and dec :: "bytes \<Rightarrow> 'e + 'a \<times> bytes" and ok :: "'a \<Rightarrow> bool"
  assumes dec_enc: "ok x \<Longrightarrow> dec (enc x @ rest) = Inr (x, rest)"
begin

lemma enc_unambiguous:
  assumes "ok x" and "ok y" and "enc x @ r = enc y @ s"
  shows "x = y \<and> r = s"
proof -
  have "Inr (x, r) = dec (enc x @ r)" by (rule dec_enc [OF assms(1), symmetric])
  also have "\<dots> = dec (enc y @ s)" by (simp only: assms(3))
  also have "\<dots> = Inr (y, s)" by (rule dec_enc [OF assms(2)])
  finally show ?thesis by simp
qed

lemma enc_nonempty: "ok x \<Longrightarrow> ok y \<Longrightarrow> x \<noteq> y \<Longrightarrow> enc x \<noteq> []"
proof
  assume "ok x" "ok y" "x \<noteq> y" and "enc x = []"
  then have "enc x @ enc y = enc y @ []" by simp
  with \<open>ok x\<close> \<open>ok y\<close> have "x = y" by (blast dest: enc_unambiguous)
  with \<open>x \<noteq> y\<close> show False by simp
qed

lemma decode_all_concat:
  "\<forall>x \<in> set xs. ok x \<Longrightarrow> decode_all (length xs) dec (concat (map enc xs) @ rest) = Inr (xs, rest)"
  by (induction xs) (simp_all add: dec_enc)

lemma concat_enc_inj:
  assumes "\<forall>x \<in> set xs. ok x" and "\<forall>y \<in> set ys. ok y" and "length xs = length ys"
    and "concat (map enc xs) @ r = concat (map enc ys) @ s"
  shows "xs = ys \<and> r = s"
proof -
  have "Inr (xs, r) = decode_all (length xs) dec (concat (map enc xs) @ r)"
    by (rule decode_all_concat [OF assms(1), symmetric])
  also have "\<dots> = decode_all (length ys) dec (concat (map enc ys) @ s)"
    by (simp only: assms(3,4))
  also have "\<dots> = Inr (ys, s)" by (rule decode_all_concat [OF assms(2)])
  finally show ?thesis by simp
qed

end

end
