(* ===== verification/Rust_Str.thy ===== *)
theory Rust_Str
  imports Wok_Collections
begin

unbundle bit_operations_syntax

text \<open>
  What the sources use of Rust's \<open>str\<close> and of its number parsing: UTF-8 as
  \<open>std::str::from_utf8\<close> checks it, \<open>chars\<close>, \<open>String::push\<close>, ASCII classes, decimal
  integers as \<open>u64\<close> and \<open>i64\<close> print and parse them, and \<open>f64\<close> as its IEEE 754 bit
  pattern with the correctly rounded decimal parse.
\<close>

type_synonym f64 = "64 word"
type_synonym i64 = "64 word"

section \<open>UTF-8\<close>

definition is_scalar :: "nat \<Rightarrow> bool" where
  "is_scalar c \<longleftrightarrow> c < 0xD800 \<or> (0xE000 \<le> c \<and> c < 0x110000)"

definition as_u8 :: "nat \<Rightarrow> u8" where
  "as_u8 n = of_nat n"

lemma unat_as_u8: "n < 256 \<Longrightarrow> unat (as_u8 n) = n"
  by (simp add: as_u8_def unat_of_nat)

lemma as_u8_unat [simp]: "as_u8 (unat b) = b"
  by (simp add: as_u8_def)

text \<open>Appending a byte's low bits to a word.\<close>

lemma disjoint_bits:
  fixes v :: u8 and x :: "'a::len word"
  assumes "unat v < 2 ^ w"
  shows "push_bit w x AND ucast v = 0"
proof (rule bit_word_eqI)
  fix n assume "n < LENGTH('a)"
  have "\<not> bit v n" if "w \<le> n"
    using assms that unsigned_take_bit_eq by (metis bit_take_bit_iff leD take_bit_nat_eq_self_iff word_unat_eq_iff bit_unsigned_iff)
  then show "bit (push_bit w x AND ucast v) n = bit 0 n"
    by (auto simp: bit_and_iff bit_push_bit_iff bit_ucast_iff)
qed

lemma append_bits:
  fixes v :: u8
  assumes "unat v < 2 ^ w"
  shows "push_bit w (of_nat N :: 'a::len word) OR ucast v = of_nat (N * 2 ^ w + unat v)"
  unfolding disjunctive_add_eq_or [OF disjoint_bits [OF assms], symmetric] by (simp add: push_bit_eq_mult)

definition utf8_encode :: "nat \<Rightarrow> bytes" where
  "utf8_encode c =
     (if c < 0x80 then [as_u8 c]
      else if c < 0x800 then [as_u8 (0xC0 + c div 64), as_u8 (0x80 + c mod 64)]
      else if c < 0x10000 then
        [as_u8 (0xE0 + c div 4096), as_u8 (0x80 + c div 64 mod 64), as_u8 (0x80 + c mod 64)]
      else
        [as_u8 (0xF0 + c div 262144), as_u8 (0x80 + c div 4096 mod 64),
         as_u8 (0x80 + c div 64 mod 64), as_u8 (0x80 + c mod 64)])"

definition is_cont :: "u8 \<Rightarrow> bool" where
  "is_cont b \<longleftrightarrow> 0x80 \<le> unat b \<and> unat b < 0xC0"

text \<open>The next code point of a byte string, by the table \<open>from_utf8\<close> checks: overlong
  forms, surrogates and values past U+10FFFF are refused.\<close>

definition utf8_next :: "bytes \<Rightarrow> (nat \<times> bytes) option" where
  "utf8_next bs = (case bs of [] \<Rightarrow> None
   | b0 # r0 \<Rightarrow> (let n0 = unat b0 in
     if n0 < 0x80 then Some (n0, r0)
     else if n0 < 0xC2 then None
     else (case r0 of [] \<Rightarrow> None | b1 # r1 \<Rightarrow> (let n1 = unat b1 in
       if \<not> is_cont b1 then None
       else if n0 < 0xE0 then Some ((n0 - 0xC0) * 64 + (n1 - 0x80), r1)
       else (case r1 of [] \<Rightarrow> None | b2 # r2 \<Rightarrow> (let n2 = unat b2 in
         if \<not> is_cont b2 then None
         else if n0 < 0xF0 then
           (if (n0 = 0xE0 \<and> n1 < 0xA0) \<or> (n0 = 0xED \<and> 0xA0 \<le> n1) then None
            else Some ((n0 - 0xE0) * 4096 + (n1 - 0x80) * 64 + (n2 - 0x80), r2))
         else (case r2 of [] \<Rightarrow> None | b3 # r3 \<Rightarrow> (let n3 = unat b3 in
           if \<not> is_cont b3 then None
           else if 0xF4 < n0 \<or> (n0 = 0xF0 \<and> n1 < 0x90) \<or> (n0 = 0xF4 \<and> 0x90 \<le> n1) then None
           else Some ((n0 - 0xF0) * 262144 + (n1 - 0x80) * 4096 + (n2 - 0x80) * 64 + (n3 - 0x80), r3)))))))))"

lemma utf8_next_shorter: "utf8_next bs = Some (c, r) \<Longrightarrow> length r < length bs"
  by (auto simp: utf8_next_def Let_def split: list.splits if_splits)

function utf8_chars :: "bytes \<Rightarrow> nat list option" where
  "utf8_chars bs =
     (if bs = [] then Some []
      else case utf8_next bs of None \<Rightarrow> None | Some (c, r) \<Rightarrow> map_option (Cons c) (utf8_chars r))"
  by pat_completeness auto
termination
  by (relation "measure length") (auto dest: utf8_next_shorter)

declare utf8_chars.simps [simp del]

definition utf8_valid :: "bytes \<Rightarrow> bool" where
  "utf8_valid bs \<longleftrightarrow> utf8_chars bs \<noteq> None"

definition chars :: "bytes \<Rightarrow> nat list" where
  "chars bs = (case utf8_chars bs of None \<Rightarrow> [] | Some cs \<Rightarrow> cs)"

lemma sextets:
  fixes c :: nat
  shows "c = c div 64 * 64 + c mod 64" "c div 64 = c div 4096 * 64 + c div 64 mod 64"
    "c div 4096 = c div 262144 * 64 + c div 4096 mod 64"
    "c mod 64 < 64" "c div 64 mod 64 < 64" "c div 4096 mod 64 < 64"
  using div_mult_mod_eq [of c 64] div_mult_mod_eq [of "c div 64" 64]
    div_mult_mod_eq [of "c div 4096" 64] div_mult2_eq [of c 64 64] div_mult2_eq [of c 4096 64]
  by simp_all

lemma utf8_next_encode: "is_scalar c \<Longrightarrow> utf8_next (utf8_encode c @ rest) = Some (c, rest)"
proof -
  assume c: "is_scalar c"
  consider "c < 0x80" | "0x80 \<le> c" "c < 0x800" | "0x800 \<le> c" "c < 0x10000" | "0x10000 \<le> c"
    by linarith
  then show ?thesis
  proof cases
    case 1
    then show ?thesis by (simp add: utf8_encode_def utf8_next_def unat_as_u8 Let_def)
  next
    case 2
    then have "c div 64 < 32" "2 \<le> c div 64" by (auto simp: less_mult_imp_div_less)
    with 2 show ?thesis
      by (simp add: utf8_encode_def utf8_next_def unat_as_u8 Let_def is_cont_def)
  next
    case 3
    define x y z where "x = c div 4096" and "y = c div 64 mod 64" and "z = c mod 64"
    have xyz: "c = x * 4096 + y * 64 + z" "x < 16" "y < 64" "z < 64"
      using sextets [of c] 3 unfolding x_def y_def z_def by linarith+
    have "\<not> (x = 0 \<and> y < 32)" "\<not> (x = 13 \<and> 32 \<le> y)"
      using 3 c xyz by (auto simp: is_scalar_def)
    moreover have "utf8_encode c = [as_u8 (0xE0 + x), as_u8 (0x80 + y), as_u8 (0x80 + z)]"
      using 3 by (simp add: utf8_encode_def x_def y_def z_def)
    ultimately have "utf8_next (utf8_encode c @ rest) = Some (x * 4096 + y * 64 + z, rest)"
      using xyz(2-) by (simp add: utf8_next_def unat_as_u8 Let_def is_cont_def)
    then show ?thesis using xyz(1) by simp
  next
    case 4
    define w x y z where "w = c div 262144" and "x = c div 4096 mod 64"
      and "y = c div 64 mod 64" and "z = c mod 64"
    have lt: "c < 0x110000" using c 4 by (simp add: is_scalar_def)
    have xyz: "c = w * 262144 + x * 4096 + y * 64 + z" "w < 5" "x < 64" "y < 64" "z < 64"
      using sextets [of c] lt unfolding w_def x_def y_def z_def by linarith+
    have "\<not> (w = 0 \<and> x < 16)" "\<not> (w = 4 \<and> 16 \<le> x)"
      using 4 lt xyz by auto
    moreover have "utf8_encode c =
        [as_u8 (0xF0 + w), as_u8 (0x80 + x), as_u8 (0x80 + y), as_u8 (0x80 + z)]"
      using 4 by (simp add: utf8_encode_def w_def x_def y_def z_def)
    ultimately have "utf8_next (utf8_encode c @ rest) =
        Some (w * 262144 + x * 4096 + y * 64 + z, rest)"
      using xyz(2-) by (simp add: utf8_next_def unat_as_u8 Let_def is_cont_def)
    then show ?thesis using xyz(1) by simp
  qed
qed

lemma sextet_join: "v < 64 \<Longrightarrow> (u * 64 + v) div 64 = u" "v < 64 \<Longrightarrow> (u * 64 + v) mod 64 = v"
  for u v :: nat
  by simp_all

lemma sextets_div: "n div 4096 = n div 64 div 64" "n div 262144 = n div 64 div 64 div 64"
  for n :: nat
  by (simp_all add: div_mult2_eq [symmetric])

lemma sextets_join3:
  fixes x y z :: nat
  assumes "y < 64" "z < 64"
  shows "(x * 4096 + y * 64 + z) div 4096 = x" "(x * 4096 + y * 64 + z) div 64 mod 64 = y"
    "(x * 4096 + y * 64 + z) mod 64 = z"
proof -
  have "x * 4096 + y * 64 + z = (x * 64 + y) * 64 + z" by simp
  then show "(x * 4096 + y * 64 + z) div 4096 = x" "(x * 4096 + y * 64 + z) div 64 mod 64 = y"
    "(x * 4096 + y * 64 + z) mod 64 = z" using assms by (simp_all only: sextet_join sextets_div)
qed

lemma sextets_join4:
  fixes w x y z :: nat
  assumes "x < 64" "y < 64" "z < 64"
  shows "(w * 262144 + x * 4096 + y * 64 + z) div 262144 = w"
    "(w * 262144 + x * 4096 + y * 64 + z) div 4096 mod 64 = x"
    "(w * 262144 + x * 4096 + y * 64 + z) div 64 mod 64 = y"
    "(w * 262144 + x * 4096 + y * 64 + z) mod 64 = z"
proof -
  have "w * 262144 + x * 4096 + y * 64 + z = ((w * 64 + x) * 64 + y) * 64 + z" by simp
  then show "(w * 262144 + x * 4096 + y * 64 + z) div 262144 = w"
    "(w * 262144 + x * 4096 + y * 64 + z) div 4096 mod 64 = x"
    "(w * 262144 + x * 4096 + y * 64 + z) div 64 mod 64 = y"
    "(w * 262144 + x * 4096 + y * 64 + z) mod 64 = z"
    using assms by (simp_all only: sextet_join sextets_div)
qed

lemma utf8_next_Some:
  assumes "utf8_next bs = Some (c, r)"
  shows "is_scalar c \<and> bs = utf8_encode c @ r"
proof -
  from assms obtain b0 r0 where bs: "bs = b0 # r0"
    by (auto simp: utf8_next_def split: list.splits)
  have b0: "unat b0 < 256" using unsigned_less [of b0, where 'a = nat] by simp
  note defs = utf8_next_def Let_def is_cont_def
  consider "unat b0 < 0x80" | "0xC2 \<le> unat b0" "unat b0 < 0xE0"
    | "0xE0 \<le> unat b0" "unat b0 < 0xF0" | "0xF0 \<le> unat b0" "unat b0 \<le> 0xF4"
    using assms by (fastforce simp: bs defs split: list.splits if_splits)
  then show ?thesis
  proof cases
    case 1
    with assms show ?thesis
      by (auto simp: bs defs utf8_encode_def is_scalar_def)
  next
    case 2
    with assms obtain b1 where r0: "r0 = b1 # r" and b1: "0x80 \<le> unat b1" "unat b1 < 0xC0"
      and c: "c = (unat b0 - 0xC0) * 64 + (unat b1 - 0x80)"
      by (auto simp: bs defs split: list.splits if_splits)
    define y z where "y = unat b0 - 0xC0" and "z = unat b1 - 0x80"
    have yz: "z < 64" "2 \<le> y" "y < 32" using 2 b1 by (auto simp: y_def z_def)
    have "utf8_encode c = [as_u8 (0xC0 + y), as_u8 (0x80 + z)]"
      using yz sextet_join [of z y] unfolding c y_def [symmetric] z_def [symmetric]
      by (auto simp: utf8_encode_def)
    moreover have "is_scalar c" using yz unfolding c y_def [symmetric] z_def [symmetric]
      by (auto simp: is_scalar_def)
    ultimately show ?thesis using 2 b1 by (simp add: bs r0 y_def z_def)
  next
    case 3
    with assms obtain b1 b2 where r0: "r0 = b1 # b2 # r"
      and b1: "0x80 \<le> unat b1" "unat b1 < 0xC0" and b2: "0x80 \<le> unat b2" "unat b2 < 0xC0"
      and ex: "\<not> (unat b0 = 0xE0 \<and> unat b1 < 0xA0)" "\<not> (unat b0 = 0xED \<and> 0xA0 \<le> unat b1)"
      and c: "c = (unat b0 - 0xE0) * 4096 + (unat b1 - 0x80) * 64 + (unat b2 - 0x80)"
      by (auto simp: bs defs split: list.splits if_splits)
    define x y z where "x = unat b0 - 0xE0" and "y = unat b1 - 0x80" and "z = unat b2 - 0x80"
    have xyz: "x < 16" "y < 64" "z < 64" "x = 0 \<longrightarrow> 32 \<le> y" "x = 13 \<longrightarrow> y < 32"
      using 3 b1 b2 ex unfolding x_def y_def z_def by linarith+
    have c': "c = x * 4096 + y * 64 + z" by (simp add: c x_def y_def z_def)
    have big: "0x800 \<le> c" "c < 0x10000"
      using xyz unfolding c' by (cases "x = 0"; simp)+
    have sc: "is_scalar c"
      using xyz unfolding c' is_scalar_def by (cases x "13 :: nat" rule: linorder_cases) simp_all
    have "utf8_encode c = [as_u8 (0xE0 + x), as_u8 (0x80 + y), as_u8 (0x80 + z)]"
      using big sextets_join3 [OF xyz(2,3), of x] by (simp add: utf8_encode_def c' [symmetric])
    with sc show ?thesis using 3 b1 b2 by (simp add: bs r0 x_def y_def z_def)
  next
    case 4
    with assms obtain b1 b2 b3 where r0: "r0 = b1 # b2 # b3 # r"
      and b1: "0x80 \<le> unat b1" "unat b1 < 0xC0" and b2: "0x80 \<le> unat b2" "unat b2 < 0xC0"
      and b3: "0x80 \<le> unat b3" "unat b3 < 0xC0"
      and ex: "\<not> (unat b0 = 0xF0 \<and> unat b1 < 0x90)" "\<not> (unat b0 = 0xF4 \<and> 0x90 \<le> unat b1)"
      and c: "c = (unat b0 - 0xF0) * 262144 + (unat b1 - 0x80) * 4096 + (unat b2 - 0x80) * 64
        + (unat b3 - 0x80)"
      by (auto simp: bs defs split: list.splits if_splits)
    define w x y z where "w = unat b0 - 0xF0" and "x = unat b1 - 0x80" and "y = unat b2 - 0x80"
      and "z = unat b3 - 0x80"
    have xyz: "w < 5" "x < 64" "y < 64" "z < 64" "w = 0 \<longrightarrow> 16 \<le> x" "w = 4 \<longrightarrow> x < 16"
      using 4 b1 b2 b3 ex unfolding w_def x_def y_def z_def by linarith+
    have c': "c = w * 262144 + x * 4096 + y * 64 + z"
      by (simp add: c w_def x_def y_def z_def)
    have big: "0x10000 \<le> c" "c < 0x110000" 
      using xyz unfolding c' by (cases "w = 0"; cases "w = 4"; simp)+
    have "utf8_encode c =
        [as_u8 (0xF0 + w), as_u8 (0x80 + x), as_u8 (0x80 + y), as_u8 (0x80 + z)]"
      using big sextets_join4 [OF xyz(2,3,4), of w] by (simp add: utf8_encode_def c' [symmetric])
    with big show ?thesis using 4 b1 b2 b3
      by (simp add: bs r0 is_scalar_def w_def x_def y_def z_def)
  qed
qed

lemma utf8_encode_nonempty [simp]: "utf8_encode c \<noteq> []"
  by (simp add: utf8_encode_def)

lemma utf8_chars_Nil [simp]: "utf8_chars [] = Some []"
  by (simp add: utf8_chars.simps)

lemma utf8_chars_encode:
  "is_scalar c \<Longrightarrow> utf8_chars (utf8_encode c @ bs) = map_option (Cons c) (utf8_chars bs)"
  by (subst utf8_chars.simps) (simp add: utf8_next_encode)

definition utf8_string :: "nat list \<Rightarrow> bytes" where
  "utf8_string cs = concat (map utf8_encode cs)"

lemma utf8_string_simps [simp]:
  "utf8_string [] = []" "utf8_string (c # cs) = utf8_encode c @ utf8_string cs"
  "utf8_string (xs @ ys) = utf8_string xs @ utf8_string ys"
  by (simp_all add: utf8_string_def)

lemma utf8_chars_string: "list_all is_scalar cs \<Longrightarrow> utf8_chars (utf8_string cs) = Some cs"
  by (induction cs) (simp_all add: utf8_chars_encode)

lemma utf8_chars_Some:
  "utf8_chars bs = Some cs \<Longrightarrow> bs = utf8_string cs \<and> list_all is_scalar cs"
proof (induction bs arbitrary: cs rule: utf8_chars.induct)
  case (1 bs)
  show ?case
  proof (cases "bs = []")
    case False
    with 1(2) obtain c r ds where n: "utf8_next bs = Some (c, r)" and d: "utf8_chars r = Some ds"
      and cs: "cs = c # ds"
      by (subst (asm) utf8_chars.simps) (auto split: option.splits)
    show ?thesis using 1(1) [OF False n refl d] utf8_next_Some [OF n] by (simp add: cs)
  qed (use 1(2) in simp)
qed

lemma utf8_valid_iff: "utf8_valid bs \<longleftrightarrow> (\<exists>cs. list_all is_scalar cs \<and> bs = utf8_string cs)"
  using utf8_chars_string utf8_chars_Some by (fastforce simp: utf8_valid_def)

lemma utf8_string_chars: "utf8_valid bs \<Longrightarrow> utf8_string (chars bs) = bs"
  using utf8_chars_Some by (fastforce simp: utf8_valid_def chars_def)

lemma chars_scalar: "list_all is_scalar (chars bs)"
  using utf8_chars_Some by (auto simp: chars_def split: option.splits)

lemma chars_utf8_string [simp]: "list_all is_scalar cs \<Longrightarrow> chars (utf8_string cs) = cs"
  by (simp add: chars_def utf8_chars_string)

lemma utf8_valid_Nil [simp]: "utf8_valid []"
  by (simp add: utf8_valid_def)

lemma utf8_valid_append: "utf8_valid xs \<Longrightarrow> utf8_valid ys \<Longrightarrow> utf8_valid (xs @ ys)"
  by (metis utf8_valid_iff list_all_append utf8_string_simps(3))

lemma utf8_valid_encode: "is_scalar c \<Longrightarrow> utf8_valid (utf8_encode c)"
  using utf8_chars_encode [of c "[]"] by (simp add: utf8_valid_def)

lemma utf8_encode_ascii: "unat b < 0x80 \<Longrightarrow> utf8_encode (unat b) = [b]"
  by (simp add: utf8_encode_def)

lemma utf8_valid_ascii: "list_all (\<lambda>b. unat b < 0x80) bs \<Longrightarrow> utf8_valid bs"
proof (induction bs)
  case (Cons b bs)
  then show ?case
    using utf8_valid_append [OF utf8_valid_encode [of "unat b"], of bs]
    by (simp add: utf8_encode_ascii is_scalar_def)
qed simp

text \<open>String literals of the sources, which are ASCII.\<close>

definition str :: "string \<Rightarrow> bytes" where
  "str s = map of_char s"

lemma str_simps [simp]: "str [] = []" "str (c # s) = of_char c # str s" "str (s @ t) = str s @ str t"
  by (simp_all add: str_def)

lemma length_str [simp]: "length (str s) = length s"
  by (simp add: str_def)

section \<open>Decimal integers\<close>

definition is_digit :: "u8 \<Rightarrow> bool" where
  "is_digit b \<longleftrightarrow> 0x30 \<le> b \<and> b \<le> 0x39"

definition digit_val :: "u8 \<Rightarrow> nat" where
  "digit_val b = unat b - 0x30"

definition digit_byte :: "nat \<Rightarrow> u8" where
  "digit_byte d = as_u8 (0x30 + d)"

definition dec_val :: "bytes \<Rightarrow> nat" where
  "dec_val ds = foldl (\<lambda>n d. 10 * n + digit_val d) 0 ds"

fun to_decimal :: "nat \<Rightarrow> bytes" where
  "to_decimal n = (if n < 10 then [digit_byte n] else to_decimal (n div 10) @ [digit_byte (n mod 10)])"

declare to_decimal.simps [simp del]

lemma digit_byte: "d < 10 \<Longrightarrow> is_digit (digit_byte d) \<and> digit_val (digit_byte d) = d"
  by (simp add: is_digit_def digit_byte_def digit_val_def unat_as_u8 word_le_nat_alt)

lemma dec_val_snoc [simp]: "dec_val (ds @ [d]) = 10 * dec_val ds + digit_val d"
  by (simp add: dec_val_def)

lemma dec_val_to_decimal [simp]: "dec_val (to_decimal n) = n"
proof (induction n rule: to_decimal.induct)
  case (1 n)
  show ?case
  proof (cases "n < 10")
    case True
    then show ?thesis by (subst to_decimal.simps) (simp add: dec_val_def digit_byte)
  next
    case False
    with 1 show ?thesis by (subst to_decimal.simps) (simp add: digit_byte)
  qed
qed

lemma to_decimal_digits: "list_all is_digit (to_decimal n)"
  by (induction n rule: to_decimal.induct) (subst to_decimal.simps, simp add: digit_byte)

lemma to_decimal_nonempty [simp]: "to_decimal n \<noteq> []"
  by (subst to_decimal.simps) simp

lemma hd_to_decimal: "n \<noteq> 0 \<Longrightarrow> hd (to_decimal n) \<noteq> 0x30"
proof (induction n rule: to_decimal.induct)
  case (1 n)
  show ?case
  proof (cases "n < 10")
    case True
    then have "digit_val (digit_byte n) \<noteq> 0" using 1(2) by (simp add: digit_byte)
    with True show ?thesis by (subst to_decimal.simps) (auto simp: digit_val_def)
  next
    case False
    with 1 show ?thesis by (subst to_decimal.simps) (simp add: hd_append)
  qed
qed

lemma to_decimal_zero: "to_decimal 0 = [0x30]"
  by (simp add: to_decimal.simps digit_byte_def as_u8_def)

text \<open>\<open>str::parse\<close> for \<open>u64\<close> takes an optional plus sign, for the signed types either sign.\<close>

definition parse_digits :: "bytes \<Rightarrow> nat option" where
  "parse_digits ds = (if ds \<noteq> [] \<and> list_all is_digit ds then Some (dec_val ds) else None)"

definition strip_plus :: "bytes \<Rightarrow> bytes" where
  "strip_plus s = (case s of [] \<Rightarrow> [] | c # t \<Rightarrow> if c = 0x2B then t else s)"

definition parse_u64 :: "bytes \<Rightarrow> u64 option" where
  "parse_u64 s = (case parse_digits (strip_plus s) of
     None \<Rightarrow> None | Some n \<Rightarrow> if n < 2 ^ 64 then Some (of_nat n) else None)"

definition parse_signed :: "nat \<Rightarrow> bytes \<Rightarrow> int option" where
  "parse_signed w s =
     (case s of
        [] \<Rightarrow> None
      | c # t \<Rightarrow>
          (if c = 0x2D then
             (case parse_digits t of
                None \<Rightarrow> None | Some n \<Rightarrow> if n \<le> 2 ^ (w - 1) then Some (- int n) else None)
           else
             (case parse_digits (strip_plus s) of
                None \<Rightarrow> None | Some n \<Rightarrow> if n < 2 ^ (w - 1) then Some (int n) else None)))"

definition int_to_string :: "int \<Rightarrow> bytes" where
  "int_to_string i = (if i < 0 then 0x2D # to_decimal (nat (- i)) else to_decimal (nat i))"

lemma digit_not_sign: "is_digit b \<Longrightarrow> b \<noteq> 0x2B \<and> b \<noteq> 0x2D"
  by (auto simp: is_digit_def)

lemma parse_digits_to_decimal [simp]: "parse_digits (to_decimal n) = Some n"
  by (simp add: parse_digits_def to_decimal_digits)

lemma to_decimal_Cons: "\<exists>d ds. to_decimal n = d # ds \<and> is_digit d \<and> list_all is_digit ds"
  using to_decimal_digits [of n] to_decimal_nonempty [of n] by (cases "to_decimal n") auto

lemma strip_plus_to_decimal [simp]: "strip_plus (to_decimal n) = to_decimal n"
  using to_decimal_Cons [of n] by (auto simp: strip_plus_def dest: digit_not_sign)

lemma parse_u64_to_decimal: "parse_u64 (to_decimal (unat w)) = Some w"
  using unsigned_less [of w, where 'a = nat] by (simp add: parse_u64_def del: unsigned_less)

lemma parse_u64_negative: "parse_u64 (0x2D # t) = None"
  by (simp add: parse_u64_def strip_plus_def parse_digits_def is_digit_def)

lemma parse_signed_to_string:
  assumes "- (2 ^ (w - 1)) \<le> i" "i < 2 ^ (w - 1)"
  shows "parse_signed w (int_to_string i) = Some i"
proof (cases "i < 0")
  case True
  have "nat (- i) \<le> nat (2 ^ (w - 1))" using assms by (intro nat_mono) simp
  then have "nat (- i) \<le> 2 ^ (w - 1)" by (simp add: nat_power_eq)
  with True show ?thesis by (simp add: parse_signed_def int_to_string_def)
next
  case False
  then obtain n where i: "i = int n" by (metis nonneg_int_cases not_less)
  have "n < 2 ^ (w - 1)" using assms(2) unfolding i by (metis of_nat_less_numeral_power_cancel_iff)
  moreover obtain d ds where d: "to_decimal n = d # ds" "d \<noteq> 0x2D"
    using to_decimal_Cons [of n] digit_not_sign by blast
  moreover have "parse_digits (strip_plus (d # ds)) = Some n"
    unfolding d(1) [symmetric] by simp
  ultimately show ?thesis by (simp add: i parse_signed_def int_to_string_def)
qed

section \<open>Double precision floats\<close>

text \<open>An \<open>f64\<close> is its bit pattern. \<open>f64_of_ratio\<close> rounds a positive rational to the nearest
  double, ties to even, as \<open>str::parse::<f64>\<close> does: with \<open>q\<close> the exponent of the last
  place, the rounded significand is placed on the exponent field, so that a carry out of the
  significand moves to the next binade and values past the largest finite one become infinity.\<close>

fun bit_length :: "nat \<Rightarrow> nat" where
  "bit_length n = (if n = 0 then 0 else Suc (bit_length (n div 2)))"

declare bit_length.simps [simp del]

definition f64_of_ratio :: "nat \<Rightarrow> nat \<Rightarrow> f64" where
  "f64_of_ratio num den =
     (if num = 0 then 0
      else let k = int (bit_length num) - int (bit_length den);
               at_least = (if 0 \<le> k then den * 2 ^ nat k \<le> num else den \<le> num * 2 ^ nat (- k));
               e = (if at_least then k else k - 1);
               q = max (e - 52) (- 1074);
               n = (if 0 \<le> q then num else num * 2 ^ nat (- q));
               d = (if 0 \<le> q then den * 2 ^ nat q else den);
               r = n div d; m = 2 * (n mod d);
               r' = (if d < m \<or> (d = m \<and> odd r) then r + 1 else r);
               bits = (if r' < 2 ^ 52 then r' else nat (q + 1075) * 2 ^ 52 + (r' - 2 ^ 52))
           in of_nat (min bits 0x7FF0000000000000))"

definition f64_is_finite :: "f64 \<Rightarrow> bool" where
  "f64_is_finite f \<longleftrightarrow> drop_bit 52 f AND 0x7FF \<noteq> 0x7FF"

definition f64_is_zero :: "f64 \<Rightarrow> bool" where
  "f64_is_zero f \<longleftrightarrow> f AND 0x7FFFFFFFFFFFFFFF = 0"

definition f64_is_sign_negative :: "f64 \<Rightarrow> bool" where
  "f64_is_sign_negative f \<longleftrightarrow> bit f 63"

text \<open>The decimal grammar \<open>[-]digits[.digits][e[sign]digits]\<close>.\<close>

definition parse_f64 :: "bytes \<Rightarrow> f64 option" where
  "parse_f64 s =
     (let neg = (case s of [] \<Rightarrow> False | c # _ \<Rightarrow> c = 0x2D);
          t = (if neg then tl s else s);
          ip = takeWhile is_digit t; r = dropWhile is_digit t;
          has_frac = (case r of [] \<Rightarrow> False | c # _ \<Rightarrow> c = 0x2E);
          fp = (if has_frac then takeWhile is_digit (tl r) else []);
          r2 = (if has_frac then dropWhile is_digit (tl r) else r);
          ex = (case r2 of [] \<Rightarrow> Some 0
                | c # u \<Rightarrow> if c = 0x65 \<or> c = 0x45 then
                    (case u of [] \<Rightarrow> None
                     | sg # v \<Rightarrow> if sg = 0x2D then map_option (\<lambda>n. - int n) (parse_digits v)
                         else map_option int (parse_digits (strip_plus u)))
                    else None)
      in if ip @ fp = [] then None
         else case ex of None \<Rightarrow> None
           | Some x \<Rightarrow>
             (let x10 = x - int (length fp); m = dec_val (ip @ fp);
                  bits = (if 0 \<le> x10 then f64_of_ratio (m * 10 ^ nat x10) 1
                          else f64_of_ratio m (10 ^ nat (- x10)))
              in Some (if neg then bits OR 0x8000000000000000 else bits)))"

end
