(* ===== verification/Event_Error.thy ===== *)
theory Event_Error
  imports Rust_Str
begin

text \<open>
  The errors of event parsing and validation, \<open>wok-event/src/error.rs\<close>. A message is
  the text of its format string without the interpolated values; a JSON syntax error keeps the
  byte position it reports.
\<close>

datatype message = Text string | At_byte string nat

datatype event_limit = EventSize | NumTags | TagValSize | TooOld | TooNew | EphemeralTooOld

datatype event_error =
    Message message
  | Restricted string
  | Limit event_limit string

definition event_error_msg :: "string \<Rightarrow> event_error" where
  "event_error_msg m = Message (Text m)"

definition rejection_prefix :: "event_error \<Rightarrow> string" where
  "rejection_prefix e = (case e of Restricted _ \<Rightarrow> ''restricted'' | _ \<Rightarrow> ''invalid'')"

definition broken_limit :: "event_error \<Rightarrow> event_limit option" where
  "broken_limit e = (case e of Message _ \<Rightarrow> None | Restricted _ \<Rightarrow> None | Limit l _ \<Rightarrow> Some l)"

end
