(* ===== verification/Event_Json.thy ===== *)
theory Event_Json
  imports Event_Error
begin

text \<open>
  The strict JSON parser and the two serializers of \<open>wok-event/src/json.rs\<close>. The
  parser's state, a byte slice and a position, is the suffix that is still to be read; an
  internal error is its message with the number of unread bytes, from which
  \<open>parse_strict\<close> computes the byte position the error reports.
\<close>

section \<open>Values\<close>

text \<open>\<open>serde_json::Value\<close>: a number is an unsigned, a negative or a floating one, an
  object is a map sorted by key.\<close>

datatype number = PosInt u64 | NegInt i64 | Float f64

datatype "value" =
    Null
  | Bool bool
  | Number number
  | String bytes
  | Array "value list"
  | Object "(bytes \<times> value) list"

type_synonym json_map = "(bytes \<times> value) list"

definition number_from_i64 :: "int \<Rightarrow> number" where
  "number_from_i64 i = (if i < 0 then NegInt (of_int i) else PosInt (of_int i))"

definition number_from_f64 :: "f64 \<Rightarrow> number option" where
  "number_from_f64 f = (if f64_is_finite f then Some (Float f) else None)"

section \<open>Parser\<close>

type_synonym jerr = "string \<times> nat"
type_synonym 'a parsed = "jerr + 'a \<times> bytes"

definition MAX_DEPTH :: nat where
  "MAX_DEPTH = 128"

definition err :: "bytes \<Rightarrow> string \<Rightarrow> jerr + 'a" where
  "err r m = Inl (m, length r)"

definition is_ws :: "u8 \<Rightarrow> bool" where
  "is_ws c \<longleftrightarrow> c = 0x20 \<or> c = 0x09 \<or> c = 0x0A \<or> c = 0x0D"

definition skip_ws :: "bytes \<Rightarrow> bytes" where
  "skip_ws r = dropWhile is_ws r"

definition peek :: "bytes \<Rightarrow> u8 option" where
  "peek r = (case r of [] \<Rightarrow> None | c # _ \<Rightarrow> Some c)"

definition bump :: "bytes \<Rightarrow> u8 option \<times> bytes" where
  "bump r = (case r of [] \<Rightarrow> (None, []) | c # r' \<Rightarrow> (Some c, r'))"

definition expect :: "string \<Rightarrow> bytes \<Rightarrow> jerr + bytes" where
  "expect s r = (if take (length s) r = str s then Inr (drop (length s) r) else err r (''expected '' @ s))"

definition hex_digit :: "u8 \<Rightarrow> nat option" where
  "hex_digit c =
     (if 0x30 \<le> c \<and> c \<le> 0x39 then Some (unat c - 0x30)
      else if 0x61 \<le> c \<and> c \<le> 0x66 then Some (unat c - 0x61 + 10)
      else if 0x41 \<le> c \<and> c \<le> 0x46 then Some (unat c - 0x41 + 10)
      else None)"

fun hex4_loop :: "nat \<Rightarrow> nat \<Rightarrow> bytes \<Rightarrow> nat parsed" where
  "hex4_loop 0 v r = Inr (v, r)"
| "hex4_loop (Suc n) v [] = err [] ''truncated u escape''"
| "hex4_loop (Suc n) v (c # r) =
     (case hex_digit c of
        None \<Rightarrow> err r ''invalid hex digit in u escape''
      | Some d \<Rightarrow> hex4_loop n (v * 16 + d) r)"

definition parse_hex4 :: "bytes \<Rightarrow> nat parsed" where
  "parse_hex4 r = (if length r < 4 then err r ''truncated u escape'' else hex4_loop 4 0 r)"

definition utf8_len :: "u8 \<Rightarrow> nat" where
  "utf8_len b = (if b < 0x80 then 1 else if b < 0xE0 then 2 else if b < 0xF0 then 3 else 4)"

lemma length_skip_ws: "length (skip_ws r) \<le> length r"
  by (simp add: skip_ws_def length_dropWhile_le)

lemma hex4_loop_length: "hex4_loop n v r = Inr (w, r') \<Longrightarrow> length r = length r' + n"
  by (induction n v r rule: hex4_loop.induct) (auto simp: err_def split: option.splits)

lemma parse_hex4_length: "parse_hex4 r = Inr (w, r') \<Longrightarrow> length r = length r' + 4"
  by (auto simp: parse_hex4_def err_def dest: hex4_loop_length split: if_splits)

text \<open>The code point of a \<open>\u\<close> escape, with the low surrogate a high one requires.\<close>

definition parse_escape_u :: "bytes \<Rightarrow> nat parsed" where
  "parse_escape_u r = rbind (parse_hex4 r) (\<lambda>(hi, r1).
     if 0xD800 \<le> hi \<and> hi < 0xDC00 then
       (case bump r1 of (c1, r2) \<Rightarrow>
          if c1 \<noteq> Some 0x5C then err r2 ''unpaired surrogate''
          else (case bump r2 of (c2, r3) \<Rightarrow>
            if c2 \<noteq> Some 0x75 then err r3 ''unpaired surrogate''
            else rbind (parse_hex4 r3) (\<lambda>(lo, r4).
              if \<not> (0xDC00 \<le> lo \<and> lo < 0xE000) then err r4 ''unpaired surrogate''
              else Inr (0x10000 + (hi - 0xD800) * 1024 + (lo - 0xDC00), r4))))
     else if 0xDC00 \<le> hi \<and> hi < 0xE000 then err r1 ''unpaired surrogate''
     else Inr (hi, r1))"

lemma bump_length: "bump r = (c, r') \<Longrightarrow> length r' \<le> length r"
  by (auto simp: bump_def split: list.splits)

lemma parse_escape_u_length: "parse_escape_u r = Inr (w, r') \<Longrightarrow> length r' < length r"
  by (auto simp: parse_escape_u_def rbind_eq_Inr err_def split: if_splits prod.splits
      dest!: parse_hex4_length bump_length)

definition simple_escape :: "u8 \<Rightarrow> u8 option" where
  "simple_escape e =
     (if e = 0x22 then Some 0x22 else if e = 0x5C then Some 0x5C else if e = 0x2F then Some 0x2F
      else if e = 0x62 then Some 0x08 else if e = 0x66 then Some 0x0C else if e = 0x6E then Some 0x0A
      else if e = 0x72 then Some 0x0D else if e = 0x74 then Some 0x09 else None)"

text \<open>One turn of the loop of \<open>parse_string\<close>: the bytes it pushes, or None at the closing
  quote.\<close>

definition string_step :: "bytes \<Rightarrow> bytes option parsed" where
  "string_step r0 = (case r0 of
     [] \<Rightarrow> err [] ''unterminated string''
   | c # r \<Rightarrow>
     (if c = 0x22 then Inr (None, r)
      else if c = 0x5C then
        (case r of
           [] \<Rightarrow> err [] ''unterminated escape''
         | e # r1 \<Rightarrow>
             (if e = 0x75 then
                rbind (parse_escape_u r1) (\<lambda>(cp, r2).
                  if \<not> is_scalar cp then err r2 ''invalid codepoint''
                  else Inr (Some (utf8_encode cp), r2))
              else
                (case simple_escape e of
                   None \<Rightarrow> err r1 ''invalid escape''
                 | Some b \<Rightarrow> Inr (Some [b], r1))))
      else if c \<le> 0x1F then err r ''unescaped control character in string''
      else
        (let len = utf8_len c in
         if 1 < len then
           (if Suc (length r) < len then err r ''truncated UTF-8''
            else if \<not> utf8_valid (take len (c # r)) then err r ''invalid UTF-8''
            else Inr (Some (take len (c # r)), drop len (c # r)))
         else Inr (Some [c], r))))"

lemma string_step_length: "string_step r = Inr (p, r') \<Longrightarrow> length r' < length r"
  by (auto simp: string_step_def err_def rbind_eq_Inr Let_def utf8_len_def
      dest!: parse_escape_u_length split: if_splits list.splits option.splits)

function parse_string_loop :: "bytes \<Rightarrow> bytes \<Rightarrow> bytes parsed" where
  "parse_string_loop out r =
     rbind (string_step r) (\<lambda>(p, r').
       case p of None \<Rightarrow> Inr (out, r') | Some b \<Rightarrow> parse_string_loop (out @ b) r')"
  by pat_completeness auto
termination
  by (relation "measure (\<lambda>(out, r). length r)") (auto dest: string_step_length)

declare parse_string_loop.simps [simp del]

definition parse_string :: "bytes \<Rightarrow> bytes parsed" where
  "parse_string r = parse_string_loop [] (snd (bump r))"

definition consume_digits :: "bytes \<Rightarrow> bytes" where
  "consume_digits r = dropWhile is_digit r"

definition peek_digit :: "bytes \<Rightarrow> bool" where
  "peek_digit r = (case peek r of None \<Rightarrow> False | Some c \<Rightarrow> is_digit c)"

definition scan_int :: "bytes \<Rightarrow> jerr + bytes" where
  "scan_int r =
     (let r1 = (if peek r = Some 0x2D then tl r else r) in
      case peek r1 of
        None \<Rightarrow> err r1 ''invalid number''
      | Some c \<Rightarrow>
          if c = 0x30 then Inr (tl r1)
          else if is_digit c then Inr (consume_digits r1)
          else err r1 ''invalid number'')"

definition scan_frac :: "bytes \<Rightarrow> jerr + bool \<times> bytes" where
  "scan_frac r =
     (if peek r = Some 0x2E then
        (if \<not> peek_digit (tl r) then err (tl r) ''invalid number''
         else Inr (True, consume_digits (tl r)))
      else Inr (False, r))"

definition scan_exp :: "bool \<Rightarrow> bytes \<Rightarrow> jerr + bool \<times> bytes" where
  "scan_exp is_float r =
     (if peek r = Some 0x65 \<or> peek r = Some 0x45 then
        (let r1 = tl r;
             r2 = (if peek r1 = Some 0x2B \<or> peek r1 = Some 0x2D then tl r1 else r1) in
         if \<not> peek_digit r2 then err r2 ''invalid number'' else Inr (True, consume_digits r2))
      else Inr (is_float, r))"

definition number_as_f64 :: "bytes \<Rightarrow> bytes \<Rightarrow> jerr + number" where
  "number_as_f64 text r =
     (case parse_f64 text of
        None \<Rightarrow> err r ''invalid number''
      | Some f \<Rightarrow> (case number_from_f64 f of
          None \<Rightarrow> err r ''number out of range'' | Some n \<Rightarrow> Inr n))"

definition number_of_text :: "bool \<Rightarrow> bytes \<Rightarrow> bytes \<Rightarrow> jerr + number" where
  "number_of_text is_float text r =
     (if is_float then number_as_f64 text r
      else case parse_u64 text of
        Some u \<Rightarrow> Inr (PosInt u)
      | None \<Rightarrow> (case parse_signed 64 text of
          Some i \<Rightarrow> Inr (number_from_i64 i)
        | None \<Rightarrow> number_as_f64 text r))"

definition parse_number :: "bytes \<Rightarrow> value parsed" where
  "parse_number r =
     rbind (scan_int r) (\<lambda>r1.
     rbind (scan_frac r1) (\<lambda>(fl, r2).
     rbind (scan_exp fl r2) (\<lambda>(is_float, r3).
     let text = take (length r - length r3) r in
     rbind (number_of_text is_float text r3) (\<lambda>n. Inr (Number n, r3)))))"

lemma length_consume_digits [simp]: "length (consume_digits r) \<le> length r"
  by (simp add: consume_digits_def length_dropWhile_le)

lemma parse_string_loop_length: "parse_string_loop out r = Inr (s, r') \<Longrightarrow> length r' < length r"
proof (induction out r rule: parse_string_loop.induct)
  case (1 out r)
  from "1.prems" obtain p r1 where st: "string_step r = Inr (p, r1)"
    and rest: "(case p of None \<Rightarrow> Inr (out, r1) | Some b \<Rightarrow> parse_string_loop (out @ b) r1) = Inr (s, r')"
    by (subst (asm) parse_string_loop.simps) (auto simp: rbind_eq_Inr)
  show ?case
  proof (cases p)
    case (Some b)
    with rest have "length r' < length r1" using "1.IH" [OF st refl] by simp
    with string_step_length [OF st] show ?thesis by simp
  qed (use rest string_step_length [OF st] in auto)
qed

lemma parse_string_length: "parse_string r = Inr (s, r') \<Longrightarrow> length r' < length r"
  using parse_string_loop_length [of "[]" "snd (bump r)" s r']
  by (cases r) (auto simp: parse_string_def bump_def)

lemma scan_int_length: "scan_int r = Inr r' \<Longrightarrow> length r' < length r"
  by (cases r; cases "tl r")
    (auto simp: scan_int_def Let_def peek_def err_def consume_digits_def is_digit_def
      split: if_splits intro: le_imp_less_Suc length_dropWhile_le le_SucI)

lemma scan_frac_length: "scan_frac r = Inr (b, r') \<Longrightarrow> length r' \<le> length r"
  by (cases r)
    (auto simp: scan_frac_def peek_def peek_digit_def err_def consume_digits_def
      split: if_splits intro: length_dropWhile_le le_SucI)

lemma scan_exp_length: "scan_exp f r = Inr (b, r') \<Longrightarrow> length r' \<le> length r"
  by (cases r; cases "tl r")
    (auto simp: scan_exp_def Let_def peek_def peek_digit_def err_def consume_digits_def
      split: if_splits intro: length_dropWhile_le le_SucI)

lemma parse_number_length: "parse_number r = Inr (n, r') \<Longrightarrow> length r' < length r"
  by (auto simp: parse_number_def rbind_eq_Inr Let_def
      dest!: scan_int_length scan_frac_length scan_exp_length)

lemma expect_length: "expect s r = Inr r' \<Longrightarrow> length r' \<le> length r - length s"
  by (auto simp: expect_def err_def split: if_splits)

text \<open>\<open>parse_object\<close> and \<open>parse_array\<close> are the branches of \<open>parse_value\<close>
  that read the opening bracket and an immediate closing one; \<open>parse_members\<close> and
  \<open>parse_elems\<close> are their loops.\<close>

function (sequential) parse_value :: "nat \<Rightarrow> bytes \<Rightarrow> value parsed"
  and parse_members :: "nat \<Rightarrow> json_map \<Rightarrow> bytes \<Rightarrow> value parsed"
  and parse_elems :: "nat \<Rightarrow> value list \<Rightarrow> bytes \<Rightarrow> value parsed" where
  "parse_value depth r =
     (if MAX_DEPTH < depth then err r ''nesting too deep''
      else case r of
        [] \<Rightarrow> err r ''unexpected end of input''
      | c # r1 \<Rightarrow>
         (if c = 0x7B then
            (let r2 = skip_ws r1 in
             if peek r2 = Some 0x7D then Inr (Object [], tl r2) else parse_members depth [] r2)
          else if c = 0x5B then
            (let r2 = skip_ws r1 in
             if peek r2 = Some 0x5D then Inr (Array [], tl r2) else parse_elems depth [] r2)
          else if c = 0x22 then rbind (parse_string r) (\<lambda>(s, r'). Inr (String s, r'))
          else if c = 0x74 then rbind (expect ''true'' r) (\<lambda>r'. Inr (Bool True, r'))
          else if c = 0x66 then rbind (expect ''false'' r) (\<lambda>r'. Inr (Bool False, r'))
          else if c = 0x6E then rbind (expect ''null'' r) (\<lambda>r'. Inr (Null, r'))
          else if c = 0x2D \<or> is_digit c then parse_number r
          else err r ''unexpected character''))"
| "parse_members depth m r =
     (let r1 = skip_ws r in
      if peek r1 \<noteq> Some 0x22 then err r1 ''expected object key string''
      else rbind (parse_string r1) (\<lambda>(key, r2).
        if key \<in> set (map fst m) then err r2 ''duplicate JSON object key''
        else case bump (skip_ws r2) of (c, r3) \<Rightarrow>
          if c \<noteq> Some 0x3A then err r3 ''expected :''
          else rbind (parse_value (Suc depth) (skip_ws r3)) (\<lambda>(v, r4).
            case bump (skip_ws r4) of (d, r5) \<Rightarrow>
              if d = Some 0x2C then parse_members depth (btree_insert key v m) r5
              else if d = Some 0x7D then Inr (Object (btree_insert key v m), r5)
              else err r5 ''expected , or }'')))"
| "parse_elems depth arr r =
     rbind (parse_value (Suc depth) (skip_ws r)) (\<lambda>(v, r1).
       case bump (skip_ws r1) of (d, r2) \<Rightarrow>
         if d = Some 0x2C then parse_elems depth (arr @ [v]) r2
         else if d = Some 0x5D then Inr (Array (arr @ [v]), r2)
         else err r2 ''expected , or ]'')"
  by pat_completeness auto

lemma bump_skip_ws_length: "bump (skip_ws r) = (Some c, r') \<Longrightarrow> length r' < length r"
  using length_skip_ws [of r] by (auto simp: bump_def split: list.splits)

lemma tl_skip_ws_length: "length (skip_ws r) - Suc 0 < Suc (length r)"
  using length_skip_ws [of r] by auto

lemma parse_value_dom_length:
  "parse_value_parse_members_parse_elems_dom (Inl (depth, r)) \<Longrightarrow>
     parse_value depth r = Inr (v, r') \<Longrightarrow> length r' < length r"
  "parse_value_parse_members_parse_elems_dom (Inr (Inl (depth, m, r))) \<Longrightarrow>
     parse_members depth m r = Inr (v, r') \<Longrightarrow> length r' < length r"
  "parse_value_parse_members_parse_elems_dom (Inr (Inr (depth, arr, r))) \<Longrightarrow>
     parse_elems depth arr r = Inr (v, r') \<Longrightarrow> length r' < length r"
proof (induction depth r and depth m r and depth arr r arbitrary: v r' and v r' and v r'
    rule: parse_value_parse_members_parse_elems.pinduct)
  case (1 depth r)
  have obj: "length r' < length r"
    if "r = 0x7B # r1" "\<not> MAX_DEPTH < depth" "peek (skip_ws r1) \<noteq> Some 0x7D"
      "parse_members depth [] (skip_ws r1) = Inr (v, r')" for r1
    using "1.IH"(1) [OF that(2,1) refl refl that(3,4)] length_skip_ws [of r1] that(1) by simp
  have arr: "length r' < length r"
    if "r = 0x5B # r1" "\<not> MAX_DEPTH < depth" "peek (skip_ws r1) \<noteq> Some 0x5D"
      "parse_elems depth [] (skip_ws r1) = Inr (v, r')" for r1
    using "1.IH"(2) [OF that(2,1) _ refl refl that(3,4)] length_skip_ws [of r1] that(1) by simp
  from "1.prems" show ?case
    using obj arr
    by (auto simp: parse_value.psimps [OF "1.hyps"] err_def Let_def rbind_eq_Inr tl_skip_ws_length
        split: if_splits list.splits dest: parse_string_length expect_length parse_number_length)
next
  case (2 depth m r)
  note eq = parse_members.psimps [OF "2.hyps"]
  from "2.prems" obtain key r2 where ps: "parse_string (skip_ws r) = Inr (key, r2)"
    and nk: "key \<notin> set (map fst m)" and pk: "peek (skip_ws r) = Some 0x22"
    by (auto simp: eq err_def Let_def rbind_eq_Inr split: if_splits)
  obtain c r3 where colon': "bump (skip_ws r2) = (c, r3)" by fastforce
  with "2.prems" ps nk pk have c: "c = Some 0x3A"
    by (auto simp: eq err_def Let_def rbind_eq_Inr split: if_splits)
  note colon = colon' [unfolded c]
  from "2.prems" ps nk pk colon obtain w r4 where
    pv: "parse_value (Suc depth) (skip_ws r3) = Inr (w, r4)"
    by (auto simp: eq err_def Let_def rbind_eq_Inr)
  obtain d r5 where d: "bump (skip_ws r4) = (d, r5)" by fastforce
  from "2.prems" ps nk pk colon pv d
  have fin: "(if d = Some 0x2C then parse_members depth (btree_insert key w m) r5
      else if d = Some 0x7D then Inr (Object (btree_insert key w m), r5)
      else err r5 ''expected , or }'') = Inr (v, r')"
    by (auto simp: eq Let_def)
  have pk': "\<not> peek (skip_ws r) \<noteq> Some 0x22" using pk by simp
  have c': "\<not> (Some 0x3A \<noteq> Some (0x3A :: u8))" by simp
  have l: "length r4 < length r3"
    using "2.IH"(1) [OF refl pk' ps refl nk colon [symmetric] c' pv] length_skip_ws [of r3] by linarith
  show ?case
    using "2.IH"(2) [OF refl pk' ps refl nk colon [symmetric] c' pv refl d [symmetric]] fin l
      parse_string_length [OF ps] bump_skip_ws_length [OF colon] length_skip_ws [of r]
      bump_skip_ws_length [of r4]  d
    by (fastforce simp: err_def split: if_splits)
next
  case (3 depth arr r)
  note eq = parse_elems.psimps [OF "3.hyps"]
  from "3.prems" obtain w r1 where pv: "parse_value (Suc depth) (skip_ws r) = Inr (w, r1)"
    by (auto simp: eq rbind_eq_Inr)
  obtain d r2 where d: "bump (skip_ws r1) = (d, r2)" by fastforce
  from "3.prems" pv d
  have fin: "(if d = Some 0x2C then parse_elems depth (arr @ [w]) r2
      else if d = Some 0x5D then Inr (Array (arr @ [w]), r2)
      else err r2 ''expected , or ]'') = Inr (v, r')"
    by (auto simp: eq)
  have l: "length r1 < length r"
    using "3.IH"(1) [OF pv] length_skip_ws [of r] by linarith
  show ?case
    using "3.IH"(2) [OF pv refl d [symmetric]] fin l bump_skip_ws_length [of r1] d
    by (fastforce simp: err_def split: if_splits)
qed

termination parse_value
proof (relation "measure (\<lambda>x. case x of Inl (d, r) \<Rightarrow> 2 * length r
    | Inr (Inl (d, m, r)) \<Rightarrow> 2 * length r | Inr (Inr (d, a, r)) \<Rightarrow> Suc (2 * length r))",
    goal_cases)
  case (2 depth r c r1 r2)
  then show ?case using length_skip_ws [of r1] by simp
next
  case (3 depth r c r1 r2)
  then show ?case using length_skip_ws [of r1] by simp
next
  case (4 depth m r r1 p key r2 c r3)
  then show ?case
    using parse_string_length [of r1 key r2] length_skip_ws [of r] length_skip_ws [of r3]
    by (auto dest!: bump_skip_ws_length [OF sym])
next
  case (5 depth m r r1 p key r2 c r3 q v r4 d r5)
  then show ?case
    using parse_string_length [of r1 key r2] length_skip_ws [of r] length_skip_ws [of r3]
      parse_value_dom_length(1) [of "Suc depth" "skip_ws r3" v r4]
    by (auto dest!: bump_skip_ws_length [OF sym])
next
  case (6 depth arr r)
  then show ?case using length_skip_ws [of r] by simp
next
  case (7 depth arr r p v r1 d r2)
  then show ?case
    using length_skip_ws [of r] parse_value_dom_length(1) [of "Suc depth" "skip_ws r" v r1]
    by (auto dest!: bump_skip_ws_length [OF sym])
qed simp

declare parse_value.simps [simp del] parse_members.simps [simp del] parse_elems.simps [simp del]

definition parse_strict :: "bytes \<Rightarrow> event_error + value" where
  "parse_strict text =
     (case rbind (parse_value 0 (skip_ws text)) (\<lambda>(v, r).
        if skip_ws r \<noteq> [] then err (skip_ws r) ''unexpected trailing characters'' else Inr v) of
        Inl (m, unread) \<Rightarrow> Inl (Message (At_byte m (length text - unread)))
      | Inr v \<Rightarrow> Inr v)"

section \<open>Serializers\<close>

datatype Escaping = Tao | Nip01

definition hex_char :: "nat \<Rightarrow> u8" where
  "hex_char d = (if d < 10 then as_u8 (0x30 + d) else as_u8 (0x61 + (d - 10)))"

definition write_char :: "Escaping \<Rightarrow> nat \<Rightarrow> bytes" where
  "write_char escaping c =
     (if c = 0x22 then [0x5C, 0x22]
      else if c = 0x5C then [0x5C, 0x5C]
      else if c = 0x08 then [0x5C, 0x62]
      else if c = 0x0C then [0x5C, 0x66]
      else if c = 0x0A then [0x5C, 0x6E]
      else if c = 0x0D then [0x5C, 0x72]
      else if c = 0x09 then [0x5C, 0x74]
      else if c < 0x20 \<or> (c = 0x7F \<and> escaping = Tao) then
        [0x5C, 0x75, 0x30, 0x30, hex_char (c div 16 mod 16), hex_char (c mod 16)]
      else utf8_encode c)"

definition write_string :: "Escaping \<Rightarrow> bytes \<Rightarrow> bytes" where
  "write_string escaping s = 0x22 # concat (map (write_char escaping) (chars s)) @ [0x22]"

text \<open>The printed form of a finite double by \<open>serde_json\<close> is a parameter \<open>fmt\<close>;
  \<open>format_tao_f64\<close> rewrites it.\<close>

definition tao_digits :: "bytes \<Rightarrow> bytes \<times> int" where
  "tao_digits s =
     (let is_e = (\<lambda>c. c = 0x65 \<or> c = 0x45) in
      if list_ex is_e s then
        (filter (\<lambda>c. c \<noteq> 0x2E) (takeWhile (\<lambda>c. \<not> is_e c) s),
         case parse_signed 32 (tl (dropWhile (\<lambda>c. \<not> is_e c) s)) of None \<Rightarrow> 0 | Some e \<Rightarrow> e)
      else if 0x2E \<in> set s then
        (let int_part = takeWhile (\<lambda>c. c \<noteq> 0x2E) s;
             frac_part = tl (dropWhile (\<lambda>c. c \<noteq> 0x2E) s) in
         if int_part \<noteq> [0x30] then (int_part @ frac_part, int (length int_part) - 1)
         else (dropWhile (\<lambda>c. c = 0x30) frac_part,
               - int (length (takeWhile (\<lambda>c. c = 0x30) frac_part)) - 1))
      else (s, int (length s) - 1))"

function trim_zeros :: "bytes \<Rightarrow> bytes" where
  "trim_zeros ds = (if 1 < length ds \<and> last ds = 0x30 then trim_zeros (butlast ds) else ds)"
  by pat_completeness auto
termination
  by (relation "measure length") auto

declare trim_zeros.simps [simp del]

definition format_tao_f64 :: "(f64 \<Rightarrow> bytes) \<Rightarrow> f64 \<Rightarrow> bytes" where
  "format_tao_f64 fmt f =
     (if f64_is_zero f then (if f64_is_sign_negative f then str ''-0.0'' else str ''0.0'')
      else
        (let s0 = (if f64_is_finite f then fmt f else []);
             neg = (peek s0 = Some 0x2D);
             s = (if neg then tl s0 else s0);
             (digits0, exp10) = tao_digits s;
             digits = trim_zeros digits0;
             exp = exp10 + 1;
             l = int (length digits)
         in (if neg then [0x2D] else []) @
            (if - 6 < exp \<and> exp < 22 then
               (if exp \<le> 0 then str ''0.'' @ replicate (nat (- exp)) 0x30 @ digits
                else if l \<le> exp then digits @ replicate (nat (exp - l)) 0x30 @ str ''.0''
                else take (nat exp) digits @ [0x2E] @ drop (nat exp) digits)
             else
               take 1 digits @ (if 1 < l then 0x2E # drop 1 digits else []) @ [0x65] @
               int_to_string exp10)))"

definition number_to_string :: "(f64 \<Rightarrow> bytes) \<Rightarrow> number \<Rightarrow> bytes" where
  "number_to_string fmt n =
     (case n of
        PosInt u \<Rightarrow> to_decimal (unat u)
      | NegInt i \<Rightarrow> int_to_string (sint i)
      | Float f \<Rightarrow> format_tao_f64 fmt f)"

fun join_comma :: "bytes list \<Rightarrow> bytes" where
  "join_comma [] = []"
| "join_comma [x] = x"
| "join_comma (x # y # xs) = x @ 0x2C # join_comma (y # xs)"

fun write_json :: "(f64 \<Rightarrow> bytes) \<Rightarrow> Escaping \<Rightarrow> value \<Rightarrow> bytes" where
  "write_json fmt escaping Null = str ''null''"
| "write_json fmt escaping (Bool b) = (if b then str ''true'' else str ''false'')"
| "write_json fmt escaping (Number n) = number_to_string fmt n"
| "write_json fmt escaping (String s) = write_string escaping s"
| "write_json fmt escaping (Array arr) =
     0x5B # join_comma (map (write_json fmt escaping) arr) @ [0x5D]"
| "write_json fmt escaping (Object m) =
     0x7B # join_comma (map (\<lambda>(k, v). write_string escaping k @ 0x3A # write_json fmt escaping v)
       (sort_key fst m)) @ [0x7D]"

definition write_tao :: "(f64 \<Rightarrow> bytes) \<Rightarrow> value \<Rightarrow> bytes" where
  "write_tao fmt v = write_json fmt Tao v"

definition to_tao_string :: "(f64 \<Rightarrow> bytes) \<Rightarrow> value \<Rightarrow> bytes" where
  "to_tao_string fmt v = write_tao fmt v"

definition write_nip01 :: "(f64 \<Rightarrow> bytes) \<Rightarrow> value \<Rightarrow> bytes" where
  "write_nip01 fmt v = write_json fmt Nip01 v"

section \<open>Printing and parsing back\<close>

lemma hex_digit_hex_char: "d < 16 \<Longrightarrow> hex_digit (hex_char d) = Some d"
  by (auto simp: hex_digit_def hex_char_def word_le_nat_alt unat_as_u8)

lemma hex4: "hex4_loop 4 = hex4_loop (Suc (Suc (Suc (Suc 0))))"
  by (rule arg_cong [of _ _ hex4_loop]) simp

lemma parse_escape_u00:
  assumes "c < 256"
  shows "parse_escape_u (0x30 # 0x30 # hex_char (c div 16 mod 16) # hex_char (c mod 16) # r) = Inr (c, r)"
proof -
  have z: "hex_digit 0x30 = Some 0" by (simp add: hex_digit_def)
  have "c div 16 mod 16 * 16 + c mod 16 = c" using assms by (simp add: less_mult_imp_div_less)
  then have "hex4_loop (Suc (Suc (Suc (Suc 0)))) 0
      (0x30 # 0x30 # hex_char (c div 16 mod 16) # hex_char (c mod 16) # r) = Inr (c, r)"
    by (simp add: z hex_digit_hex_char)
  then have "parse_hex4 (0x30 # 0x30 # hex_char (c div 16 mod 16) # hex_char (c mod 16) # r) = Inr (c, r)"
    by (simp add: parse_hex4_def hex4 del: hex4_loop.simps)
  with assms show ?thesis by (simp add: parse_escape_u_def)
qed

lemma utf8_encode_head:
  assumes "is_scalar c" "0x80 \<le> c"
  shows "0x80 \<le> hd (utf8_encode c) \<and> utf8_len (hd (utf8_encode c)) = length (utf8_encode c)"
proof -
  have lt: "c < 0x110000" using assms by (auto simp: is_scalar_def)
  have d: "c < 0x800 \<Longrightarrow> c div 64 < 32" "c < 0x10000 \<Longrightarrow> c div 4096 < 16" "c div 262144 < 16"
    using lt by (simp_all add: less_mult_imp_div_less)
  consider "c < 0x800" | "0x800 \<le> c" "c < 0x10000" | "0x10000 \<le> c" by linarith
  then show ?thesis
    using assms(2) d
    by cases (simp_all add: utf8_encode_def utf8_len_def word_le_nat_alt word_less_nat_alt unat_as_u8)
qed

definition short_escaped :: "nat \<Rightarrow> bool" where
  "short_escaped c \<longleftrightarrow> c \<in> {0x22, 0x5C, 0x08, 0x0C, 0x0A, 0x0D, 0x09}"

definition u_escaped :: "Escaping \<Rightarrow> nat \<Rightarrow> bool" where
  "u_escaped esc c \<longleftrightarrow> \<not> short_escaped c \<and> (c < 0x20 \<or> (c = 0x7F \<and> esc = Tao))"

lemma write_char_cases:
  obtains (short) "short_escaped c" | (u) "u_escaped esc c"
    | (ascii) "\<not> short_escaped c" "\<not> u_escaped esc c" "0x20 \<le> c" "c < 0x80"
    | (multi) "\<not> short_escaped c" "\<not> u_escaped esc c" "0x80 \<le> c"
  unfolding u_escaped_def by (metis not_le)

lemma write_char_u: "u_escaped esc c \<Longrightarrow>
    write_char esc c = [0x5C, 0x75, 0x30, 0x30, hex_char (c div 16 mod 16), hex_char (c mod 16)]"
  by (simp add: write_char_def u_escaped_def short_escaped_def)

lemma write_char_raw:
  "\<not> short_escaped c \<Longrightarrow> \<not> u_escaped esc c \<Longrightarrow> write_char esc c = utf8_encode c"
  by (auto simp: write_char_def u_escaped_def short_escaped_def)

lemma string_step_short: "short_escaped c \<Longrightarrow> string_step (write_char esc c @ r) = Inr (Some (utf8_encode c), r)"
  unfolding short_escaped_def
  by (elim insertE emptyE;
      simp add: write_char_def string_step_def simple_escape_def utf8_encode_def as_u8_def)

lemma string_step_ascii:
  assumes "\<not> short_escaped c" "0x20 \<le> c" "c < 0x80"
  shows "string_step (utf8_encode c @ r) = Inr (Some (utf8_encode c), r)"
proof -
  have u: "unat (as_u8 c) = c" using assms by (simp add: unat_as_u8)
  have "as_u8 c \<noteq> 0x22" "as_u8 c \<noteq> 0x5C"
    using assms(1) u by (auto simp: short_escaped_def)
  moreover have "\<not> as_u8 c \<le> 0x1F" "as_u8 c < 0x80"
    using assms u by (simp_all add: word_le_nat_alt word_less_nat_alt)
  moreover have "utf8_encode c = [as_u8 c]" using assms by (simp add: utf8_encode_def)
  ultimately show ?thesis by (simp add: string_step_def utf8_len_def)
qed

lemma string_step_multi:
  assumes "is_scalar c" "0x80 \<le> c"
  shows "string_step (utf8_encode c @ r) = Inr (Some (utf8_encode c), r)"
proof -
  obtain b t where b: "utf8_encode c = b # t" by (cases "utf8_encode c") auto
  have len: "utf8_len b = length (b # t)" and hi: "0x80 \<le> b"
    using utf8_encode_head [OF assms] by (simp_all add: b)
  have "1 < length (b # t)" using assms(2) b by (auto simp: utf8_encode_def split: if_splits)
  moreover have "b \<noteq> 0x22" "b \<noteq> 0x5C" "\<not> b \<le> 0x1F"
    using hi by (auto simp: word_le_nat_alt)
  moreover have "utf8_valid (b # t)" using utf8_valid_encode [OF assms(1)] by (simp add: b)
  ultimately show ?thesis using len by (simp add: b string_step_def)
qed

lemma string_step_write_char:
  assumes "is_scalar c"
  shows "string_step (write_char esc c @ r) = Inr (Some (utf8_encode c), r)"
proof (cases rule: write_char_cases [where c = c and esc = esc])
  case short
  then show ?thesis by (rule string_step_short)
next
  case u
  then have "c < 256" by (auto simp: u_escaped_def)
  with u assms show ?thesis
    using parse_escape_u00 [of c r] by (simp add: write_char_u string_step_def)
next
  case ascii
  then show ?thesis by (simp add: write_char_raw string_step_ascii)
next
  case multi
  with assms show ?thesis by (simp add: write_char_raw string_step_multi)
qed

lemma parse_string_loop_written:
  "list_all is_scalar cs \<Longrightarrow>
     parse_string_loop out (concat (map (write_char esc) cs) @ 0x22 # r) = Inr (out @ utf8_string cs, r)"
proof (induction cs arbitrary: out)
  case Nil
  show ?case by (subst parse_string_loop.simps) (simp add: string_step_def)
next
  case (Cons c cs)
  then show ?case
    by (subst parse_string_loop.simps) (simp add: string_step_write_char)
qed

lemma parse_string_written:
  "utf8_valid s \<Longrightarrow> parse_string (write_string esc s @ r) = Inr (s, r)"
  using parse_string_loop_written [OF chars_scalar, of "[]" esc s r]
  by (simp add: parse_string_def write_string_def bump_def utf8_string_chars)

section \<open>Round trip of whole values\<close>

text \<open>The values the parser can return: strings are UTF-8, object keys are sorted and distinct,
  a \<open>NegInt\<close> is negative and a \<open>Float\<close> is finite.\<close>

fun wf_value :: "value \<Rightarrow> bool" where
  "wf_value Null = True"
| "wf_value (Bool b) = True"
| "wf_value (Number n) = (case n of PosInt u \<Rightarrow> True | NegInt i \<Rightarrow> sint i < 0 | Float f \<Rightarrow> f64_is_finite f)"
| "wf_value (String s) = utf8_valid s"
| "wf_value (Array arr) = list_all wf_value arr"
| "wf_value (Object m) = (btree_keys m \<and> list_all (\<lambda>(k, v). utf8_valid k \<and> wf_value v) m)"

fun no_float :: "value \<Rightarrow> bool" where
  "no_float (Number (Float f)) = False"
| "no_float (Array arr) = list_all no_float arr"
| "no_float (Object m) = list_all (\<lambda>(k, v). no_float v) m"
| "no_float _ = True"

text \<open>The nesting below a value: an empty container counts as a leaf.\<close>

fun nesting :: "value \<Rightarrow> nat" where
  "nesting (Array arr) = foldr (\<lambda>v n. max (Suc (nesting v)) n) arr 0"
| "nesting (Object m) = foldr (\<lambda>(k, v) n. max (Suc (nesting v)) n) m 0"
| "nesting _ = 0"

lemma nesting_Array_iff:
  "d + nesting (Array arr) \<le> n \<longleftrightarrow> d \<le> n \<and> (\<forall>v \<in> set arr. Suc d + nesting v \<le> n)"
  by (induction arr) auto

lemma nesting_Object_iff:
  "d + nesting (Object m) \<le> n \<longleftrightarrow> d \<le> n \<and> (\<forall>p \<in> set m. Suc d + nesting (snd p) \<le> n)"
proof (induction m)
  case (Cons p m)
  then show ?case by (cases p) auto
qed simp

lemmas nesting_Array = nesting_Array_iff [THEN iffD1, THEN conjunct2, THEN bspec]

lemma nesting_Object: "d + nesting (Object m) \<le> n \<Longrightarrow> (k, v) \<in> set m \<Longrightarrow> Suc d + nesting v \<le> n"
  using nesting_Object_iff by fastforce

definition no_num :: "bytes \<Rightarrow> bool" where
  "no_num r = (case peek r of None \<Rightarrow> True
     | Some c \<Rightarrow> \<not> is_digit c \<and> c \<noteq> 0x2E \<and> c \<noteq> 0x65 \<and> c \<noteq> 0x45)"

lemma no_num_punct [simp]: "no_num []" "no_num (0x2C # r)" "no_num (0x5D # r)" "no_num (0x7D # r)"
  by (simp_all add: no_num_def peek_def is_digit_def)

lemma dropWhile_digits:
  "list_all is_digit ds \<Longrightarrow> no_num r \<Longrightarrow> dropWhile is_digit (ds @ r) = r"
  by (induction ds) (auto simp: no_num_def peek_def split: list.splits)

lemma scan_int_decimal: "no_num r \<Longrightarrow> scan_int (to_decimal n @ r) = Inr r"
proof (cases "n = 0")
  case True
  then show ?thesis by (simp add: to_decimal_zero scan_int_def peek_def)
next
  case False
  assume r: "no_num r"
  obtain d ds where d: "to_decimal n = d # ds" "is_digit d" "list_all is_digit ds"
    using to_decimal_Cons by blast
  moreover have "d \<noteq> 0x30" using hd_to_decimal [OF False] d(1) by simp
  moreover have "consume_digits (d # ds @ r) = r"
    using dropWhile_digits [of "d # ds" r] d r by (simp add: consume_digits_def)
  ultimately show ?thesis using digit_not_sign [OF d(2)] by (simp add: scan_int_def peek_def)
qed

lemma scan_int_minus: "scan_int (0x2D # r) = (if peek r = Some 0x2D then err r ''invalid number'' else scan_int r)"
  by (auto simp: scan_int_def peek_def Let_def is_digit_def split: option.splits list.splits)

lemma scan_int_to_string: "no_num r \<Longrightarrow> scan_int (int_to_string i @ r) = Inr r"
  using to_decimal_Cons [of "nat (- i)"] digit_not_sign scan_int_decimal [of r "nat (- i)"]
  by (auto simp: int_to_string_def scan_int_minus scan_int_decimal peek_def)

lemma parse_number_scanned:
  "scan_int (t @ r) = Inr r \<Longrightarrow> no_num r \<Longrightarrow>
     parse_number (t @ r) = rbind (number_of_text False t r) (\<lambda>n. Inr (Number n, r))"
  by (auto simp: parse_number_def scan_frac_def scan_exp_def no_num_def split: option.splits)

lemma parse_number_written:
  assumes "no_num r" "wf_value (Number n)" "no_float (Number n)"
  shows "parse_number (number_to_string fmt n @ r) = Inr (Number n, r)"
proof (cases n)
  case (PosInt u)
  with assms(1) show ?thesis
    by (simp add: number_to_string_def parse_number_scanned scan_int_decimal number_of_text_def
        parse_u64_to_decimal)
next
  case (NegInt i)
  with assms have neg: "sint i < 0" by simp
  have lo: "- (2 ^ 63) \<le> sint i" using sint_greater_eq [of i] by simp
  have "parse_u64 (int_to_string (sint i)) = None"
    using neg by (simp add: int_to_string_def parse_u64_negative)
  moreover have "parse_signed 64 (int_to_string (sint i)) = Some (sint i)"
    using neg lo by (intro parse_signed_to_string) simp_all
  ultimately show ?thesis
    using neg assms(1)
    by (simp add: NegInt number_to_string_def parse_number_scanned scan_int_to_string
        number_of_text_def number_from_i64_def)
qed (use assms in simp)

lemma skip_ws_Cons [simp]: "\<not> is_ws c \<Longrightarrow> skip_ws (c # r) = c # r"
  by (simp add: skip_ws_def)

lemma not_ws [simp]: "\<not> is_ws 0x22" "\<not> is_ws 0x2C" "\<not> is_ws 0x3A" "\<not> is_ws 0x5B"
  "\<not> is_ws 0x5D" "\<not> is_ws 0x7B" "\<not> is_ws 0x7D"
  by (simp_all add: is_ws_def)

lemma digit_not_ws: "is_digit c \<Longrightarrow> \<not> is_ws c \<and> c \<noteq> 0x5D"
  by (auto simp: is_digit_def is_ws_def word_le_nat_alt)

lemma write_json_head:
  "no_float v \<Longrightarrow> \<exists>c t. write_json fmt esc v = c # t \<and> \<not> is_ws c \<and> c \<noteq> 0x5D"
proof (cases v)
  case (Number n)
  moreover assume "no_float v"
  moreover have "\<exists>c t. to_decimal k = c # t \<and> \<not> is_ws c \<and> c \<noteq> 0x5D" for k
    using to_decimal_Cons [of k] digit_not_ws by blast
  ultimately show ?thesis
    by (cases n) (simp_all add: number_to_string_def int_to_string_def is_ws_def)
qed (auto simp: is_ws_def write_string_def)

lemma skip_ws_written: "no_float v \<Longrightarrow> skip_ws (write_json fmt esc v @ r) = write_json fmt esc v @ r"
  using write_json_head [of v fmt esc] by auto

lemma peek_written: "no_float v \<Longrightarrow> peek (write_json fmt esc v @ r) \<noteq> Some 0x5D"
  using write_json_head [of v fmt esc] by (auto simp: peek_def)

lemma bump_Cons [simp]: "bump (c # r) = (Some c, r)"
  by (simp add: bump_def)

lemma parse_elems_written:
  assumes "vs \<noteq> []" "list_all no_float vs"
    and "\<And>v r. v \<in> set vs \<Longrightarrow> no_num r \<Longrightarrow>
      parse_value (Suc d) (write_json fmt esc v @ r) = Inr (v, r)"
  shows "parse_elems d arr (join_comma (map (write_json fmt esc) vs) @ 0x5D # r) =
    Inr (Array (arr @ vs), r)"
  using assms
proof (induction vs arbitrary: arr rule: list_nonempty_induct)
  case (single v)
  then show ?case by (subst parse_elems.simps) (simp add: skip_ws_written)
next
  case (cons v vs)
  have step: "join_comma (map (write_json fmt esc) (v # vs)) =
      write_json fmt esc v @ 0x2C # join_comma (map (write_json fmt esc) vs)"
    using cons.hyps by (cases vs) simp_all
  have "parse_elems d (arr @ [v]) (join_comma (map (write_json fmt esc) vs) @ 0x5D # r) =
      Inr (Array ((arr @ [v]) @ vs), r)"
    using cons.prems by (intro cons.IH) simp_all
  with cons.prems show ?case
    by (subst parse_elems.simps) (simp only: step append_assoc append_Cons, simp add: skip_ws_written)
qed

definition write_member :: "(f64 \<Rightarrow> bytes) \<Rightarrow> Escaping \<Rightarrow> bytes \<times> value \<Rightarrow> bytes" where
  "write_member fmt esc = (\<lambda>(k, v). write_string esc k @ 0x3A # write_json fmt esc v)"

lemma parse_members_step:
  assumes "utf8_valid k" "k \<notin> fst ` set m" "no_float v"
    "parse_value (Suc d) (write_json fmt esc v @ c # r) = Inr (v, c # r)" "\<not> is_ws c"
  shows "parse_members d m (write_member fmt esc (k, v) @ c # r) =
    (if c = 0x2C then parse_members d (btree_insert k v m) r
     else if c = 0x7D then Inr (Object (btree_insert k v m), r)
     else err r ''expected , or }'')"
proof -
  have "skip_ws (write_string esc k @ t) = write_string esc k @ t"
    "peek (write_string esc k @ t) = Some 0x22" for t
    by (simp_all add: write_string_def peek_def)
  with assms show ?thesis
    by (subst parse_members.simps)
      (simp add: write_member_def parse_string_written skip_ws_written)
qed

lemma parse_members_written:
  assumes "kvs \<noteq> []" "btree_keys (m @ kvs)"
    "\<And>k v. (k, v) \<in> set kvs \<Longrightarrow> utf8_valid k \<and> no_float v"
    "\<And>k v r. (k, v) \<in> set kvs \<Longrightarrow> no_num r \<Longrightarrow>
      parse_value (Suc d) (write_json fmt esc v @ r) = Inr (v, r)"
  shows "parse_members d m (join_comma (map (write_member fmt esc) kvs) @ 0x7D # r) =
    Inr (Object (m @ kvs), r)"
  using assms
proof (induction kvs arbitrary: m rule: list_nonempty_induct)
  case (single p)
  obtain k v where p: "p = (k, v)" by fastforce
  have "btree_insert k v m = m @ [(k, v)]"
    using single.prems(1) by (intro btree_insert_last) (auto simp: p sorted_wrt_append)
  moreover have "k \<notin> fst ` set m" using single.prems(1) by (auto simp: p sorted_wrt_append)
  ultimately show ?case using single.prems(2,3) [of k v] by (simp add: p parse_members_step)
next
  case (cons p kvs)
  obtain k v where p: "p = (k, v)" by fastforce
  have ins: "btree_insert k v m = m @ [(k, v)]"
    using cons.prems(1) by (intro btree_insert_last) (auto simp: p sorted_wrt_append)
  have new: "k \<notin> fst ` set m" using cons.prems(1) by (auto simp: p sorted_wrt_append)
  have step: "join_comma (map (write_member fmt esc) (p # kvs)) =
      write_member fmt esc p @ 0x2C # join_comma (map (write_member fmt esc) kvs)"
    using cons.hyps by (cases kvs) simp_all
  have "parse_members d (m @ [p]) (join_comma (map (write_member fmt esc) kvs) @ 0x7D # r) =
      Inr (Object ((m @ [p]) @ kvs), r)"
    using cons.prems(1) cons.prems(2,3) [OF list.set_intros(2)] by (intro cons.IH) simp_all
  with cons.prems(2,3) [of k v] show ?case
    by (simp only: step append_assoc append_Cons) (simp add: p parse_members_step ins new)
qed

lemma sort_key_sorted: "sorted (map f xs) \<Longrightarrow> sort_key f xs = xs"
proof (induction xs)
  case (Cons x xs)
  then show ?case by (cases xs) simp_all
qed simp

lemma write_json_Object:
  "btree_keys m \<Longrightarrow>
     write_json fmt esc (Object m) = 0x7B # join_comma (map (write_member fmt esc) m) @ [0x7D]"
  by (simp add: write_member_def sort_key_sorted strict_sorted_imp_sorted)

lemma parse_value_container:
  assumes "d \<le> MAX_DEPTH"
  shows "parse_value d (0x5B # r) =
      (if peek (skip_ws r) = Some 0x5D then Inr (Array [], tl (skip_ws r)) else parse_elems d [] (skip_ws r))"
    "parse_value d (0x7B # r) =
      (if peek (skip_ws r) = Some 0x7D then Inr (Object [], tl (skip_ws r)) else parse_members d [] (skip_ws r))"
  using assms by (simp_all add: parse_value.simps)

lemma parse_value_number:
  assumes "d \<le> MAX_DEPTH" "no_float (Number n)"
  shows "parse_value d (number_to_string fmt n @ r) = parse_number (number_to_string fmt n @ r)"
proof -
  have "\<exists>c t. number_to_string fmt n = c # t \<and> (c = 0x2D \<or> is_digit c)"
    using assms(2) to_decimal_Cons
    by (cases n) (fastforce simp: number_to_string_def int_to_string_def)+
  then obtain c t where c: "number_to_string fmt n = c # t" "c = 0x2D \<or> is_digit c" by blast
  then have "c \<notin> {0x7B, 0x5B, 0x22, 0x74, 0x66, 0x6E}" by (auto simp: is_digit_def)
  with c assms(1) show ?thesis by (simp add: parse_value.simps)
qed

lemma parse_value_written:
  "wf_value v \<Longrightarrow> no_float v \<Longrightarrow> d + nesting v \<le> MAX_DEPTH \<Longrightarrow> no_num r \<Longrightarrow>
     parse_value d (write_json fmt esc v @ r) = Inr (v, r)"
proof (induction v arbitrary: d r)
  case (Bool b)
  then show ?case by (cases b) (simp_all add: parse_value.simps expect_def)
next
  case (Number n)
  then show ?case using parse_value_number [of d n fmt r] parse_number_written [of r n fmt] by simp
next
  case (String s)
  moreover have "\<exists>t. write_string esc s @ r = 0x22 # t" by (simp add: write_string_def)
  ultimately show ?case
    using parse_string_written [of s esc r] by (auto simp: parse_value.simps)
next
  case (Array vs)
  show ?case
  proof (cases "vs = []")
    case False
    have nf: "list_all no_float vs" using Array.prems by simp
    have IH: "parse_value (Suc d) (write_json fmt esc v @ r) = Inr (v, r)"
      if "v \<in> set vs" "no_num r" for v r
      using Array.IH [OF that(1), of "Suc d" r] Array.prems(1,2) nesting_Array [OF Array.prems(3) that(1)]
        that by (simp add: list_all_iff)
    obtain v vs' where vs: "vs = v # vs'" using False by (cases vs) auto
    obtain t where t: "join_comma (map (write_json fmt esc) vs) = write_json fmt esc v @ t"
      by (cases vs') (simp_all add: vs)
    have "skip_ws (write_json fmt esc v @ t @ 0x5D # r) = write_json fmt esc v @ t @ 0x5D # r"
      "peek (write_json fmt esc v @ t @ 0x5D # r) \<noteq> Some 0x5D"
      using nf by (simp_all add: vs skip_ws_written peek_written)
    then show ?thesis
      using parse_elems_written [OF False nf IH, of "[]" r] Array.prems(3)
      by (simp add: parse_value_container t)
  qed (use Array.prems in \<open>simp add: parse_value_container peek_def\<close>)
next
  case (Object m)
  then have keys: "btree_keys m" by simp
  show ?case
  proof (cases "m = []")
    case False
    have nf: "utf8_valid k \<and> no_float v" if "(k, v) \<in> set m" for k v
      using Object.prems(1,2) that by (auto simp: list_all_iff)
    have IH: "parse_value (Suc d) (write_json fmt esc v @ r) = Inr (v, r)"
      if "(k, v) \<in> set m" "no_num r" for k v r
      using Object.IH [OF that(1), of v "Suc d" r] Object.prems(1,2)
        nesting_Object [OF Object.prems(3) that(1)] that by (auto simp: list_all_iff)
    obtain t where t: "join_comma (map (write_member fmt esc) m) = 0x22 # t"
      using False by (cases m rule: remdups_adj.cases) (auto simp: write_member_def write_string_def)
    show ?thesis
      using parse_members_written [where kvs = m and m = "[]" and r = r and d = d and fmt = fmt
          and esc = esc, OF False _ nf IH] keys Object.prems(3)
      by (simp add: write_json_Object parse_value_container t peek_def del: write_json.simps)
  qed (use Object.prems in \<open>simp add: parse_value_container peek_def\<close>)
qed (simp_all add: parse_value.simps expect_def)

section \<open>What the parser returns\<close>

lemma simple_escape_ascii: "simple_escape e = Some b \<Longrightarrow> unat b < 0x80"
  by (auto simp: simple_escape_def split: if_splits)

lemma utf8_valid_byte: "unat b < 0x80 \<Longrightarrow> utf8_valid [b]"
  by (rule utf8_valid_ascii) simp

lemma string_step_valid: "string_step r = Inr (Some p, r') \<Longrightarrow> utf8_valid p"
  by (auto simp: string_step_def err_def rbind_eq_Inr Let_def utf8_len_def word_less_nat_alt
      intro: utf8_valid_encode utf8_valid_byte simple_escape_ascii
      split: if_splits list.splits option.splits)

lemma parse_string_loop_valid:
  "parse_string_loop out r = Inr (s, r') \<Longrightarrow> utf8_valid out \<Longrightarrow> utf8_valid s"
proof (induction out r rule: parse_string_loop.induct)
  case (1 out r)
  from "1.prems"(1) obtain p r1 where st: "string_step r = Inr (p, r1)"
    and rest: "(case p of None \<Rightarrow> Inr (out, r1) | Some b \<Rightarrow> parse_string_loop (out @ b) r1) = Inr (s, r')"
    by (subst (asm) parse_string_loop.simps) (auto simp: rbind_eq_Inr)
  show ?case
  proof (cases p)
    case (Some b)
    then show ?thesis
      using rest st "1.IH" [OF st refl Some] "1.prems"(2) string_step_valid [of r b r1]
      by (simp add: utf8_valid_append)
  qed (use rest "1.prems"(2) in auto)
qed

lemma parse_string_valid: "parse_string r = Inr (s, r') \<Longrightarrow> utf8_valid s"
  using parse_string_loop_valid [of "[]"] by (simp add: parse_string_def)

lemma parse_signed_range: "parse_signed w t = Some i \<Longrightarrow> - (2 ^ (w - 1)) \<le> i \<and> i < 2 ^ (w - 1)"
proof -
  assume p: "parse_signed w t = Some i"
  have "(0 :: int) < 2 ^ (w - 1)" by simp
  then have b: "- (2 ^ (w - 1)) \<le> int n" "- int n < 2 ^ (w - 1)" for n by linarith+
  from p b show ?thesis
    by (auto simp: parse_signed_def split: list.splits if_splits option.splits)
qed

lemma sint_of_int_i64: "- (2 ^ 63) \<le> i \<Longrightarrow> i < 2 ^ 63 \<Longrightarrow> sint (of_int i :: i64) = i"
  by (simp add: signed_of_int signed_take_bit_int_eq_self)

lemma number_of_text_wf: "number_of_text b t r = Inr n \<Longrightarrow> wf_value (Number n)"
  by (auto simp: number_of_text_def number_as_f64_def number_from_f64_def err_def number_from_i64_def
      sint_of_int_i64 dest!: parse_signed_range split: if_splits option.splits)

lemma parse_number_wf: "parse_number r = Inr (v, r') \<Longrightarrow> wf_value v \<and> nesting v = 0"
  by (auto simp: parse_number_def rbind_eq_Inr Let_def dest!: number_of_text_wf)

lemma wf_Object_insert:
  assumes "wf_value (Object m)" "utf8_valid k" "wf_value v"
  shows "wf_value (Object (btree_insert k v m))"
  using assms set_btree_insert [of k v m] by (auto simp: btree_insert_sorted list_all_iff)

lemma nesting_Object_insert:
  assumes "d + nesting (Object m) \<le> n" "Suc d + nesting v \<le> n"
  shows "d + nesting (Object (btree_insert k v m)) \<le> n"
  using assms set_btree_insert [of k v m] unfolding nesting_Object_iff by auto

lemma parse_value_wf:
  "parse_value d r = Inr (v, r') \<Longrightarrow> wf_value v \<and> d + nesting v \<le> MAX_DEPTH"
  "parse_members d m r = Inr (v, r') \<Longrightarrow> wf_value (Object m) \<Longrightarrow> d + nesting (Object m) \<le> MAX_DEPTH \<Longrightarrow>
     wf_value v \<and> d + nesting v \<le> MAX_DEPTH"
  "parse_elems d arr r = Inr (v, r') \<Longrightarrow> wf_value (Array arr) \<Longrightarrow> d + nesting (Array arr) \<le> MAX_DEPTH \<Longrightarrow>
     wf_value v \<and> d + nesting v \<le> MAX_DEPTH"
proof (induction d r and d m r and d arr r arbitrary: v r' and v r' and v r'
    rule: parse_value_parse_members_parse_elems.induct)
  case (1 depth r)
  have dp: "\<not> MAX_DEPTH < depth" using "1.prems" by (auto simp: parse_value.simps err_def)
  have obj: "wf_value v \<and> depth + nesting v \<le> MAX_DEPTH"
    if "r = 0x7B # r1" "peek (skip_ws r1) \<noteq> Some 0x7D" "parse_members depth [] (skip_ws r1) = Inr (v, r')" for r1
    using "1.IH"(1) [OF dp that(1) refl refl that(2,3)] dp by simp
  have arr: "wf_value v \<and> depth + nesting v \<le> MAX_DEPTH"
    if "r = 0x5B # r1" "peek (skip_ws r1) \<noteq> Some 0x5D" "parse_elems depth [] (skip_ws r1) = Inr (v, r')" for r1
    using "1.IH"(2) [OF dp that(1) _ refl refl that(2,3)] dp by simp
  from "1.prems" show ?case
    using obj arr dp
    by (auto simp: parse_value.simps [of depth r] err_def Let_def rbind_eq_Inr
        split: if_splits list.splits dest: parse_string_valid parse_number_wf)
next
  case (2 depth m r)
  note eq = parse_members.simps [of depth m r]
  from "2.prems"(1) obtain key r2 where ps: "parse_string (skip_ws r) = Inr (key, r2)"
    and nk: "key \<notin> set (map fst m)" and pk: "\<not> peek (skip_ws r) \<noteq> Some 0x22"
    by (auto simp: eq err_def Let_def rbind_eq_Inr split: if_splits)
  obtain c r3 where colon: "bump (skip_ws r2) = (c, r3)" by fastforce
  with "2.prems"(1) ps nk pk have c: "\<not> c \<noteq> Some 0x3A"
    by (auto simp: eq err_def Let_def rbind_eq_Inr split: if_splits)
  from "2.prems"(1) ps nk pk colon c obtain w r4 where
    pv: "parse_value (Suc depth) (skip_ws r3) = Inr (w, r4)"
    by (auto simp: eq err_def Let_def rbind_eq_Inr)
  obtain d r5 where d: "bump (skip_ws r4) = (d, r5)" by fastforce
  have fin: "(if d = Some 0x2C then parse_members depth (btree_insert key w m) r5
      else if d = Some 0x7D then Inr (Object (btree_insert key w m), r5)
      else err r5 ''expected , or }'') = Inr (v, r')"
    using "2.prems"(1) ps nk pk colon c pv d by (auto simp: eq Let_def)
  have w: "wf_value w" "Suc depth + nesting w \<le> MAX_DEPTH"
    using "2.IH"(1) [OF refl pk ps refl nk colon [symmetric] c pv] by simp_all
  have ins: "wf_value (Object (btree_insert key w m))"
      "depth + nesting (Object (btree_insert key w m)) \<le> MAX_DEPTH"
    using wf_Object_insert [OF "2.prems"(2) parse_string_valid [OF ps] w(1)]
      nesting_Object_insert [OF "2.prems"(3) w(2)] by simp_all
  show ?case
    using "2.IH"(2) [OF refl pk ps refl nk colon [symmetric] c pv refl d [symmetric] _ _ ins] fin ins
    by (auto simp: err_def simp del: wf_value.simps nesting.simps split: if_splits)
next
  case (3 depth arr r)
  note eq = parse_elems.simps [of depth arr r]
  from "3.prems"(1) obtain w r1 where pv: "parse_value (Suc depth) (skip_ws r) = Inr (w, r1)"
    by (auto simp: eq rbind_eq_Inr)
  obtain d r2 where d: "bump (skip_ws r1) = (d, r2)" by fastforce
  have fin: "(if d = Some 0x2C then parse_elems depth (arr @ [w]) r2
      else if d = Some 0x5D then Inr (Array (arr @ [w]), r2)
      else err r2 ''expected , or ]'') = Inr (v, r')"
    using "3.prems"(1) pv d by (auto simp: eq)
  have "wf_value w" "Suc depth + nesting w \<le> MAX_DEPTH" using "3.IH"(1) [OF pv] by simp_all
  then have app: "wf_value (Array (arr @ [w]))" "depth + nesting (Array (arr @ [w])) \<le> MAX_DEPTH"
    using "3.prems"(2,3) unfolding nesting_Array_iff by auto
  show ?case
    using "3.IH"(2) [OF pv refl d [symmetric] _ _ app] fin app
    by (auto simp: err_def simp del: wf_value.simps nesting.simps split: if_splits)
qed

lemma parse_strict_written:
  assumes "wf_value v" "no_float v" "nesting v \<le> MAX_DEPTH"
  shows "parse_strict (write_json fmt esc v) = Inr v"
  using parse_value_written [of v 0 "[]" fmt esc] skip_ws_written [of v fmt esc "[]"] assms
  by (simp add: parse_strict_def skip_ws_def)

lemma parse_strict_value:
  "parse_strict t = Inr v \<Longrightarrow> \<exists>r. parse_value 0 (skip_ws t) = Inr (v, r) \<and> skip_ws r = []"
  by (auto simp: parse_strict_def rbind_def err_def split: sum.splits if_splits prod.splits)

section \<open>The two escapings\<close>

definition string_dels :: "bytes \<Rightarrow> nat" where
  "string_dels s = length (filter (\<lambda>c. c = 0x7F) (chars s))"

fun dels :: "value \<Rightarrow> nat" where
  "dels (String s) = string_dels s"
| "dels (Array arr) = sum_list (map dels arr)"
| "dels (Object m) = sum_list (map (\<lambda>(k, v). string_dels k + dels v) m)"
| "dels _ = 0"

lemma length_write_string:
  "length (write_string Tao s) = length (write_string Nip01 s) + 5 * string_dels s"
proof -
  have "length (concat (map (write_char Tao) cs)) =
      length (concat (map (write_char Nip01) cs)) + 5 * length (filter (\<lambda>c. c = 0x7F) cs)" for cs
    by (induction cs) (auto simp: write_char_def utf8_encode_def)
  then show ?thesis by (simp add: write_string_def string_dels_def)
qed

lemma length_join_comma: "length (join_comma xs) = sum_list (map length xs) + (length xs - 1)"
  by (induction xs rule: join_comma.induct) simp_all

lemma sum_list_sort_key:
  fixes f :: "'a \<Rightarrow> nat"
  shows "sum_list (map f (sort_key k xs)) = sum_list (map f xs)"
proof -
  have ins: "sum_list (map f (insort_key k x ys)) = f x + sum_list (map f ys)" for x ys
    by (induction ys) simp_all
  show ?thesis by (induction xs) (simp_all add: ins)
qed

lemma sum_list_length_add:
  fixes f g :: "'a \<Rightarrow> nat"
  assumes "\<And>x. x \<in> set xs \<Longrightarrow> f x = g x + 5 * h x"
  shows "sum_list (map f xs) = sum_list (map g xs) + 5 * sum_list (map h xs)"
  using assms by (induction xs) auto

lemma length_write_json:
  "length (write_json fmt Tao v) = length (write_json fmt Nip01 v) + 5 * dels v"
proof (induction v)
  case (String s)
  then show ?case by (simp add: length_write_string)
next
  case (Array arr)
  then show ?case by (simp add: length_join_comma comp_def sum_list_length_add)
next
  case (Object m)
  let ?w = "\<lambda>esc (k, v). length (write_string esc k @ 0x3A # write_json fmt esc v)"
  have "sum_list (map (?w Tao) m) =
      sum_list (map (?w Nip01) m) + 5 * sum_list (map (\<lambda>(k, v). string_dels k + dels v) m)"
    using Object by (intro sum_list_length_add) (auto simp: length_write_string)
  then show ?case
    by (simp add: length_join_comma comp_def sum_list_sort_key prod.case_distrib [of length])
qed simp_all

lemma write_string_agree: "string_dels s = 0 \<Longrightarrow> write_string Tao s = write_string Nip01 s"
proof -
  assume "string_dels s = 0"
  then have "map (write_char Tao) (chars s) = map (write_char Nip01) (chars s)"
    by (auto simp: string_dels_def filter_empty_conv write_char_def)
  then show ?thesis by (simp only: write_string_def)
qed

lemma write_json_agree: "dels v = 0 \<Longrightarrow> write_json fmt Tao v = write_json fmt Nip01 v"
proof (induction v)
  case (Array arr)
  then show ?case by (auto intro!: arg_cong [of _ _ join_comma])
next
  case (Object m)
  then show ?case by (fastforce intro!: arg_cong [of _ _ join_comma] simp: write_string_agree)
qed (simp_all add: write_string_agree)

section \<open>Properties\<close>

text \<open>C6: printing a value and parsing the text gives the value back, under either escaping and
  for any printer of floats: every value with UTF-8 strings, sorted object keys, no float and at
  most \<open>MAX_DEPTH\<close> levels below it is read back exactly.\<close>

theorem json_roundtrip:
  assumes "wf_value v" "no_float v" "nesting v \<le> MAX_DEPTH"
  shows "parse_strict (write_json fmt esc v) = Inr v"
  using assms by (rule parse_strict_written)

definition sample_value :: "value" where
  "sample_value = Object [(str ''a'', Array [Number (PosInt 7), Number (NegInt (- 3)), Null]),
     (str ''b'', String [0x7F, 0x22, 0xC3, 0xA9])]"

lemma sample_value_wf: "wf_value sample_value" "no_float sample_value" "nesting sample_value \<le> MAX_DEPTH"
proof -
  have "utf8_chars [0x7F, 0x22, 0xC3, 0xA9] = Some [0x7F, 0x22, 0xE9]"
    using utf8_chars_string [of "[0x7F, 0x22, 0xE9]"]
    by (simp add: is_scalar_def utf8_encode_def as_u8_def)
  then have "utf8_valid [0x7F, 0x22, 0xC3, 0xA9]" by (simp add: utf8_valid_def)
  moreover have "utf8_valid (str ''a'')" "utf8_valid (str ''b'')"
    by (rule utf8_valid_ascii, simp)+
  ultimately show "wf_value sample_value" "no_float sample_value" "nesting sample_value \<le> MAX_DEPTH"
    by (simp_all add: sample_value_def MAX_DEPTH_def)
qed

theorem json_roundtrip_witness:
  "parse_strict (write_json (\<lambda>f. []) Tao sample_value) = Inr sample_value"
  by (rule json_roundtrip [OF sample_value_wf])

text \<open>C28: whatever the strict parser accepts is well formed: strings are valid UTF-8, the keys of
  every object are distinct and sorted, negative integers are negative, floats are finite, and the
  nesting stays within \<open>MAX_DEPTH\<close>.\<close>

theorem parse_strict_wf:
  assumes "parse_strict text = Inr v"
  shows "wf_value v \<and> nesting v \<le> MAX_DEPTH"
  using parse_strict_value [OF assms] parse_value_wf(1) [of 0] by auto

theorem parse_strict_wf_witness:
  "wf_value (Array []) \<and> nesting (Array []) \<le> MAX_DEPTH"
proof -
  have "parse_strict (write_json (\<lambda>f. []) Tao (Array [])) = Inr (Array [])"
    by (rule parse_strict_written) (simp_all add: MAX_DEPTH_def)
  then show ?thesis by (rule parse_strict_wf)
qed

text \<open>C29: the stored form and the NIP-01 preimage form of a value are the same bytes exactly when
  no string or key in it holds U+007F, the one character the two escapings treat differently.\<close>

theorem tao_nip01_agree_iff: "write_tao fmt v = write_nip01 fmt v \<longleftrightarrow> dels v = 0"
proof
  assume "write_tao fmt v = write_nip01 fmt v"
  then have "length (write_json fmt Tao v) = length (write_json fmt Nip01 v)"
    by (simp add: write_tao_def write_nip01_def)
  then show "dels v = 0" by (simp add: length_write_json)
qed (simp add: write_tao_def write_nip01_def write_json_agree)

end
