(* ===== verification/Event_Kinds.thy ===== *)
theory Event_Kinds
  imports Event_Json
begin

text \<open>
  Kind classes and \<open>a\<close> tags (\<open>wok-event/src/kinds.rs\<close>) and the hex decoders of
  \<open>wok-event/src/parse.rs\<close>. The crates the sources call are the fields of the record
  \<open>ext\<close>: the \<open>hex\<close> crate's two decoders, SHA-256, the checks of
  \<open>secp256k1\<close> and the decimal digits of a double.
\<close>

record ext =
  hex_decode :: "bytes \<Rightarrow> bytes option"
  hex_decode_to_slice :: "nat \<Rightarrow> bytes \<Rightarrow> bytes option"
  sha256 :: "bytes \<Rightarrow> bytes"
  xonly_ok :: "bytes \<Rightarrow> bool"
  schnorr_sig_ok :: "bytes \<Rightarrow> bool"
  verify_schnorr :: "bytes \<Rightarrow> bytes \<Rightarrow> bytes \<Rightarrow> bool"
  fmt_f64 :: "f64 \<Rightarrow> bytes"

text \<open>What the sources rely on: the decoder to a slice of \<open>n\<close> bytes succeeds exactly on the
  strings of \<open>2 * n\<close> characters the other one decodes, with the same bytes; a decoded string
  has half its length; a digest has 32 bytes.\<close>

definition hex_ok :: "ext \<Rightarrow> bool" where
  "hex_ok X \<longleftrightarrow>
     (\<forall>n s. hex_decode_to_slice X n s = (if length s = 2 * n then hex_decode X s else None)) \<and>
     (\<forall>s r. hex_decode X s = Some r \<longrightarrow> length s = 2 * length r)"

definition sha256_ok :: "ext \<Rightarrow> bool" where
  "sha256_ok X \<longleftrightarrow> (\<forall>b. length (sha256 X b) = 32)"

text \<open>An instance for evaluation: a decoder of hex pairs, and a digest and a signature check that
  are enough to run the code on an example.\<close>

fun hex_pairs :: "bytes \<Rightarrow> bytes option" where
  "hex_pairs [] = Some []"
| "hex_pairs [c] = None"
| "hex_pairs (a # b # r) =
     (case (hex_digit a, hex_digit b, hex_pairs r) of
        (Some x, Some y, Some t) \<Rightarrow> Some (as_u8 (16 * x + y) # t)
      | _ \<Rightarrow> None)"

definition sample_ext :: ext where
  "sample_ext = \<lparr> hex_decode = hex_pairs,
     hex_decode_to_slice = (\<lambda>n s. if length s = 2 * n then hex_pairs s else None),
     sha256 = (\<lambda>b. replicate 32 0xAA),
     xonly_ok = (\<lambda>b. True), schnorr_sig_ok = (\<lambda>b. True), verify_schnorr = (\<lambda>s h k. True),
     fmt_f64 = (\<lambda>f. []) \<rparr>"

lemma hex_pairs_length: "hex_pairs s = Some r \<Longrightarrow> length s = 2 * length r"
  by (induction s arbitrary: r rule: hex_pairs.induct) (auto split: option.splits)

lemma sample_ext_ok: "hex_ok sample_ext" "sha256_ok sample_ext"
  by (simp_all add: hex_ok_def sha256_ok_def sample_ext_def hex_pairs_length)

section \<open>Kind classes\<close>

definition is_replaceable_kind :: "u64 \<Rightarrow> bool" where
  "is_replaceable_kind kind \<longleftrightarrow> kind = 0 \<or> kind = 3 \<or> (10000 \<le> kind \<and> kind < 20000)"

definition is_param_replaceable_kind :: "u64 \<Rightarrow> bool" where
  "is_param_replaceable_kind kind \<longleftrightarrow> 30000 \<le> kind \<and> kind < 40000"

definition is_ephemeral_kind :: "u64 \<Rightarrow> bool" where
  "is_ephemeral_kind kind \<longleftrightarrow> 20000 \<le> kind \<and> kind < 30000"

lemma kind_classes_disjoint:
  "\<not> (is_replaceable_kind k \<and> is_param_replaceable_kind k)"
  "\<not> (is_replaceable_kind k \<and> is_ephemeral_kind k)"
  "\<not> (is_param_replaceable_kind k \<and> is_ephemeral_kind k)"
  by (auto simp: is_replaceable_kind_def is_param_replaceable_kind_def is_ephemeral_kind_def
      word_le_nat_alt word_less_nat_alt)

section \<open>Hex\<close>

definition starts_with :: "bytes \<Rightarrow> bytes \<Rightarrow> bool" where
  "starts_with s p \<longleftrightarrow> take (length p) s = p"

definition hex_decode_res :: "ext \<Rightarrow> bytes \<Rightarrow> event_error + bytes" where
  "hex_decode_res X s = ok_or (event_error_msg ''hex decode'') (hex_decode X s)"

definition is_lower_hex :: "u8 \<Rightarrow> bool" where
  "is_lower_hex b \<longleftrightarrow> is_digit b \<or> (0x61 \<le> b \<and> b \<le> 0x66)"

definition from_hex_impl :: "ext \<Rightarrow> bytes \<Rightarrow> bool \<Rightarrow> event_error + bytes" where
  "from_hex_impl X s0 allow_uneven =
     (let s = (if starts_with s0 (str ''0x'') then drop 2 s0 else s0) in
      if length s mod 2 \<noteq> 0 then
        (if \<not> allow_uneven then Inl (event_error_msg ''uneven size input to from_hex'')
         else hex_decode_res X (0x30 # s))
      else hex_decode_res X s)"

definition from_hex :: "ext \<Rightarrow> bytes \<Rightarrow> event_error + bytes" where
  "from_hex X s = from_hex_impl X s True"

definition from_hex_exact :: "ext \<Rightarrow> bytes \<Rightarrow> event_error + bytes" where
  "from_hex_exact X s = from_hex_impl X s False"

definition from_hex_strict :: "ext \<Rightarrow> bytes \<Rightarrow> event_error + bytes" where
  "from_hex_strict X s =
     (if starts_with s (str ''0x'') \<or> length s mod 2 \<noteq> 0
      then Inl (event_error_msg ''hex must have an even length and no prefix'')
      else hex_decode_res X s)"

definition from_lower_hex_exact :: "ext \<Rightarrow> bytes \<Rightarrow> event_error + bytes" where
  "from_lower_hex_exact X s =
     (if \<not> list_all is_lower_hex s then Inl (event_error_msg ''hex must be lowercase ASCII'')
      else from_hex_strict X s)"

definition from_lower_hex_array :: "ext \<Rightarrow> nat \<Rightarrow> bytes \<Rightarrow> event_error + bytes" where
  "from_lower_hex_array X n s =
     (if \<not> list_all is_lower_hex s then Inl (event_error_msg ''hex must be lowercase ASCII'')
      else ok_or (event_error_msg ''hex decode'') (hex_decode_to_slice X n s))"

lemma lower_hex_no_prefix: "list_all is_lower_hex s \<Longrightarrow> \<not> starts_with s (str ''0x'')"
proof -
  have "\<not> is_lower_hex 0x78" by (simp add: is_lower_hex_def is_digit_def)
  then show "list_all is_lower_hex s \<Longrightarrow> \<not> starts_with s (str ''0x'')"
    by (cases s rule: remdups_adj.cases) (auto simp: starts_with_def)
qed

lemma hex_okD:
  assumes "hex_ok X" "hex_decode_to_slice X n s = Some r"
  shows "hex_decode X s = Some r" "length s = 2 * n" "length r = n"
proof -
  have "hex_decode_to_slice X n s = (if length s = 2 * n then hex_decode X s else None)"
    using assms(1) by (simp add: hex_ok_def)
  then show d: "hex_decode X s = Some r" and l: "length s = 2 * n"
    using assms(2) by (simp_all split: if_splits)
  have "length s = 2 * length r" using assms(1) d by (simp add: hex_ok_def)
  with l show "length r = n" by simp
qed

lemma from_lower_hex_array_length:
  "hex_ok X \<Longrightarrow> from_lower_hex_array X n s = Inr r \<Longrightarrow> length r = n \<and> length s = 2 * n"
  by (auto simp: from_lower_hex_array_def ok_or_eq_Inr dest: hex_okD split: if_splits)

text \<open>The three decoders agree on what the array decoder accepts.\<close>

lemma from_lower_hex_array_exact:
  assumes "hex_ok X" "from_lower_hex_array X n s = Inr r"
  shows "from_hex_exact X s = Inr r" "from_lower_hex_exact X s = Inr r"
proof -
  from assms have lower: "list_all is_lower_hex s" and d: "hex_decode X s = Some r" and l: "length s = 2 * n"
    by (auto simp: from_lower_hex_array_def ok_or_eq_Inr dest: hex_okD split: if_splits)
  show "from_hex_exact X s = Inr r" "from_lower_hex_exact X s = Inr r"
    using lower_hex_no_prefix [OF lower] lower d l
    by (simp_all add: from_hex_exact_def from_hex_impl_def from_lower_hex_exact_def from_hex_strict_def
        hex_decode_res_def)
qed

section \<open>Addresses\<close>

definition parse_uint64 :: "bytes \<Rightarrow> event_error + u64" where
  "parse_uint64 s =
     (if s = [] \<or> \<not> list_all is_digit s then Inl (event_error_msg ''invalid uint64'')
      else ok_or (event_error_msg ''invalid uint64'') (parse_u64 s))"

definition split_at_colon :: "bytes \<Rightarrow> (bytes \<times> bytes) option" where
  "split_at_colon s =
     (if 0x3A \<in> set s then Some (takeWhile (\<lambda>c. c \<noteq> 0x3A) s, tl (dropWhile (\<lambda>c. c \<noteq> 0x3A) s)) else None)"

abbreviation parse_error :: event_error where
  "parse_error \<equiv> event_error_msg ''parse error''"

definition parse_a_tag :: "ext \<Rightarrow> bytes \<Rightarrow> event_error + u64 \<times> bytes \<times> bytes" where
  "parse_a_tag X input =
     rbind (ok_or parse_error (split_at_colon input)) (\<lambda>(kind_str, rest).
     if kind_str = [] \<or> \<not> list_all is_digit kind_str then Inl parse_error
     else rbind (ok_or parse_error (parse_u64 kind_str)) (\<lambda>kind.
     if 65535 < kind then Inl parse_error
     else rbind (ok_or parse_error (split_at_colon rest)) (\<lambda>(pubkey_str, d_tag).
     if length pubkey_str \<noteq> 64 then Inl parse_error
     else rbind (from_lower_hex_exact X pubkey_str) (\<lambda>pubkey. Inr (kind, pubkey, d_tag)))))"

definition parse_canonical_a_tag :: "ext \<Rightarrow> bytes \<Rightarrow> event_error + u64 \<times> bytes \<times> bytes" where
  "parse_canonical_a_tag X input =
     rbind (parse_a_tag X input) (\<lambda>address.
       if starts_with input (str ''0'') \<and> \<not> starts_with input (str ''0:'')
       then Inl (event_error_msg ''a tag kind has leading zeros'')
       else Inr address)"

section \<open>Canonical addresses\<close>

lemma digit_byte_val: "is_digit d \<Longrightarrow> digit_byte (digit_val d) = d \<and> digit_val d < 10"
  by (auto simp: is_digit_def digit_byte_def digit_val_def word_le_nat_alt)

lemma dec_val_pos:
  "list_all is_digit ds \<Longrightarrow> ds \<noteq> [] \<Longrightarrow> hd ds \<noteq> 0x30 \<Longrightarrow> 0 < dec_val ds"
proof (induction ds rule: rev_induct)
  case (snoc d ds)
  show ?case
  proof (cases "ds = []")
    case True
    have "digit_byte 0 = 0x30" by (simp add: digit_byte_def as_u8_def)
    moreover have "digit_byte (digit_val d) = d" "d \<noteq> 0x30"
      using True snoc.prems digit_byte_val [of d] by simp_all
    ultimately have "digit_val d \<noteq> 0" by metis
    then show ?thesis by simp
  qed (use snoc in simp)
qed simp

lemma to_decimal_dec_val:
  "list_all is_digit ds \<Longrightarrow> ds \<noteq> [] \<Longrightarrow> hd ds \<noteq> 0x30 \<or> length ds = 1 \<Longrightarrow> to_decimal (dec_val ds) = ds"
proof (induction ds rule: rev_induct)
  case (snoc d ds)
  note d = digit_byte_val [of d]
  show ?case
  proof (cases "ds = []")
    case True
    with snoc.prems d show ?thesis by (subst to_decimal.simps) (simp add: dec_val_def)
  next
    case False
    then have "hd ds \<noteq> 0x30" using snoc.prems(3) by simp
    with snoc False have "to_decimal (dec_val ds) = ds" "0 < dec_val ds"
      by (simp_all add: dec_val_pos)
    with snoc.prems d show ?thesis by (subst to_decimal.simps) simp
  qed
qed simp

lemma split_at_colon_Some: "split_at_colon s = Some (a, b) \<Longrightarrow> s = a @ 0x3A # b \<and> 0x3A \<notin> set a"
proof -
  assume s: "split_at_colon s = Some (a, b)"
  then have c: "0x3A \<in> set s" and a: "a = takeWhile (\<lambda>c. c \<noteq> 0x3A) s"
    and b: "b = tl (dropWhile (\<lambda>c. c \<noteq> 0x3A) s)"
    by (auto simp: split_at_colon_def split: if_splits)
  have ne: "dropWhile (\<lambda>c. c \<noteq> 0x3A) s \<noteq> []" using c by (simp add: dropWhile_eq_Nil_conv)
  then have "dropWhile (\<lambda>c. c \<noteq> 0x3A) s = 0x3A # b"
    using hd_dropWhile [OF ne] by (cases "dropWhile (\<lambda>c. c \<noteq> 0x3A) s") (simp_all add: b)
  then show ?thesis
    using takeWhile_dropWhile_id [of "\<lambda>c. c \<noteq> 0x3A" s] by (auto simp: a dest: set_takeWhileD)
qed

lemma parse_digits_u64: "parse_u64 s = Some w \<Longrightarrow> list_all is_digit s \<Longrightarrow> s \<noteq> [] \<and> unat w = dec_val s"
proof -
  assume s: "list_all is_digit s" "parse_u64 s = Some w"
  have "strip_plus s = s"
    using s(1) by (auto simp: strip_plus_def dest: digit_not_sign split: list.splits)
  with s show ?thesis
    by (auto simp: parse_u64_def parse_digits_def unat_of_nat split: if_splits)
qed

lemma parse_a_tag_parts:
  assumes "parse_a_tag X s = Inr (k, p, d)"
  obtains ks h where "s = ks @ 0x3A # h @ 0x3A # d" "list_all is_digit ks" "ks \<noteq> []"
    "unat k = dec_val ks" "k \<le> 65535" "length h = 64" "from_lower_hex_exact X h = Inr p"
  using assms
  by (auto simp: parse_a_tag_def rbind_eq_Inr ok_or_eq_Inr not_less
      dest!: split_at_colon_Some parse_digits_u64 split: if_splits)

text \<open>C31: an address \<open>parse_canonical_a_tag\<close> accepts is the canonical spelling of what it returns:
  the kind in decimal without leading zeros, a colon, the 64 lowercase hex characters that decode
  to the public key, a colon and the \<open>d\<close> value.\<close>

theorem parse_canonical_a_tag_spelling:
  assumes "parse_canonical_a_tag X s = Inr (k, p, d)"
  shows "\<exists>h. s = to_decimal (unat k) @ 0x3A # h @ 0x3A # d \<and> length h = 64 \<and>
    list_all is_lower_hex h \<and> hex_decode X h = Some p \<and> unat k \<le> 65535"
proof -
  from assms have pa: "parse_a_tag X s = Inr (k, p, d)"
    and can: "\<not> (starts_with s (str ''0'') \<and> \<not> starts_with s (str ''0:''))"
    by (auto simp: parse_canonical_a_tag_def rbind_eq_Inr split: if_splits)
  obtain ks h where s: "s = ks @ 0x3A # h @ 0x3A # d" "list_all is_digit ks" "ks \<noteq> []"
      "unat k = dec_val ks" "k \<le> 65535" "length h = 64" and h: "from_lower_hex_exact X h = Inr p"
    using parse_a_tag_parts [OF pa] by blast
  have "hd ks \<noteq> 0x30 \<or> length ks = 1"
  proof (rule ccontr)
    assume "\<not> (hd ks \<noteq> 0x30 \<or> length ks = 1)"
    then obtain c t where ks: "ks = 0x30 # c # t" using s(3) by (cases ks rule: remdups_adj.cases) auto
    then have "c \<noteq> 0x3A" using s(2) by (auto simp: is_digit_def)
    then show False using can by (simp add: s(1) ks starts_with_def)
  qed
  then have "to_decimal (unat k) = ks" using s by (simp add: to_decimal_dec_val)
  moreover have "list_all is_lower_hex h" "hex_decode X h = Some p"
    using h by (auto simp: from_lower_hex_exact_def from_hex_strict_def hex_decode_res_def ok_or_eq_Inr
        split: if_splits)
  moreover have "unat k \<le> 65535" using s(5) by (simp add: word_le_nat_alt)
  ultimately show ?thesis using s by blast
qed

definition sample_address :: bytes where
  "sample_address = str ''30023:'' @ replicate 64 0x61 @ str '':x''"

lemma hex_pairs_replicate: "hex_pairs (replicate (n + n) 0x61) = Some (replicate n 0xAA)"
  by (induction n) (simp_all add: hex_digit_def as_u8_def)

lemma split_at_colon_append [simp]:
  "0x3A \<notin> set a \<Longrightarrow> split_at_colon (a @ 0x3A # b) = Some (a, b)"
  by (auto simp: split_at_colon_def takeWhile_append dropWhile_append takeWhile_eq_all_conv)

lemma sample_address_parses:
  "parse_canonical_a_tag sample_ext sample_address = Inr (30023, replicate 32 0xAA, str ''x'')"
proof -
  have s: "sample_address = str ''30023'' @ 0x3A # replicate 64 0x61 @ 0x3A # str ''x''"
    by (simp add: sample_address_def)
  have ks: "0x3A \<notin> set (str ''30023'')" "list_all is_digit (str ''30023'')" "str ''30023'' \<noteq> []"
    by (simp_all add: is_digit_def)
  have k: "parse_u64 (str ''30023'') = Some 30023"
    by (simp add: parse_u64_def strip_plus_def parse_digits_def is_digit_def dec_val_def digit_val_def)
  have h: "from_lower_hex_exact sample_ext (replicate 64 0x61) = Inr (replicate 32 0xAA)"
    using hex_pairs_replicate [of 32]
    by (simp add: from_lower_hex_exact_def from_hex_strict_def hex_decode_res_def starts_with_def
        sample_ext_def is_lower_hex_def list_all_iff)
  have "parse_a_tag sample_ext sample_address = Inr (30023, replicate 32 0xAA, str ''x'')"
    unfolding parse_a_tag_def s using ks by (simp del: str_simps add: k h)
  then show ?thesis
    by (simp add: parse_canonical_a_tag_def s starts_with_def)
qed

theorem parse_canonical_a_tag_spelling_witness:
  "\<exists>h. sample_address = to_decimal (unat (30023 :: u64)) @ 0x3A # h @ 0x3A # str ''x'' \<and> length h = 64 \<and>
    list_all is_lower_hex h \<and> hex_decode sample_ext h = Some (replicate 32 0xAA) \<and>
    unat (30023 :: u64) \<le> 65535"
  by (rule parse_canonical_a_tag_spelling [OF sample_address_parses])

end
