(* ===== verification/Event_Packed.thy ===== *)
theory Event_Packed
  imports Event_Kinds
begin

text \<open>
  The packed event record of \<open>wok-event/src/packed.rs\<close>: header accessors, the tag walk
  with its stateful callback, the builders and the replacement order. A \<open>PackedEvent\<close>
  and a view of it are both the byte buffer.
\<close>

type_synonym packed_event = bytes
type_synonym packed_tag = "u8 \<times> bytes"

definition PACKED_HEADER_LEN :: nat where
  "PACKED_HEADER_LEN = 88"

definition MAX_INDEXED_TAG_VAL_SIZE :: nat where
  "MAX_INDEXED_TAG_VAL_SIZE = 255"

definition HASHED_TAG_VAL_MARKER :: u8 where
  "HASHED_TAG_VAL_MARKER = 0xFF"

definition indexed_tag_value :: "ext \<Rightarrow> bytes \<Rightarrow> bytes" where
  "indexed_tag_value X val =
     (if length val \<le> MAX_INDEXED_TAG_VAL_SIZE then val else HASHED_TAG_VAL_MARKER # sha256 X val)"

definition hashed_tag_value_digest :: "bytes \<Rightarrow> bytes option" where
  "hashed_tag_value_digest indexed =
     (case indexed of
        [] \<Rightarrow> None
      | m # digest \<Rightarrow> if m = HASHED_TAG_VAL_MARKER \<and> length digest = 32 then Some digest else None)"

definition view_new :: "bytes \<Rightarrow> event_error + packed_event" where
  "view_new buf =
     (if length buf < PACKED_HEADER_LEN then Inl (event_error_msg ''PackedEventView too short'') else Inr buf)"

definition packed_from_bytes :: "bytes \<Rightarrow> event_error + packed_event" where
  "packed_from_bytes buf = rbind (view_new buf) (\<lambda>_. Inr buf)"

definition ev_id :: "packed_event \<Rightarrow> bytes" where
  "ev_id p = slice 0 32 p"

definition ev_pubkey :: "packed_event \<Rightarrow> bytes" where
  "ev_pubkey p = slice 32 64 p"

definition ev_created_at :: "packed_event \<Rightarrow> u64" where
  "ev_created_at p = u64_from_ne (slice 64 72 p)"

definition ev_kind :: "packed_event \<Rightarrow> u64" where
  "ev_kind p = u64_from_ne (slice 72 80 p)"

definition ev_expiration :: "packed_event \<Rightarrow> u64" where
  "ev_expiration p = u64_from_ne (slice 80 88 p)"

section \<open>Tag walk\<close>

text \<open>The callback gets a tag's name, its value, whether it ends the record and the captured
  state; it returns whether to go on and the new state.\<close>

type_synonym 's tag_cb = "u8 \<Rightarrow> bytes \<Rightarrow> bool \<Rightarrow> 's \<Rightarrow> bool \<times> 's"

function walk_loop :: "'s tag_cb \<Rightarrow> bytes \<Rightarrow> 's \<Rightarrow> 's" where
  "walk_loop cb b s =
     (if length b < 2 then s
      else
        (let tag_name = b ! 0; tag_len = unat (b ! 1) in
         if length b - 2 < tag_len then s
         else
           (let val = take tag_len (drop 2 b); rest = drop tag_len (drop 2 b) in
            case cb tag_name val (rest = []) s of
              (go, s') \<Rightarrow> if go then walk_loop cb rest s' else s')))"
  by pat_completeness auto
termination
  by (relation "measure (\<lambda>(cb, b, s). length b)") auto

declare walk_loop.simps [simp del]

definition walk_tags :: "'s tag_cb \<Rightarrow> packed_event \<Rightarrow> 's \<Rightarrow> 's" where
  "walk_tags cb p s = walk_loop cb (drop PACKED_HEADER_LEN p) s"

definition foreach_tag :: "(u8 \<Rightarrow> bytes \<Rightarrow> 's \<Rightarrow> bool \<times> 's) \<Rightarrow> packed_event \<Rightarrow> 's \<Rightarrow> 's" where
  "foreach_tag cb p s = walk_tags (\<lambda>name val last. cb name val) p s"

definition filter_cb :: "bool \<Rightarrow> bool \<Rightarrow> (u8 \<Rightarrow> bytes \<Rightarrow> 's \<Rightarrow> bool \<times> 's) \<Rightarrow> ((bool \<times> bool) \<times> 's) tag_cb" where
  "filter_cb replaceable addressable cb = (\<lambda>name val last ((first, d_seen), s).
     let added = (name = 0x64 \<and> val = [] \<and> ((replaceable \<and> first) \<or> (addressable \<and> d_seen \<and> last)));
         st = (False, d_seen \<or> name = 0x64) in
     if added then (True, (st, s))
     else (case cb name val s of (go, s') \<Rightarrow> (go, (st, s'))))"

definition foreach_filter_tag :: "(u8 \<Rightarrow> bytes \<Rightarrow> 's \<Rightarrow> bool \<times> 's) \<Rightarrow> packed_event \<Rightarrow> 's \<Rightarrow> 's" where
  "foreach_filter_tag cb p s =
     (let kind = ev_kind p; replaceable = is_replaceable_kind kind;
          addressable = is_param_replaceable_kind kind in
      snd (walk_tags (filter_cb replaceable addressable cb) p ((True, False), s)))"

definition packed_tags :: "packed_event \<Rightarrow> packed_tag list" where
  "packed_tags p = foreach_tag (\<lambda>name val out. (True, out @ [(name, val)])) p []"

definition first_d_tag :: "packed_event \<Rightarrow> bytes option" where
  "first_d_tag p = foreach_tag (\<lambda>name val found. if name = 0x64 then (False, Some val) else (True, found)) p None"

section \<open>Builders\<close>

text \<open>A tag key is a \<open>char\<close>, given by its code point, of which \<open>tag_key as u8\<close> keeps the low byte.\<close>

definition tag_builder_add :: "bytes \<Rightarrow> nat \<Rightarrow> bytes \<Rightarrow> event_error + bytes" where
  "tag_builder_add buf tag_key tag_val =
     (if 255 < length tag_val then Inl (event_error_msg ''tagVal too long'')
      else Inr (buf @ [as_u8 tag_key, as_u8 (length tag_val)] @ tag_val))"

definition packed_build :: "bytes \<Rightarrow> bytes \<Rightarrow> u64 \<Rightarrow> u64 \<Rightarrow> u64 \<Rightarrow> bytes \<Rightarrow> event_error + packed_event" where
  "packed_build eid pubkey created_at kind expiration tags =
     (if length eid \<noteq> 32 then Inl (event_error_msg ''unexpected id size'')
      else if length pubkey \<noteq> 32 then Inl (event_error_msg ''unexpected pubkey size'')
      else Inr (eid @ pubkey @ u64_to_ne created_at @ u64_to_ne kind @ u64_to_ne expiration @ tags))"

definition is_event_a_before_event_b :: "packed_event \<Rightarrow> packed_event \<Rightarrow> bool" where
  "is_event_a_before_event_b a b \<longleftrightarrow>
     ev_created_at a < ev_created_at b \<or> (ev_created_at a = ev_created_at b \<and> ev_id b < ev_id a)"

section \<open>The tag records of a buffer\<close>

definition tag_ok :: "packed_tag \<Rightarrow> bool" where
  "tag_ok t \<longleftrightarrow> length (snd t) \<le> 255"

definition tag_encode :: "packed_tag \<Rightarrow> bytes" where
  "tag_encode t = [fst t, as_u8 (length (snd t))] @ snd t"

definition tag_decode :: "bytes \<Rightarrow> unit + packed_tag \<times> bytes" where
  "tag_decode b =
     (case b of
        n # l # r \<Rightarrow> if length r < unat l then Inl () else Inr ((n, take (unat l) r), drop (unat l) r)
      | _ \<Rightarrow> Inl ())"

interpretation packed_tag: self_delimiting tag_encode tag_decode tag_ok
  by unfold_locales (auto simp: tag_ok_def tag_encode_def tag_decode_def unat_as_u8)

fun tag_list :: "packed_tag list \<Rightarrow> 's tag_cb \<Rightarrow> 's \<Rightarrow> 's" where
  "tag_list [] cb s = s"
| "tag_list ((n, v) # ts) cb s = (case cb n v (ts = []) s of (go, s') \<Rightarrow> if go then tag_list ts cb s' else s')"

abbreviation tags_encode :: "packed_tag list \<Rightarrow> bytes" where
  "tags_encode ts \<equiv> concat (map tag_encode ts)"

lemma tag_encode_nonempty [simp]: "tag_encode t \<noteq> []"
  by (simp add: tag_encode_def)

lemma walk_loop_encoded: "list_all tag_ok ts \<Longrightarrow> walk_loop cb (tags_encode ts) s = tag_list ts cb s"
proof (induction ts arbitrary: s)
  case (Cons t ts)
  obtain n v where t: "t = (n, v)" by fastforce
  have "unat (as_u8 (length v)) = length v" using Cons.prems by (simp add: t tag_ok_def unat_as_u8)
  moreover have "tags_encode ts = [] \<longleftrightarrow> ts = []" by (cases ts) simp_all
  moreover have "tags_encode (t # ts) = n # as_u8 (length v) # v @ tags_encode ts"
    by (simp add: t tag_encode_def)
  moreover have "walk_loop cb (tags_encode ts) s' = tag_list ts cb s'" for s'
    using Cons by simp
  ultimately show ?case
    by (subst walk_loop.simps) (simp add: t del: concat_eq_Nil_conv split: prod.split)
qed (simp add: walk_loop.simps)

lemma tag_list_append:
  "tag_list ts (\<lambda>n v l out. (True, out @ [(n, v)])) out = out @ ts"
  by (induction ts arbitrary: out) auto

text \<open>A packed event whose tag section encodes \<open>ts\<close>.\<close>

definition packs :: "packed_event \<Rightarrow> bytes \<Rightarrow> bytes \<Rightarrow> u64 \<Rightarrow> u64 \<Rightarrow> u64 \<Rightarrow> packed_tag list \<Rightarrow> bool" where
  "packs p i k c kd x ts \<longleftrightarrow> length i = 32 \<and> length k = 32 \<and> list_all tag_ok ts \<and>
     p = i @ k @ u64_to_ne c @ u64_to_ne kd @ u64_to_ne x @ tags_encode ts"

lemma packs_build:
  "list_all tag_ok ts \<Longrightarrow> packed_build i k c kd x (tags_encode ts) = Inr p \<longleftrightarrow> packs p i k c kd x ts"
  by (auto simp: packed_build_def packs_def)

lemma packs_fields:
  assumes "packs p i k c kd x ts"
  shows "ev_id p = i" "ev_pubkey p = k" "ev_created_at p = c" "ev_kind p = kd" "ev_expiration p = x"
    "drop PACKED_HEADER_LEN p = tags_encode ts" "length p = PACKED_HEADER_LEN + length (tags_encode ts)"
  using assms
  by (auto simp: packs_def ev_id_def ev_pubkey_def ev_created_at_def ev_kind_def ev_expiration_def
      PACKED_HEADER_LEN_def slice_def)

lemma packs_walk: "packs p i k c kd x ts \<Longrightarrow> walk_tags cb p s = tag_list ts cb s"
  using packs_fields(6) [of p i k c kd x ts] walk_loop_encoded [of ts cb s]
  by (simp add: walk_tags_def) (simp add: packs_def)

lemma packs_tags: "packs p i k c kd x ts \<Longrightarrow> packed_tags p = ts"
  by (simp add: packed_tags_def foreach_tag_def packs_walk tag_list_append)

lemma tag_list_first_d:
  "tag_list ts (\<lambda>n v l found. if n = 0x64 then (False, Some v) else (True, found)) None =
     map_option snd (find (\<lambda>t. fst t = 0x64) ts)"
  by (induction ts) auto

lemma packs_first_d: "packs p i k c kd x ts \<Longrightarrow> first_d_tag p = map_option snd (find (\<lambda>t. fst t = 0x64) ts)"
  by (simp add: first_d_tag_def foreach_tag_def packs_walk tag_list_first_d)

section \<open>The tags a filter sees\<close>

definition filter_tags :: "packed_event \<Rightarrow> packed_tag list" where
  "filter_tags p = foreach_filter_tag (\<lambda>name val out. (True, out @ [(name, val)])) p []"

text \<open>The list of tags without the empty \<open>d\<close> that packing adds.\<close>

definition own_tags :: "u64 \<Rightarrow> packed_tag list \<Rightarrow> packed_tag list" where
  "own_tags kind ts =
     (if is_replaceable_kind kind \<and> ts \<noteq> [] \<and> hd ts = (0x64, []) then tl ts
      else if is_param_replaceable_kind kind \<and> ts \<noteq> [] \<and> last ts = (0x64, []) \<and>
        (\<exists>t \<in> set (butlast ts). fst t = 0x64) then butlast ts
      else ts)"

text \<open>The callback of a filter runs on the own tags only, in order, until it stops.\<close>

fun run_tags :: "packed_tag list \<Rightarrow> (u8 \<Rightarrow> bytes \<Rightarrow> 's \<Rightarrow> bool \<times> 's) \<Rightarrow> 's \<Rightarrow> 's" where
  "run_tags [] cb s = s"
| "run_tags ((n, v) # ts) cb s = (case cb n v s of (go, s') \<Rightarrow> if go then run_tags ts cb s' else s')"

lemma filter_cb_step:
  "filter_cb r a cb n v l ((f, d), s) =
     (if n = 0x64 \<and> v = [] \<and> ((r \<and> f) \<or> (a \<and> d \<and> l)) then (True, ((False, d \<or> n = 0x64), s))
      else (fst (cb n v s), ((False, d \<or> n = 0x64), snd (cb n v s))))"
  by (auto simp: filter_cb_def Let_def split: prod.split)

lemma filter_cb_rest:
  "snd (tag_list ts (filter_cb False False cb) ((f, d), s)) = run_tags ts cb s"
  "snd (tag_list ts (filter_cb True False cb) ((False, d), s)) = run_tags ts cb s"
  by (induction ts arbitrary: f d s) (auto simp: filter_cb_step split: prod.splits)

lemma filter_cb_addressable:
  "snd (tag_list ts (filter_cb False True cb) ((f, d), s)) =
     run_tags (if ts \<noteq> [] \<and> last ts = (0x64, []) \<and> (d \<or> (\<exists>t \<in> set (butlast ts). fst t = 0x64))
       then butlast ts else ts) cb s"
proof (induction ts arbitrary: f d s)
  case (Cons t ts)
  obtain n v where t: "t = (n, v)" by fastforce
  show ?case
  proof (cases "ts = []")
    case False
    then show ?thesis by (auto simp: t Cons.IH filter_cb_step split: prod.splits)
  qed (auto simp: t filter_cb_step split: prod.splits)
qed simp

lemma packs_foreach_filter:
  assumes "packs p i k c kd x ts"
  shows "foreach_filter_tag cb p s = run_tags (own_tags kd ts) cb s"
proof -
  have fe: "foreach_filter_tag cb p s =
      snd (tag_list ts (filter_cb (is_replaceable_kind kd) (is_param_replaceable_kind kd) cb) ((True, False), s))"
    by (simp add: foreach_filter_tag_def packs_walk [OF assms] packs_fields(4) [OF assms])
  consider "is_replaceable_kind kd" "\<not> is_param_replaceable_kind kd"
    | "\<not> is_replaceable_kind kd" "is_param_replaceable_kind kd"
    | "\<not> is_replaceable_kind kd" "\<not> is_param_replaceable_kind kd"
    using kind_classes_disjoint by blast
  then show ?thesis
  proof cases
    case 1
    show ?thesis
    proof (cases ts)
      case (Cons t ts')
      obtain n v where "t = (n, v)" by fastforce
      then show ?thesis
        using 1 Cons
        by (cases "n = 0x64 \<and> v = []") (auto simp: fe own_tags_def filter_cb_rest filter_cb_step split: prod.splits)
    qed (simp add: fe own_tags_def)
  next
    case 2
    then show ?thesis by (simp add: fe own_tags_def filter_cb_addressable)
  next
    case 3
    then show ?thesis by (simp add: fe own_tags_def filter_cb_rest)
  qed
qed

lemma run_tags_append: "run_tags ts (\<lambda>n v out. (True, out @ [(n, v)])) out = out @ ts"
  by (induction ts arbitrary: out) auto

lemma packs_filter_tags: "packs p i k c kd x ts \<Longrightarrow> filter_tags p = own_tags kd ts"
  by (simp add: filter_tags_def packs_foreach_filter run_tags_append)

section \<open>Properties\<close>

fun add_all :: "bytes \<Rightarrow> (nat \<times> bytes) list \<Rightarrow> event_error + bytes" where
  "add_all buf [] = Inr buf"
| "add_all buf ((n, v) # ts) = rbind (tag_builder_add buf n v) (\<lambda>buf'. add_all buf' ts)"

definition stored_tag :: "nat \<times> bytes \<Rightarrow> packed_tag" where
  "stored_tag = (\<lambda>(c, v). (as_u8 c, v))"

lemma add_all_Inr: "add_all buf ts = Inr b \<longleftrightarrow> list_all tag_ok (map stored_tag ts) \<and> b = buf @ tags_encode (map stored_tag ts)"
proof (induction ts arbitrary: buf)
  case (Cons t ts)
  obtain n v where "t = (n, v)" by fastforce
  with Cons show ?case by (auto simp: tag_builder_add_def tag_ok_def tag_encode_def stored_tag_def)
qed auto

text \<open>C25: an event the builders pack reads back as it was built: adding any tags one by one and
  building gives a buffer that \<open>from_bytes\<close> accepts, whose accessors return the id, public key,
  time, kind and expiration, whose tag walk returns the tags in order with the low byte of each key, and
  whose first \<open>d\<close> tag is the first one added with that byte. Keys up to U+00FF read back as they were added;
  a key above is cut to its low byte.\<close>

theorem packed_roundtrip:
  assumes "add_all [] ts = Inr buf" "packed_build i k c kd x buf = Inr p"
  shows "packed_from_bytes p = Inr p \<and> ev_id p = i \<and> ev_pubkey p = k \<and> ev_created_at p = c \<and>
    ev_kind p = kd \<and> ev_expiration p = x \<and> packed_tags p = map stored_tag ts \<and>
    map unat (map fst (packed_tags p)) = map (\<lambda>t. fst t mod 256) ts \<and>
    first_d_tag p = map_option snd (find (\<lambda>t. fst t = 0x64) (map stored_tag ts))"
proof -
  have p: "packs p i k c kd x (map stored_tag ts)"
    using assms packs_build [of "map stored_tag ts" i k c kd x p] by (simp add: add_all_Inr)
  have "packed_from_bytes p = Inr p"
    using packs_fields(7) [OF p] by (simp add: packed_from_bytes_def view_new_def)
  then show ?thesis
    using packs_fields(1-5) [OF p] packs_tags [OF p] packs_first_d [OF p]
    by (simp add: stored_tag_def as_u8_def case_prod_unfold unat_of_nat comp_def)
qed

definition sample_tags :: "packed_tag list" where
  "sample_tags = [(0x74, str ''nostr''), (0x64, str ''slug''), (0x64, [])]"

definition sample_packed :: packed_event where
  "sample_packed = replicate 32 1 @ replicate 32 2 @ u64_to_ne 1700000000 @ u64_to_ne 30023 @ u64_to_ne 0 @
     tags_encode sample_tags"

theorem packed_roundtrip_witness:
  "packed_tags sample_packed = sample_tags \<and> first_d_tag sample_packed = Some (str ''slug'') \<and>
    ev_kind sample_packed = 30023"
proof -
  let ?ts = "[(0x74, str ''nostr''), (0x64, str ''slug''), (0x64, [])] :: (nat \<times> bytes) list"
  have ts: "map stored_tag ?ts = sample_tags" by (simp add: stored_tag_def as_u8_def sample_tags_def)
  have "add_all [] ?ts = Inr (tags_encode sample_tags)"
    unfolding add_all_Inr ts by (simp add: sample_tags_def tag_ok_def)
  moreover have "packed_build (replicate 32 1) (replicate 32 2) 1700000000 30023 0 (tags_encode sample_tags) =
      Inr sample_packed"
    by (simp add: packed_build_def sample_packed_def)
  ultimately show ?thesis
    using packed_roundtrip [of ?ts] unfolding ts by (fastforce simp: sample_tags_def)
qed

text \<open>The NIP-01 replacement order is a strict total order on events up to time and id: no event
  precedes itself, precedence is transitive, and of two events one precedes the other exactly when
  they differ in time or id, never both ways.\<close>

lemma replacement_order:
  "\<not> is_event_a_before_event_b a a \<and>
   (is_event_a_before_event_b a b \<longrightarrow> is_event_a_before_event_b b c \<longrightarrow> is_event_a_before_event_b a c) \<and>
   (is_event_a_before_event_b a b \<or> is_event_a_before_event_b b a \<longleftrightarrow>
      (ev_created_at a, ev_id a) \<noteq> (ev_created_at b, ev_id b)) \<and>
   \<not> (is_event_a_before_event_b a b \<and> is_event_a_before_event_b b a)"
  by (auto simp: is_event_a_before_event_b_def)

end
