(* ===== verification/Event_Parse.thy ===== *)
theory Event_Parse
  imports Event_Packed
begin

text \<open>
  From JSON to a packed event, \<open>wok-event/src/parse.rs\<close>: limits, field accessors,
  \<open>pack_event\<close> with its tag loop, the NIP-40 expiration and the normalized JSON.
\<close>

record event_limits =
  max_event_size :: nat
  max_num_tags :: nat
  max_tag_val_size :: nat

definition DEFAULT_MAX_EVENT_SIZE :: nat where
  "DEFAULT_MAX_EVENT_SIZE = 1024 * 1024"

definition DEFAULT_MAX_NUM_TAGS :: nat where
  "DEFAULT_MAX_NUM_TAGS = 5000"

definition MIN_REPRESENTABLE_EXPIRATION :: u64 where
  "MIN_REPRESENTABLE_EXPIRATION = 100"

definition default_limits :: event_limits where
  "default_limits = \<lparr> max_event_size = DEFAULT_MAX_EVENT_SIZE, max_num_tags = DEFAULT_MAX_NUM_TAGS,
     max_tag_val_size = 1024 \<rparr>"

record parsed_event =
  pe_packed :: packed_event
  pe_json :: bytes

section \<open>Accessors\<close>

text \<open>\<open>serde_json\<close>'s \<open>get\<close>, \<open>as_str\<close>, \<open>as_array\<close> and \<open>as_u64\<close>.\<close>

definition value_get :: "string \<Rightarrow> value \<Rightarrow> value option" where
  "value_get key v = (case v of Object m \<Rightarrow> map_of m (str key) | _ \<Rightarrow> None)"

definition as_str :: "value \<Rightarrow> bytes option" where
  "as_str v = (case v of String s \<Rightarrow> Some s | _ \<Rightarrow> None)"

definition as_array :: "value \<Rightarrow> value list option" where
  "as_array v = (case v of Array a \<Rightarrow> Some a | _ \<Rightarrow> None)"

definition as_u64 :: "value \<Rightarrow> u64 option" where
  "as_u64 v = (case v of Number (PosInt u) \<Rightarrow> Some u | _ \<Rightarrow> None)"

definition is_object :: "value \<Rightarrow> bool" where
  "is_object v = (case v of Object _ \<Rightarrow> True | _ \<Rightarrow> False)"

lemma as_Some [simp]:
  "as_str v = Some s \<longleftrightarrow> v = String s" "as_array v = Some a \<longleftrightarrow> v = Array a"
  "as_u64 v = Some u \<longleftrightarrow> v = Number (PosInt u)"
  by (cases v; auto simp: as_str_def as_array_def as_u64_def split: number.splits)+

lemma as_simps [simp]:
  "as_str (String s) = Some s" "as_array (Array a) = Some a" "as_u64 (Number (PosInt u)) = Some u"
  by simp_all

definition json_get_string :: "value \<Rightarrow> string \<Rightarrow> event_error + bytes" where
  "json_get_string v e = ok_or (event_error_msg e) (as_str v)"

definition json_get_unsigned :: "value \<Rightarrow> string \<Rightarrow> event_error + u64" where
  "json_get_unsigned v e = ok_or (event_error_msg e) (as_u64 v)"

definition json_get_array :: "value \<Rightarrow> string \<Rightarrow> event_error + value list" where
  "json_get_array v e = ok_or (event_error_msg e) (as_array v)"

definition get_field :: "value \<Rightarrow> string \<Rightarrow> event_error + value" where
  "get_field v key = ok_or (event_error_msg (''missing '' @ key)) (value_get key v)"

section \<open>Packing\<close>

text \<open>One turn of the tag loop; the state is the tag buffer, the expiration and whether the
  address tag has been seen.\<close>

type_synonym pack_state = "bytes \<times> u64 \<times> bool"

definition check_delete_address :: "ext \<Rightarrow> u64 \<Rightarrow> bytes \<Rightarrow> bytes \<Rightarrow> bytes \<Rightarrow> event_error + unit" where
  "check_delete_address X kind pubkey tag_name tag_val =
     (if tag_name = str ''a'' \<and> kind = 5 then
        rbind (parse_a_tag X tag_val) (\<lambda>(_, tag_pubkey, _).
          if tag_pubkey \<noteq> pubkey then Inl (event_error_msg ''can't delete other user's events'') else Inr ())
      else Inr ())"

text \<open>The only character of a string of one byte is that byte.\<close>

definition pack_single_letter ::
    "ext \<Rightarrow> event_limits \<Rightarrow> u64 \<Rightarrow> bytes \<Rightarrow> pack_state \<Rightarrow> bytes \<Rightarrow> bytes \<Rightarrow> event_error + pack_state" where
  "pack_single_letter X limits kind pubkey st tag_name tag_val =
     (case st of (buf, expiration, d_seen) \<Rightarrow>
      if max_tag_val_size limits < length tag_val then Inl (Limit TagValSize ''tag val too large'')
      else if tag_name = str ''d'' \<and> \<not> d_seen \<and>
        max_tag_val_size limits < length (to_decimal (unat kind)) + 1 + 64 + 1 + length tag_val
      then Inl (Limit TagValSize ''d tag too large'')
      else
        (let d_seen' = (d_seen \<or> tag_name = str ''d'') in
         if tag_name = str ''e'' \<or> tag_name = str ''p'' then
           (if length tag_val \<noteq> 64 then Inl (event_error_msg ''unexpected size for fixed-size tag'')
            else rbind (from_lower_hex_array X 32 tag_val) (\<lambda>raw.
              if length raw \<le> MAX_INDEXED_TAG_VAL_SIZE then
                rbind (tag_builder_add buf (unat (hd tag_name)) raw) (\<lambda>buf'. Inr (buf', expiration, d_seen'))
              else Inr (buf, expiration, d_seen')))
         else
           rbind (check_delete_address X kind pubkey tag_name tag_val) (\<lambda>_.
           rbind (tag_builder_add buf (unat (hd tag_name)) (indexed_tag_value X tag_val)) (\<lambda>buf'.
             Inr (buf', expiration, d_seen')))))"

definition pack_tag ::
    "ext \<Rightarrow> event_limits \<Rightarrow> u64 \<Rightarrow> bytes \<Rightarrow> pack_state \<Rightarrow> value \<Rightarrow> event_error + pack_state" where
  "pack_tag X limits kind pubkey st tag_arr =
     rbind (json_get_array tag_arr ''tag in tags field was not an array'') (\<lambda>tag.
     if tag = [] then Inl (event_error_msg ''too few fields in tag'')
     else if list_ex (\<lambda>e. as_str e = None) tag
     then Inl (event_error_msg ''all tag elements must be strings'')
     else
       rbind (json_get_string (tag ! 0) ''tag name was not a string'') (\<lambda>tag_name.
       rbind (if 2 \<le> length tag then json_get_string (tag ! 1) ''tag val was not a string'' else Inr [])
         (\<lambda>tag_val.
       if length tag_name = 1 then pack_single_letter X limits kind pubkey st tag_name tag_val
       else (case st of (buf, expiration, d_seen) \<Rightarrow>
         if tag_name = str ''expiration'' \<and> expiration = 0 then
           rbind (parse_uint64 tag_val) (\<lambda>e.
             if e < MIN_REPRESENTABLE_EXPIRATION then Inl (event_error_msg ''invalid expiration'')
             else Inr (buf, e, d_seen))
         else Inr st))))"

text \<open>The fields before the tags: a 32-byte lowercase hex field and an unsigned field, as
  \<open>id\<close>, \<open>pubkey\<close>, \<open>created_at\<close> and \<open>kind\<close> are read.\<close>

definition hex_field :: "ext \<Rightarrow> value \<Rightarrow> string \<Rightarrow> event_error + bytes" where
  "hex_field X v key =
     rbind (get_field v key) (\<lambda>f.
     rbind (json_get_string f (''event '' @ key @ '' field was not a string'')) (\<lambda>hex.
     if length hex \<noteq> 64 then Inl (event_error_msg (''unexpected '' @ key @ '' size''))
     else from_lower_hex_array X 32 hex))"

definition unsigned_field :: "value \<Rightarrow> string \<Rightarrow> event_error + u64" where
  "unsigned_field v key =
     rbind (get_field v key) (\<lambda>f.
       json_get_unsigned f (''event '' @ key @ '' field was not an integer''))"

definition pack_header :: "ext \<Rightarrow> value \<Rightarrow> event_error + bytes \<times> bytes \<times> u64 \<times> u64" where
  "pack_header X v =
     (if \<not> is_object v then Inl (event_error_msg ''event is not an object'')
      else
        rbind (hex_field X v ''id'') (\<lambda>eid.
        rbind (hex_field X v ''pubkey'') (\<lambda>pubkey.
        rbind (unsigned_field v ''created_at'') (\<lambda>created_at.
        rbind (unsigned_field v ''kind'') (\<lambda>kind.
        if 65535 < kind then Inl (event_error_msg ''event kind must be between 0 and 65535'') else
        rbind (get_field v ''content'') (\<lambda>content_v.
        rbind (json_get_string content_v ''event content field was not a string'') (\<lambda>_.
          Inr (eid, pubkey, created_at, kind))))))))"

definition pack_event :: "ext \<Rightarrow> value \<Rightarrow> event_limits \<Rightarrow> event_error + packed_event \<times> u64" where
  "pack_event X v limits =
     rbind (pack_header X v) (\<lambda>(eid, pubkey, created_at, kind).
     rbind (if is_replaceable_kind kind then tag_builder_add [] 0x64 [] else Inr []) (\<lambda>buf0.
     rbind (get_field v ''tags'') (\<lambda>tags_v.
     rbind (json_get_array tags_v ''tags field not an array'') (\<lambda>tags.
     if max_num_tags limits < length tags then Inl (Limit NumTags ''too many tags'') else
     rbind (try_fold (pack_tag X limits kind pubkey) (buf0, 0, \<not> is_param_replaceable_kind kind) tags)
       (\<lambda>(buf1, expiration, _).
     rbind (if is_param_replaceable_kind kind then tag_builder_add buf1 0x64 [] else Inr buf1) (\<lambda>buf2.
     let packed_expiration = (if is_ephemeral_kind kind then 1 else expiration) in
     rbind (packed_build eid pubkey created_at kind packed_expiration buf2) (\<lambda>packed.
       Inr (packed, expiration))))))))"

definition nostr_json_to_packed_event :: "ext \<Rightarrow> value \<Rightarrow> event_limits \<Rightarrow> event_error + packed_event" where
  "nostr_json_to_packed_event X v limits = rbind (pack_event X v limits) (\<lambda>(packed, _). Inr packed)"

definition is_expiration_tag :: "value list \<Rightarrow> bool" where
  "is_expiration_tag tag = (case tag of [] \<Rightarrow> False | n # _ \<Rightarrow> as_str n = Some (str ''expiration''))"

definition expiration_tag :: "value \<Rightarrow> u64 option" where
  "expiration_tag v =
     Option.bind (value_get ''tags'' v) (\<lambda>tags_v.
     Option.bind (as_array tags_v) (\<lambda>tags.
     Option.bind (find is_expiration_tag (List.map_filter as_array tags)) (\<lambda>tag.
     if length tag < 2 then None
     else Option.bind (as_str (tag ! 1)) (\<lambda>s. case parse_uint64 s of Inl _ \<Rightarrow> None | Inr e \<Rightarrow> Some e))))"

section \<open>Normalized JSON\<close>

definition NORMAL_KEYS :: "string list" where
  "NORMAL_KEYS = [''content'', ''created_at'', ''id'', ''kind'', ''pubkey'', ''sig'', ''tags'']"

definition normalize_member :: "ext \<Rightarrow> value \<Rightarrow> bytes \<Rightarrow> nat \<times> string \<Rightarrow> event_error + bytes" where
  "normalize_member X orig json = (\<lambda>(index, key).
     rbind (get_field orig key) (\<lambda>v.
       Inr (json @ (if index \<noteq> 0 then [0x2C] else []) @ [0x22] @ str key @ [0x22, 0x3A] @
         write_tao (fmt_f64 X) v)))"

definition normalize_event_json :: "ext \<Rightarrow> value \<Rightarrow> event_error + bytes" where
  "normalize_event_json X orig =
     rbind (try_fold (normalize_member X orig) [0x7B] (enumerate 0 NORMAL_KEYS)) (\<lambda>json.
       Inr (json @ [0x7D]))"

section \<open>What packing writes\<close>

text \<open>The name and the value packing reads from a tag, and the packed form of a single-letter
  tag.\<close>

definition tag_parts :: "value \<Rightarrow> (bytes \<times> bytes) option" where
  "tag_parts t =
     (case as_array t of
        None \<Rightarrow> None
      | Some tag \<Rightarrow>
          if tag = [] \<or> list_ex (\<lambda>e. as_str e = None) tag then None
          else Some (the (as_str (tag ! 0)), if 2 \<le> length tag then the (as_str (tag ! 1)) else []))"

definition packed_value :: "ext \<Rightarrow> bytes \<Rightarrow> bytes \<Rightarrow> bytes" where
  "packed_value X name val =
     (if name = str ''e'' \<or> name = str ''p''
      then (case from_lower_hex_array X 32 val of Inl _ \<Rightarrow> [] | Inr raw \<Rightarrow> raw)
      else indexed_tag_value X val)"

definition payload_tag :: "ext \<Rightarrow> value \<Rightarrow> packed_tag option" where
  "payload_tag X t =
     (case tag_parts t of
        None \<Rightarrow> None
      | Some (name, val) \<Rightarrow> if length name = 1 then Some (hd name, packed_value X name val) else None)"

definition payload_tags :: "ext \<Rightarrow> value list \<Rightarrow> packed_tag list" where
  "payload_tags X tags = List.map_filter (payload_tag X) tags"

lemma tag_builder_add_Inr:
  "tag_builder_add buf c v = Inr b \<longleftrightarrow> tag_ok (as_u8 c, v) \<and> b = buf @ tag_encode (as_u8 c, v)"
  by (auto simp: tag_builder_add_def tag_ok_def tag_encode_def)

lemma as_u8_d [simp]: "as_u8 0x64 = 0x64"
  by (simp_all add: as_u8_def)

lemma pack_single_letter_Inr:
  assumes "hex_ok X" "pack_single_letter X limits kind pubkey (buf, e, d) name val = Inr (buf', e', d')"
  shows "e' = e \<and> tag_ok (hd name, packed_value X name val) \<and>
    buf' = buf @ tag_encode (hd name, packed_value X name val)"
proof (cases "name = str ''e'' \<or> name = str ''p''")
  case True
  with assms show ?thesis
    using from_lower_hex_array_length [OF assms(1)]
    by (auto simp: pack_single_letter_def Let_def rbind_eq_Inr tag_builder_add_Inr packed_value_def
        MAX_INDEXED_TAG_VAL_SIZE_def split: if_splits)
next
  case False
  with assms show ?thesis
    by (auto simp: pack_single_letter_def Let_def rbind_eq_Inr tag_builder_add_Inr packed_value_def
        split: if_splits)
qed

lemma pack_tag_Inr:
  assumes "hex_ok X" "pack_tag X limits kind pubkey (buf, e, d) t = Inr (buf', e', d')"
  shows "\<exists>name val. tag_parts t = Some (name, val) \<and>
    (if length name = 1 then e' = e \<and> tag_ok (hd name, packed_value X name val) \<and>
       buf' = buf @ tag_encode (hd name, packed_value X name val)
     else buf' = buf \<and> (if name = str ''expiration'' \<and> e = 0
       then parse_uint64 val = Inr e' \<and> MIN_REPRESENTABLE_EXPIRATION \<le> e' else e' = e))"
proof -
  have u: "pack_tag X limits kind pubkey (buf, e, d) t = Inr (buf', e', d')" by (fact assms(2))
  obtain tag where t: "as_array t = Some tag"
    using u by (cases "as_array t") (simp_all add: pack_tag_def json_get_array_def)
  have ne: "tag \<noteq> []" using u by (auto simp: pack_tag_def json_get_array_def t)
  have strs: "\<not> list_ex (\<lambda>e. as_str e = None) tag"
    using u ne by (rule_tac notI) (simp add: pack_tag_def json_get_array_def t)
  have all: "as_str (tag ! i) \<noteq> None" if "i < length tag" for i
    using strs that by (auto simp: list_ex_iff)
  obtain name where name: "as_str (tag ! 0) = Some name" using all [of 0] ne by auto
  have nm: "json_get_string (tag ! 0) m = Inr name" for m by (simp add: json_get_string_def name)
  define val where "val = (if 2 \<le> length tag then the (as_str (tag ! 1)) else [])"
  have val: "(if 2 \<le> length tag then json_get_string (tag ! 1) m else Inr []) = Inr val" for m
    using all [of 1] by (auto simp: val_def json_get_string_def)
  note tag = t ne strs
  have rest: "(if length name = 1 then pack_single_letter X limits kind pubkey (buf, e, d) name val
       else if name = str ''expiration'' \<and> e = 0 then
           rbind (parse_uint64 val) (\<lambda>e.
             if e < MIN_REPRESENTABLE_EXPIRATION then Inl (event_error_msg ''invalid expiration'')
             else Inr (buf, e, d))
         else Inr (buf, e, d)) = Inr (buf', e', d')"
    using u ne strs
    by (simp add: pack_tag_def json_get_array_def t val nm del: str_simps One_nat_def cong: if_cong)
  have "tag_parts t = Some (name, val)" using tag name by (simp add: tag_parts_def val_def)
  moreover from rest have "if length name = 1 then e' = e \<and> tag_ok (hd name, packed_value X name val) \<and>
       buf' = buf @ tag_encode (hd name, packed_value X name val)
     else buf' = buf \<and> (if name = str ''expiration'' \<and> e = 0
       then parse_uint64 val = Inr e' \<and> MIN_REPRESENTABLE_EXPIRATION \<le> e' else e' = e)"
    using pack_single_letter_Inr [OF assms(1)]
    by (auto simp: rbind_eq_Inr not_less split: if_splits)
  ultimately show ?thesis by blast
qed

lemma pack_tags_Inr:
  assumes "hex_ok X" "try_fold (pack_tag X limits kind pubkey) (buf, e, d) tags = Inr (buf', e', d')"
  shows "buf' = buf @ tags_encode (payload_tags X tags) \<and> list_all tag_ok (payload_tags X tags)"
  using assms(2)
proof (induction tags arbitrary: buf e d)
  case (Cons t tags)
  from Cons.prems obtain b1 e1 d1 where
    st: "pack_tag X limits kind pubkey (buf, e, d) t = Inr (b1, e1, d1)"
    and rest: "try_fold (pack_tag X limits kind pubkey) (b1, e1, d1) tags = Inr (buf', e', d')"
    by (auto simp: rbind_eq_Inr)
  from Cons.IH [OF rest] pack_tag_Inr [OF assms(1) st] show ?case
    by (auto simp: payload_tags_def payload_tag_def List.map_filter_simps split: if_splits)
qed (simp add: payload_tags_def List.map_filter_simps)

lemma hex_field_Inr:
  "hex_field X v key = Inr b \<longleftrightarrow>
     (\<exists>h. value_get key v = Some (String h) \<and> length h = 64 \<and> from_lower_hex_array X 32 h = Inr b)"
  by (auto simp: hex_field_def get_field_def json_get_string_def rbind_eq_Inr ok_or_eq_Inr
      split: if_splits)

lemma unsigned_field_Inr:
  "unsigned_field v key = Inr u \<longleftrightarrow> value_get key v = Some (Number (PosInt u))"
  by (auto simp: unsigned_field_def get_field_def json_get_unsigned_def rbind_eq_Inr ok_or_eq_Inr)

lemma pack_header_Inr:
  "pack_header X v = Inr (eid, pk, ca, kd) \<longleftrightarrow>
     is_object v \<and> hex_field X v ''id'' = Inr eid \<and> hex_field X v ''pubkey'' = Inr pk \<and>
     unsigned_field v ''created_at'' = Inr ca \<and> unsigned_field v ''kind'' = Inr kd \<and> kd \<le> 65535 \<and>
     (\<exists>c. value_get ''content'' v = Some (String c))"
  by (auto simp: pack_header_def rbind_eq_Inr get_field_def json_get_string_def ok_or_eq_Inr
      not_less split: if_splits)

definition virtual_d :: "bool \<Rightarrow> packed_tag list" where
  "virtual_d b = (if b then [(0x64, [])] else [])"

lemma pack_event_Inr:
  assumes "hex_ok X" "pack_event X v limits = Inr (p, ex)"
  obtains eid pk ca kd tags buf0 buf1 d where
    "pack_header X v = Inr (eid, pk, ca, kd)" "value_get ''tags'' v = Some (Array tags)"
    "length tags \<le> max_num_tags limits"
    "try_fold (pack_tag X limits kd pk) (buf0, 0, \<not> is_param_replaceable_kind kd) tags = Inr (buf1, ex, d)"
    "packs p eid pk ca kd (if is_ephemeral_kind kd then 1 else ex)
      (virtual_d (is_replaceable_kind kd) @ payload_tags X tags @ virtual_d (is_param_replaceable_kind kd))"
proof -
  from assms(2) obtain eid pk ca kd where h: "pack_header X v = Inr (eid, pk, ca, kd)"
    by (auto simp: pack_event_def rbind_eq_Inr)
  define buf0 where "buf0 = tags_encode (virtual_d (is_replaceable_kind kd))"
  have b0: "(if is_replaceable_kind kd then tag_builder_add [] 0x64 [] else Inr []) = Inr buf0"
    by (simp add: buf0_def virtual_d_def tag_builder_add_Inr tag_ok_def)
  from assms(2) obtain tags where t: "value_get ''tags'' v = Some (Array tags)"
    by (auto simp: pack_event_def h b0 rbind_eq_Inr get_field_def json_get_array_def
        ok_or_eq_Inr)
  have n: "length tags \<le> max_num_tags limits"
    using assms(2)
    by (auto simp: pack_event_def h b0 get_field_def json_get_array_def t split: if_splits)
  from assms(2) n obtain buf1 e d where
    f: "try_fold (pack_tag X limits kd pk) (buf0, 0, \<not> is_param_replaceable_kind kd) tags = Inr (buf1, e, d)"
    by (auto simp: pack_event_def h b0 get_field_def json_get_array_def t rbind_eq_Inr not_less)
  define own where "own = virtual_d (is_replaceable_kind kd) @ payload_tags X tags"
  have own: "buf1 = tags_encode own" "list_all tag_ok own"
    using pack_tags_Inr [OF assms(1) f] by (auto simp: own_def buf0_def virtual_d_def tag_ok_def)
  define all where "all = own @ virtual_d (is_param_replaceable_kind kd)"
  have b2: "(if is_param_replaceable_kind kd then tag_builder_add buf1 0x64 [] else Inr buf1) = Inr (tags_encode all)"
    by (simp add: all_def own(1) virtual_d_def tag_builder_add_Inr tag_ok_def)
  have ok: "list_all tag_ok all" using own(2) by (simp add: all_def virtual_d_def tag_ok_def)
  have "packed_build eid pk ca kd (if is_ephemeral_kind kd then 1 else e) (tags_encode all) = Inr p \<and> e = ex"
    using assms(2) n
    by (auto simp: pack_event_def h b0 get_field_def json_get_array_def t f b2 rbind_eq_Inr
        not_less)
  then have "packs p eid pk ca kd (if is_ephemeral_kind kd then 1 else ex) all" "e = ex"
    using packs_build [OF ok] by auto
  then show ?thesis using that [OF h t n, of buf0 buf1 d] f by (simp add: all_def own_def)
qed

section \<open>The expiration\<close>

lemma tag_parts_Some:
  assumes "tag_parts t = Some (name, val)"
  obtains tag where "t = Array tag" "tag \<noteq> []" "is_expiration_tag tag \<longleftrightarrow> name = str ''expiration''"
    "2 \<le> length tag \<Longrightarrow> tag ! 1 = String val" "length tag < 2 \<Longrightarrow> val = []"
proof -
  from assms obtain tag where t: "t = Array tag" "tag \<noteq> []" "\<not> list_ex (\<lambda>e. as_str e = None) tag"
    and nv: "name = the (as_str (tag ! 0))" "val = (if 2 \<le> length tag then the (as_str (tag ! 1)) else [])"
    by (auto simp: tag_parts_def split: option.splits if_splits)
  have all: "as_str (tag ! i) \<noteq> None" if "i < length tag" for i
    using t(3) that by (auto simp: list_ex_iff)
  have "is_expiration_tag tag \<longleftrightarrow> name = str ''expiration''"
    using t(2) all [of 0] nv(1) by (cases tag) (auto simp: is_expiration_tag_def simp del: str_simps)
  moreover have "2 \<le> length tag \<Longrightarrow> tag ! 1 = String val" using all [of 1] nv(2) by fastforce
  moreover have "length tag < 2 \<Longrightarrow> val = []" using nv(2) by simp
  ultimately show ?thesis using that t by blast
qed

lemma parse_uint64_Nil: "parse_uint64 [] \<noteq> Inr e"
  by (simp add: parse_uint64_def)

lemma pack_tags_expiration:
  assumes "hex_ok X" "try_fold (pack_tag X limits kind pubkey) (buf, e, d) tags = Inr (buf', e', d')"
  shows "if e \<noteq> 0 then e' = e
    else (case find is_expiration_tag (List.map_filter as_array tags) of
        None \<Rightarrow> e' = 0
      | Some tag \<Rightarrow> \<exists>s. 2 \<le> length tag \<and> tag ! 1 = String s \<and> parse_uint64 s = Inr e' \<and> 100 \<le> e')"
  using assms(2)
proof (induction tags arbitrary: buf e d)
  case (Cons t tags)
  from Cons.prems obtain b1 e1 d1 where
    st: "pack_tag X limits kind pubkey (buf, e, d) t = Inr (b1, e1, d1)"
    and rest: "try_fold (pack_tag X limits kind pubkey) (b1, e1, d1) tags = Inr (buf', e', d')"
    by (auto simp: rbind_eq_Inr)
  note IH = Cons.IH [OF rest]
  obtain name val where parts: "tag_parts t = Some (name, val)"
    and eff: "if length name = 1 then e1 = e
      else if name = str ''expiration'' \<and> e = 0 then parse_uint64 val = Inr e1 \<and> 100 \<le> e1 else e1 = e"
    using pack_tag_Inr [OF assms(1) st] by (auto simp: MIN_REPRESENTABLE_EXPIRATION_def split: if_splits)
  obtain tag where tag: "t = Array tag" "is_expiration_tag tag \<longleftrightarrow> name = str ''expiration''"
    "2 \<le> length tag \<Longrightarrow> tag ! 1 = String val" "length tag < 2 \<Longrightarrow> val = []"
    using tag_parts_Some [OF parts] by metis
  show ?case
  proof (cases "name = str ''expiration'' \<and> e = 0")
    case True
    then have e1: "parse_uint64 val = Inr e1" "100 \<le> e1" using eff by (auto split: if_splits)
    then have len: "2 \<le> length tag" using tag(4) parse_uint64_Nil by (metis not_le)
    have "e1 \<noteq> 0" using e1(2) by auto
    then have "e' = e1" using IH by simp
    then show ?thesis using True tag(1,2) tag(3) [OF len] len e1 by (simp add: List.map_filter_simps)
  next
    case False
    then have "e1 = e" using eff by (auto split: if_splits)
    then show ?thesis using IH False tag(1,2) by (auto simp: List.map_filter_simps simp del: str_simps)
  qed
qed (simp add: List.map_filter_simps)

lemma expiration_packed:
  assumes "hex_ok X" "pack_event X v limits = Inr (p, ex)"
  shows "case expiration_tag v of None \<Rightarrow> ex = 0 | Some e \<Rightarrow> ex = e \<and> 100 \<le> ex"
    "ev_expiration p = (if is_ephemeral_kind (ev_kind p) then 1 else ex)"
proof -
  obtain eid pk ca kd tags buf0 buf1 d where t: "value_get ''tags'' v = Some (Array tags)"
    and f: "try_fold (pack_tag X limits kd pk) (buf0, 0, \<not> is_param_replaceable_kind kd) tags = Inr (buf1, ex, d)"
    and p: "packs p eid pk ca kd (if is_ephemeral_kind kd then 1 else ex)
      (virtual_d (is_replaceable_kind kd) @ payload_tags X tags @ virtual_d (is_param_replaceable_kind kd))"
    using pack_event_Inr [OF assms] by metis
  show "case expiration_tag v of None \<Rightarrow> ex = 0 | Some e \<Rightarrow> ex = e \<and> 100 \<le> ex"
    using pack_tags_expiration [OF assms(1) f] by (auto simp: expiration_tag_def t split: option.splits)
  show "ev_expiration p = (if is_ephemeral_kind (ev_kind p) then 1 else ex)"
    using packs_fields(4,5) [OF p] by simp
qed

section \<open>Properties\<close>

text \<open>C26: an event that packs keeps the fields of its JSON: time and kind are the unsigned fields,
  the kind fits 16 bits, and the id and public key are the bytes of the two hex fields. The JSON has no
  more tags than the limit allows, and no more are packed, but for the one \<open>d\<close> that is added to an event of
  a replaceable or addressable kind.\<close>

theorem pack_event_fields:
  assumes "hex_ok X" "pack_event X v limits = Inr (p, ex)"
  shows "value_get ''created_at'' v = Some (Number (PosInt (ev_created_at p))) \<and>
    value_get ''kind'' v = Some (Number (PosInt (ev_kind p))) \<and> ev_kind p \<le> 65535 \<and>
    (\<exists>h. value_get ''id'' v = Some (String h) \<and> from_lower_hex_array X 32 h = Inr (ev_id p)) \<and>
    (\<exists>h. value_get ''pubkey'' v = Some (String h) \<and> from_lower_hex_array X 32 h = Inr (ev_pubkey p)) \<and>
    (\<exists>tags. value_get ''tags'' v = Some (Array tags) \<and> length tags \<le> max_num_tags limits \<and>
      length (packed_tags p) \<le> length tags +
        (if is_replaceable_kind (ev_kind p) \<or> is_param_replaceable_kind (ev_kind p) then 1 else 0))"
proof -
  obtain eid pk ca kd tags where h: "pack_header X v = Inr (eid, pk, ca, kd)" and t: "value_get ''tags'' v = Some (Array tags)"
    and n: "length tags \<le> max_num_tags limits"
    and p: "packs p eid pk ca kd (if is_ephemeral_kind kd then 1 else ex)
      (virtual_d (is_replaceable_kind kd) @ payload_tags X tags @ virtual_d (is_param_replaceable_kind kd))"
    using pack_event_Inr [OF assms] by metis
  have "length (payload_tags X tags) \<le> length tags"
    unfolding payload_tags_def by (induction tags) (simp_all add: List.map_filter_simps split: option.split)
  moreover have "length (virtual_d (is_replaceable_kind kd)) + length (virtual_d (is_param_replaceable_kind kd)) \<le>
      (if is_replaceable_kind kd \<or> is_param_replaceable_kind kd then 1 else 0)"
    using kind_classes_disjoint(1) [of kd] by (auto simp: virtual_d_def)
  ultimately have "length (packed_tags p) \<le> length tags + (if is_replaceable_kind kd \<or> is_param_replaceable_kind kd then 1 else 0)"
    unfolding packs_tags [OF p] by simp
  then show ?thesis
    using h t n packs_fields(1-4) [OF p]
    by (auto simp: pack_header_Inr unsigned_field_Inr hex_field_Inr)
qed

text \<open>C20: the tags a filter matches on a packed event are the single-letter tags of its JSON in
  order, the added empty \<open>d\<close> left out, except that an addressable event without a \<open>d\<close> tag keeps it;
  and the first packed \<open>d\<close>, the replacement key, is empty for a replaceable kind and the first \<open>d\<close> of the
  JSON, or empty, for an addressable one.\<close>

theorem pack_event_filter_tags:
  assumes "hex_ok X" "pack_event X v limits = Inr (p, ex)"
  shows "\<exists>tags. value_get ''tags'' v = Some (Array tags) \<and>
    (let own = payload_tags X tags; d = find (\<lambda>t. fst t = 0x64) own in
     filter_tags p = own @ virtual_d (is_param_replaceable_kind (ev_kind p) \<and> d = None) \<and>
     first_d_tag p =
       (if is_replaceable_kind (ev_kind p) then Some []
        else if is_param_replaceable_kind (ev_kind p) then Some (case d of None \<Rightarrow> [] | Some t \<Rightarrow> snd t)
        else map_option snd d))"
proof -
  obtain eid pk ca kd tags where t: "value_get ''tags'' v = Some (Array tags)"
    and p: "packs p eid pk ca kd (if is_ephemeral_kind kd then 1 else ex)
      (virtual_d (is_replaceable_kind kd) @ payload_tags X tags @ virtual_d (is_param_replaceable_kind kd))"
    using pack_event_Inr [OF assms] by metis
  let ?own = "payload_tags X tags" and ?isd = "\<lambda>t :: packed_tag. fst t = 0x64"
  have fd: "find ?isd (xs @ ys) = (case find ?isd xs of None \<Rightarrow> find ?isd ys | Some t \<Rightarrow> Some t)" for xs ys
    by (induction xs) auto
  have none: "find ?isd ?own = None \<longleftrightarrow> \<not> (\<exists>t \<in> set ?own. fst t = 0x64)"
    by (auto simp: find_None_iff)
  have "filter_tags p = ?own @ virtual_d (is_param_replaceable_kind kd \<and> find ?isd ?own = None)"
    unfolding packs_filter_tags [OF p] none using kind_classes_disjoint(1) [of kd]
    by (auto simp: own_tags_def virtual_d_def)
  moreover have "first_d_tag p = (if is_replaceable_kind kd then Some []
      else if is_param_replaceable_kind kd then Some (case find ?isd ?own of None \<Rightarrow> [] | Some t \<Rightarrow> snd t)
      else map_option snd (find ?isd ?own))"
    unfolding packs_first_d [OF p] by (simp add: fd virtual_d_def split: option.split)
  ultimately show ?thesis using t by (simp add: Let_def packs_fields(4) [OF p])
qed

text \<open>C27: the expiration packing returns is the one \<open>expiration_tag\<close> reads from the same JSON, zero
  when it reads none; it is zero or at least 100, so that it never collides with the markers 0 and 1;
  and the packed field holds it, or 1 for an ephemeral kind.\<close>

theorem pack_event_expiration:
  assumes "hex_ok X" "pack_event X v limits = Inr (p, ex)"
  shows "ex = (case expiration_tag v of None \<Rightarrow> 0 | Some e \<Rightarrow> e) \<and> (ex = 0 \<or> 100 \<le> ex) \<and>
    ev_expiration p = (if is_ephemeral_kind (ev_kind p) then 1 else ex)"
  using expiration_packed [OF assms] by (auto split: option.splits)

section \<open>An example\<close>

definition sample_event :: "value" where
  "sample_event = Object
     [(str ''content'', String (str ''hi'')), (str ''created_at'', Number (PosInt 1700000000)),
      (str ''id'', String (replicate 64 0x61)), (str ''kind'', Number (PosInt 30023)),
      (str ''pubkey'', String (replicate 64 0x61)), (str ''sig'', String (replicate 128 0x61)),
      (str ''tags'', Array [Array [String (str ''d''), String (str ''x'')],
         Array [String (str ''expiration''), String (str ''200'')]])]"

lemma sample_hex: "from_lower_hex_array sample_ext 32 (replicate 64 0x61) = Inr (replicate 32 0xAA)"
  using hex_pairs_replicate [of 32]
  by (simp add: from_lower_hex_array_def sample_ext_def list_all_iff is_lower_hex_def)

lemma sample_header:
  "pack_header sample_ext sample_event =
     Inr (replicate 32 0xAA, replicate 32 0xAA, 1700000000, 30023)"
  by (simp add: pack_header_Inr hex_field_Inr unsigned_field_Inr value_get_def sample_event_def sample_hex
      is_object_def)

definition sample_event_packed :: packed_event where
  "sample_event_packed = replicate 32 0xAA @ replicate 32 0xAA @ u64_to_ne 1700000000 @ u64_to_ne 30023 @
     u64_to_ne 200 @ tags_encode [(0x64, [0x78]), (0x64, [])]"

definition sample_limits :: event_limits where
  "sample_limits = default_limits\<lparr> max_event_size := length (write_tao (fmt_f64 sample_ext) sample_event) \<rparr>"

lemma sample_packs: "pack_event sample_ext sample_event sample_limits = Inr (sample_event_packed, 200)"
proof -
  have tags: "get_field sample_event ''tags'' = Inr (Array [Array [String (str ''d''), String (str ''x'')],
      Array [String (str ''expiration''), String (str ''200'')]])"
    by (simp add: get_field_def value_get_def sample_event_def)
  have lim: "max_tag_val_size sample_limits = 1024" "max_num_tags sample_limits = 5000"
    by (simp_all add: sample_limits_def default_limits_def DEFAULT_MAX_NUM_TAGS_def)
  have kind: "is_param_replaceable_kind 30023" "\<not> is_replaceable_kind 30023" "\<not> is_ephemeral_kind 30023"
    by (simp_all add: is_param_replaceable_kind_def is_replaceable_kind_def is_ephemeral_kind_def)
  have dec: "length (to_decimal 30023) = 5" by (simp add: to_decimal.simps)
  have exp: "parse_uint64 [0x32, 0x30, 0x30] = Inr 200"
    by (simp add: parse_uint64_def is_digit_def parse_u64_def strip_plus_def parse_digits_def dec_val_def
        digit_val_def)
  show ?thesis
    by (simp add: pack_event_def sample_header tags lim kind dec exp json_get_array_def json_get_string_def
        pack_tag_def pack_single_letter_def indexed_tag_value_def MAX_INDEXED_TAG_VAL_SIZE_def
        check_delete_address_def tag_builder_add_def MIN_REPRESENTABLE_EXPIRATION_def packed_build_def
        sample_event_packed_def tag_encode_def)
qed

theorem pack_event_fields_witness:
  "value_get ''kind'' sample_event = Some (Number (PosInt (ev_kind sample_event_packed))) \<and>
    length (packed_tags sample_event_packed) \<le> 3"
proof -
  have "value_get ''tags'' sample_event = Some (Array [Array [String (str ''d''), String (str ''x'')],
      Array [String (str ''expiration''), String (str ''200'')]])"
    by (simp add: value_get_def sample_event_def)
  then show ?thesis using pack_event_fields [OF sample_ext_ok(1) sample_packs] by (auto split: if_splits)
qed

theorem pack_event_filter_tags_witness:
  "\<exists>tags. value_get ''tags'' sample_event = Some (Array tags) \<and>
     filter_tags sample_event_packed = payload_tags sample_ext tags @
       virtual_d (is_param_replaceable_kind (ev_kind sample_event_packed) \<and>
         find (\<lambda>t. fst t = 0x64) (payload_tags sample_ext tags) = None)"
  using pack_event_filter_tags [OF sample_ext_ok(1) sample_packs] by (auto simp: Let_def)

theorem pack_event_expiration_witness:
  "200 = (case expiration_tag sample_event of None \<Rightarrow> 0 | Some e \<Rightarrow> e)"
  using pack_event_expiration [OF sample_ext_ok(1) sample_packs] by blast

section \<open>Normal form\<close>

text \<open>The object of the seven authenticated fields.\<close>

definition normal_object :: "value \<Rightarrow> value" where
  "normal_object v = Object (map (\<lambda>k. (str k, the (value_get k v))) NORMAL_KEYS)"

definition plain :: "u8 \<Rightarrow> bool" where
  "plain b \<longleftrightarrow> 0x20 \<le> b \<and> b < 0x7F \<and> b \<noteq> 0x22 \<and> b \<noteq> 0x5C"

lemma write_string_plain:
  assumes "list_all plain s"
  shows "write_string esc s = 0x22 # s @ [0x22]"
proof -
  have b: "utf8_encode (unat b) = [b]" "write_char esc (unat b) = [b]" "is_scalar (unat b)" if "plain b" for b
  proof -
    have u: "0x20 \<le> unat b" "unat b < 0x7F" "unat b \<noteq> 0x22" "unat b \<noteq> 0x5C"
      using that by (auto simp: plain_def word_le_nat_alt word_less_nat_alt word_unat_eq_iff)
    then show "utf8_encode (unat b) = [b]" by (simp add: utf8_encode_ascii)
    with u show "write_char esc (unat b) = [b]" "is_scalar (unat b)"
      by (simp_all add: write_char_def is_scalar_def)
  qed
  have "utf8_string (map unat s) = s" "list_all is_scalar (map unat s)"
    "concat (map (write_char esc) (map unat s)) = s"
    using assms by (induction s) (auto simp: b)
  then have "chars s = map unat s" using chars_utf8_string [of "map unat s"] by simp
  then show ?thesis using \<open>concat (map (write_char esc) (map unat s)) = s\<close> by (simp add: write_string_def)
qed

lemma normal_keys_plain: "k \<in> set NORMAL_KEYS \<Longrightarrow> write_string esc (str k) = 0x22 # str k @ [0x22]"
  by (rule write_string_plain) (auto simp: NORMAL_KEYS_def plain_def)

lemma normal_keys_sorted: "btree_keys (map (\<lambda>k. (str k, f k)) NORMAL_KEYS)"
  by (simp add: NORMAL_KEYS_def)

lemma normalize_members:
  assumes "\<And>k. k \<in> set ks \<Longrightarrow> write_string Tao (str k) = 0x22 # str k @ [0x22]" "0 < n"
  shows "try_fold (normalize_member X v) json (enumerate n ks) = Inr out \<longleftrightarrow>
    (\<forall>k \<in> set ks. value_get k v \<noteq> None) \<and>
    out = json @ concat (map (\<lambda>k. 0x2C # write_member (fmt_f64 X) Tao (str k, the (value_get k v))) ks)"
  using assms
proof (induction ks arbitrary: json n)
  case (Cons k ks)
  have "write_string Tao (str k) = 0x22 # str k @ [0x22]" using Cons.prems by simp
  with Cons show ?case
    by (cases "value_get k v")
      (auto simp: normalize_member_def get_field_def write_tao_def write_member_def)
qed auto

lemma join_comma_Cons: "join_comma (x # xs) = x @ concat (map (\<lambda>y. 0x2C # y) xs)"
  by (induction xs arbitrary: x) simp_all

lemma normalize_Inr:
  "normalize_event_json X v = Inr t \<longleftrightarrow>
     (\<forall>k \<in> set NORMAL_KEYS. value_get k v \<noteq> None) \<and> t = write_tao (fmt_f64 X) (normal_object v)"
proof -
  obtain k ks where ks: "NORMAL_KEYS = k # ks" by (simp add: NORMAL_KEYS_def)
  note plain = normal_keys_plain [where esc = Tao, unfolded ks]
  have w: "write_json (fmt_f64 X) Tao (normal_object v) =
      0x7B # write_member (fmt_f64 X) Tao (str k, the (value_get k v)) @
        concat (map (\<lambda>k. 0x2C # write_member (fmt_f64 X) Tao (str k, the (value_get k v))) ks) @ [0x7D]"
    using write_json_Object [OF normal_keys_sorted [of "\<lambda>k. the (value_get k v)"], of "fmt_f64 X" Tao]
    by (simp add: normal_object_def ks join_comma_Cons comp_def del: write_json.simps)
  show ?thesis
  proof (cases "value_get k v")
    case None
    then show ?thesis by (simp add: normalize_event_json_def ks normalize_member_def get_field_def)
  next
    case (Some f)
    have "normalize_member X v [0x7B] (0, k) = Inr (0x7B # write_member (fmt_f64 X) Tao (str k, f))"
      using plain [of k] Some by (simp add: normalize_member_def get_field_def write_member_def write_tao_def)
    then show ?thesis
      using Some normalize_members [of ks 1 X v "0x7B # write_member (fmt_f64 X) Tao (str k, f)"] plain
      by (auto simp: normalize_event_json_def ks rbind_eq_Inr write_tao_def w)
  qed
qed

lemma value_get_Some: "value_get k v = Some f \<longleftrightarrow> (\<exists>m. v = Object m \<and> map_of m (str k) = Some f)"
  by (cases v) (simp_all add: value_get_def)

lemma normal_object_get:
  "k \<in> set NORMAL_KEYS \<Longrightarrow> value_get k v \<noteq> None \<Longrightarrow> value_get k (normal_object v) = value_get k v"
  by (auto simp: NORMAL_KEYS_def normal_object_def value_get_def [of _ "Object _"])

lemma field_wf:
  assumes "wf_value v" "nesting v \<le> MAX_DEPTH" "value_get k v \<noteq> None"
  shows "wf_value (the (value_get k v)) \<and> Suc (nesting (the (value_get k v))) \<le> MAX_DEPTH"
proof -
  from assms(3) obtain m f where m: "v = Object m" "(str k, f) \<in> set m" and f: "the (value_get k v) = f"
    using value_get_Some by (metis map_of_SomeD not_None_eq option.sel)
  show ?thesis
    using assms(1,2) m nesting_Object [of 0 m MAX_DEPTH "str k" f] f by (auto simp: list_all_iff)
qed

lemma normal_object_wf:
  assumes "wf_value v" "nesting v \<le> MAX_DEPTH" "\<And>k. k \<in> set NORMAL_KEYS \<Longrightarrow> value_get k v \<noteq> None"
  shows "wf_value (normal_object v)" "nesting (normal_object v) \<le> MAX_DEPTH"
proof -
  have field: "wf_value (the (value_get k v)) \<and> Suc (nesting (the (value_get k v))) \<le> MAX_DEPTH"
    if "k \<in> set NORMAL_KEYS" for k
    using assms that by (intro field_wf) auto
  have "utf8_valid (str k)" if "k \<in> set NORMAL_KEYS" for k
    by (rule utf8_valid_ascii) (use that in \<open>auto simp: NORMAL_KEYS_def\<close>)
  then show "wf_value (normal_object v)"
    using field normal_keys_sorted by (auto simp: normal_object_def list_all_iff)
  show "nesting (normal_object v) \<le> MAX_DEPTH"
    using field nesting_Object_iff [of 0 _ MAX_DEPTH] by (auto simp: normal_object_def simp del: nesting.simps)
qed

text \<open>C24: the stored JSON of an event is a normal form: what \<open>normalize_event_json\<close> writes for a
  parsed event without floats parses to exactly the object of its seven authenticated fields, and
  normalizing that object writes the same bytes again.\<close>

theorem normalize_fixed_point:
  assumes "parse_strict text = Inr v" "normalize_event_json X v = Inr t" "no_float (normal_object v)"
  shows "parse_strict t = Inr (normal_object v) \<and> normalize_event_json X (normal_object v) = Inr t"
proof -
  have keys: "\<And>k. k \<in> set NORMAL_KEYS \<Longrightarrow> value_get k v \<noteq> None" and t: "t = write_tao (fmt_f64 X) (normal_object v)"
    using assms(2) by (auto simp: normalize_Inr)
  have "wf_value v" "nesting v \<le> MAX_DEPTH"
    using parse_strict_value [OF assms(1)] parse_value_wf(1) [of 0] by auto
  then have wf: "wf_value (normal_object v)" "nesting (normal_object v) \<le> MAX_DEPTH"
    using normal_object_wf keys by blast+
  have "normal_object (normal_object v) = normal_object v"
    using keys normal_object_get by (simp add: normal_object_def [of "normal_object v"])
      (auto simp: normal_object_def)
  moreover have "\<forall>k \<in> set NORMAL_KEYS. value_get k (normal_object v) \<noteq> None"
    using keys normal_object_get by auto
  ultimately show ?thesis
    using parse_strict_written [OF wf(1) assms(3) wf(2), of "fmt_f64 X" Tao] t
    by (simp add: normalize_Inr write_tao_def)
qed

lemma sample_event_wf: "wf_value sample_event" "no_float sample_event" "nesting sample_event \<le> MAX_DEPTH"
  "normal_object sample_event = sample_event"
proof -
  have v: "list_all (\<lambda>b. unat b < 0x80) s \<Longrightarrow> utf8_valid s" for s by (rule utf8_valid_ascii)
  show "wf_value sample_event"
    by (simp add: sample_event_def; intro conjI; intro v; simp add: list_all_iff)
  show "no_float sample_event" "nesting sample_event \<le> MAX_DEPTH" "normal_object sample_event = sample_event"
    by (simp_all add: sample_event_def MAX_DEPTH_def normal_object_def NORMAL_KEYS_def value_get_def)
qed

lemma sample_normalizes:
  "normalize_event_json sample_ext sample_event = Inr (write_tao (fmt_f64 sample_ext) sample_event)"
  unfolding normalize_Inr sample_event_wf(4)
  by (simp add: NORMAL_KEYS_def value_get_def sample_event_def)

theorem normalize_fixed_point_witness:
  "\<exists>t. parse_strict t = Inr sample_event \<and> normalize_event_json sample_ext sample_event = Inr t"
proof -
  have p: "parse_strict (write_json (fmt_f64 sample_ext) Tao sample_event) = Inr sample_event"
    by (rule parse_strict_written [OF sample_event_wf(1-3)])
  show ?thesis
    using normalize_fixed_point [OF p sample_normalizes] sample_event_wf(2,4) by auto
qed

end
