(* ===== verification/Event_Validate.thy ===== *)
theory Event_Validate
  imports Event_Parse
begin

text \<open>
  Identity, signature, policy and migration checks of events: \<open>wok-event/src/hash.rs\<close>,
  \<open>validate.rs\<close> and \<open>deletion_protection.rs\<close>. SHA-256 and the Schnorr checks are
  fields of \<open>ext\<close>; the clock is the field \<open>now_secs\<close> of the policy.
\<close>

section \<open>Ids and signatures\<close>

definition PREIMAGE_KEYS :: "string list" where
  "PREIMAGE_KEYS = [''pubkey'', ''created_at'', ''kind'', ''tags'', ''content'']"

definition preimage_member :: "(value \<Rightarrow> bytes) \<Rightarrow> value \<Rightarrow> bytes \<Rightarrow> string \<Rightarrow> event_error + bytes" where
  "preimage_member write orig encoded key =
     rbind (get_field orig key) (\<lambda>v. Inr (encoded @ [0x2C] @ write v))"

definition id_preimage :: "value \<Rightarrow> (value \<Rightarrow> bytes) \<Rightarrow> event_error + bytes" where
  "id_preimage orig write =
     rbind (try_fold (preimage_member write orig) (str ''[0'') PREIMAGE_KEYS) (\<lambda>encoded. Inr (encoded @ [0x5D]))"

definition event_id_hash :: "ext \<Rightarrow> value \<Rightarrow> event_error + bytes" where
  "event_id_hash X orig = rbind (id_preimage orig (write_nip01 (fmt_f64 X))) (\<lambda>p. Inr (sha256 X p))"

definition legacy_event_id_hash :: "ext \<Rightarrow> value \<Rightarrow> event_error + bytes" where
  "legacy_event_id_hash X orig = rbind (id_preimage orig (write_tao (fmt_f64 X))) (\<lambda>p. Inr (sha256 X p))"

definition verify_id :: "ext \<Rightarrow> value \<Rightarrow> bytes \<Rightarrow> event_error + unit" where
  "verify_id X orig packed_id =
     rbind (id_preimage orig (write_nip01 (fmt_f64 X))) (\<lambda>preimage.
       if sha256 X preimage \<noteq> packed_id then Inl (event_error_msg ''bad event id'') else Inr ())"

definition verify_id_allowing_legacy :: "ext \<Rightarrow> value \<Rightarrow> bytes \<Rightarrow> event_error + unit" where
  "verify_id_allowing_legacy X orig packed_id =
     rbind (id_preimage orig (write_nip01 (fmt_f64 X))) (\<lambda>preimage.
       if sha256 X preimage = packed_id then Inr ()
       else if 0x7F \<in> set preimage then
         rbind (legacy_event_id_hash X orig) (\<lambda>h.
           if h = packed_id then Inr () else Inl (event_error_msg ''bad event id''))
       else Inl (event_error_msg ''bad event id''))"

definition verify_sig :: "ext \<Rightarrow> bytes \<Rightarrow> bytes \<Rightarrow> bytes \<Rightarrow> event_error + bool" where
  "verify_sig X sig hash pubkey =
     (if length sig \<noteq> 64 \<or> length hash \<noteq> 32 \<or> length pubkey \<noteq> 32
      then Inl (event_error_msg ''verify sig: bad input size'')
      else if \<not> xonly_ok X pubkey then Inl (event_error_msg ''verify sig: bad pubkey'')
      else if \<not> schnorr_sig_ok X sig then Inl (event_error_msg ''verify sig: bad signature'')
      else Inr (verify_schnorr X sig hash pubkey))"

datatype IdPreimage = Nip01Only | Nip01OrLegacy

definition verify_nostr_event_with :: "ext \<Rightarrow> packed_event \<Rightarrow> value \<Rightarrow> IdPreimage \<Rightarrow> event_error + unit" where
  "verify_nostr_event_with X packed orig ids =
     rbind (case ids of Nip01Only \<Rightarrow> verify_id X orig (ev_id packed)
            | Nip01OrLegacy \<Rightarrow> verify_id_allowing_legacy X orig (ev_id packed)) (\<lambda>_.
     rbind (get_field orig ''sig'') (\<lambda>sig_v.
     rbind (json_get_string sig_v ''event sig was not a string'') (\<lambda>sig_hex.
     if length sig_hex \<noteq> 128 then Inl (event_error_msg ''unexpected signature size'')
     else
       rbind (from_lower_hex_array X 64 sig_hex) (\<lambda>sig.
       rbind (verify_sig X sig (ev_id packed) (ev_pubkey packed)) (\<lambda>valid.
         if \<not> valid then Inl (event_error_msg ''bad signature'') else Inr ())))))"

definition verify_nostr_event :: "ext \<Rightarrow> packed_event \<Rightarrow> value \<Rightarrow> event_error + unit" where
  "verify_nostr_event X packed orig = verify_nostr_event_with X packed orig Nip01Only"

section \<open>Records migrated from strfry\<close>

text \<open>The tags of the payload: the packed forms it carries, the address as each packer reads it and
  the first recipient.\<close>

record payload_scan =
  carried :: "packed_tag list"
  address :: "bytes option"
  strfry_address :: "bytes option"
  recipient :: "bytes option"

definition scan_name :: "value list \<Rightarrow> bytes option" where
  "scan_name tag = (case tag of [] \<Rightarrow> None | n # _ \<Rightarrow> as_str n)"

definition scan_value :: "value list \<Rightarrow> bytes option" where
  "scan_value tag = (if 2 \<le> length tag then as_str (tag ! 1) else Some [])"

definition scan_packed :: "ext \<Rightarrow> u8 \<Rightarrow> bytes \<Rightarrow> bytes option" where
  "scan_packed X name val =
     (if name = 0x65 \<or> name = 0x70 then
        (if length val \<noteq> 64 then None
         else case from_hex_exact X val of Inl _ \<Rightarrow> None | Inr raw \<Rightarrow> Some raw)
      else Some (indexed_tag_value X val))"

definition scan_tag :: "ext \<Rightarrow> payload_scan \<Rightarrow> value list \<Rightarrow> payload_scan" where
  "scan_tag X s tag =
     (case (scan_name tag, scan_value tag) of
        (Some name_s, Some val) \<Rightarrow>
          (case name_s of
             [name] \<Rightarrow>
               (case scan_packed X name val of
                  None \<Rightarrow> s
                | Some pv \<Rightarrow>
                    s\<lparr> recipient := (if name = 0x70 \<and> length pv = 32 \<and> recipient s = None then Some pv else recipient s),
                       address := (if name = 0x64 \<and> address s = None then Some pv else address s),
                       strfry_address := (if name = 0x64 \<and> strfry_address s = None \<and>
                           length val \<le> MAX_INDEXED_TAG_VAL_SIZE then Some pv else strfry_address s),
                       carried := (name, pv) # carried s \<rparr>)
           | _ \<Rightarrow> s)
      | _ \<Rightarrow> s)"

definition payload_arrays :: "value \<Rightarrow> value list list" where
  "payload_arrays orig =
     (case Option.bind (value_get ''tags'' orig) as_array of
        None \<Rightarrow> [] | Some tags \<Rightarrow> List.map_filter as_array tags)"

definition scan_payload :: "ext \<Rightarrow> value \<Rightarrow> payload_scan" where
  "scan_payload X orig =
     foldl (scan_tag X) \<lparr> carried = [], address = None, strfry_address = None, recipient = None \<rparr>
       (payload_arrays orig)"

text \<open>The walk over the packed tags keeps the first \<open>d\<close>, the first 32-byte \<open>p\<close> and whether a
  tag was found that the payload does not carry.\<close>

type_synonym packed_scan = "bytes option \<times> bytes option \<times> bool"

definition packed_scan_cb :: "bool \<Rightarrow> packed_tag list \<Rightarrow> u8 \<Rightarrow> bytes \<Rightarrow> packed_scan \<Rightarrow> bool \<times> packed_scan" where
  "packed_scan_cb allow_d carried_tags name val = (\<lambda>(first_d, first_p, stray).
     let first_d' = (if name = 0x64 \<and> first_d = None then Some val else first_d);
         first_p' = (if name = 0x70 \<and> length val = 32 \<and> first_p = None then Some val else first_p) in
     if (name = 0x64 \<and> val = [] \<and> allow_d) \<or> (name, val) \<in> set carried_tags
     then (True, (first_d', first_p', stray))
     else (False, (first_d', first_p', True)))"

definition strfry_expiration :: "value \<Rightarrow> event_error + u64 option" where
  "strfry_expiration orig =
     (case find is_expiration_tag (payload_arrays orig) of
        None \<Rightarrow> Inr None
      | Some tag \<Rightarrow>
          (case scan_value tag of
             None \<Rightarrow> Inl (event_error_msg ''payload expiration is not a string'')
           | Some val \<Rightarrow>
               (case parse_uint64 val of
                  Inr e \<Rightarrow> if 100 \<le> e then Inr (Some e)
                    else Inl (event_error_msg ''payload expiration is not a time strfry packs'')
                | Inl _ \<Rightarrow> Inl (event_error_msg ''payload expiration is not a time strfry packs''))))"

definition expected_addresses :: "u64 \<Rightarrow> payload_scan \<Rightarrow> (bytes \<times> bytes) option" where
  "expected_addresses kind s =
     (if is_replaceable_kind kind then Some ([], [])
      else if is_param_replaceable_kind kind then
        Some (case strfry_address s of None \<Rightarrow> [] | Some a \<Rightarrow> a, case address s of None \<Rightarrow> [] | Some a \<Rightarrow> a)
      else None)"

definition check_packed_tags :: "ext \<Rightarrow> packed_event \<Rightarrow> value \<Rightarrow> event_error + unit" where
  "check_packed_tags X packed orig =
     (let kind = ev_kind packed;
          s = scan_payload X orig;
          allow_d = (kind = 41 \<or> is_replaceable_kind kind \<or> is_param_replaceable_kind kind) in
      case foreach_tag (packed_scan_cb allow_d (carried s)) packed (None, None, False) of
        (first_d, first_p, stray) \<Rightarrow>
          if stray then Inl (event_error_msg ''packed tag is not in the payload'')
          else if first_p \<noteq> recipient s then Inl (event_error_msg ''packed recipient differs'')
          else
            rbind (case expected_addresses kind s of
                None \<Rightarrow> Inr ()
              | Some (strfry, wok) \<Rightarrow>
                  if first_d \<noteq> Some strfry \<and> first_d \<noteq> Some wok
                  then Inl (event_error_msg ''packed address differs'') else Inr ()) (\<lambda>_.
            rbind (strfry_expiration orig) (\<lambda>own.
            let expected = (if is_ephemeral_kind kind then 1 else case own of None \<Rightarrow> 0 | Some e \<Rightarrow> e) in
            if ev_expiration packed \<noteq> expected then Inl (event_error_msg ''packed expiration differs'')
            else Inr ())))"

definition strfry_bytes :: "ext \<Rightarrow> value \<Rightarrow> string \<Rightarrow> nat \<Rightarrow> event_error + bytes" where
  "strfry_bytes X orig key len =
     rbind (get_field orig key) (\<lambda>v.
     rbind (json_get_string v (''event '' @ key @ '' was not a string'')) (\<lambda>s.
     rbind (from_hex_exact X s) (\<lambda>decoded.
       if length decoded \<noteq> len then Inl (event_error_msg (''unexpected '' @ key @ '' size'')) else Inr decoded)))"

definition verify_strfry_event :: "ext \<Rightarrow> packed_event \<Rightarrow> value \<Rightarrow> event_error + unit" where
  "verify_strfry_event X packed orig =
     rbind (strfry_bytes X orig ''id'' 32) (\<lambda>eid.
     if eid \<noteq> ev_id packed then Inl (event_error_msg ''payload id differs from the packed record'') else
     rbind (strfry_bytes X orig ''pubkey'' 32) (\<lambda>pk.
     if pk \<noteq> ev_pubkey packed then Inl (event_error_msg ''payload pubkey differs from the packed record'') else
     rbind (unsigned_field orig ''kind'') (\<lambda>kind.
     if kind \<noteq> ev_kind packed then Inl (event_error_msg ''payload kind differs from the packed record'') else
     rbind (unsigned_field orig ''created_at'') (\<lambda>ca.
     if ca \<noteq> ev_created_at packed then Inl (event_error_msg ''payload created_at differs from the packed record'')
     else
     rbind (check_packed_tags X packed orig) (\<lambda>_.
     rbind (verify_id_allowing_legacy X orig (ev_id packed)) (\<lambda>_.
     rbind (strfry_bytes X orig ''sig'' 64) (\<lambda>sig.
     rbind (verify_sig X sig (ev_id packed) (ev_pubkey packed)) (\<lambda>valid.
       if \<not> valid then Inl (event_error_msg ''bad signature'') else Inr ()))))))))"

section \<open>Policy\<close>

definition AUTH_TIMESTAMP_WINDOW_SECS :: u64 where
  "AUTH_TIMESTAMP_WINDOW_SECS = 600"

definition GIFT_WRAP_BACKDATE_SECS :: u64 where
  "GIFT_WRAP_BACKDATE_SECS = 3 * 86400"

record timestamp_policy =
  now_secs :: u64
  reject_newer_than_secs :: u64
  reject_older_than_secs :: u64
  reject_ephemeral_older_than_secs :: u64

definition verify_event_json_size :: "bytes \<Rightarrow> nat \<Rightarrow> event_error + unit" where
  "verify_event_json_size json max_size =
     (if max_size < length json then Inl (Limit EventSize ''event too large'') else Inr ())"

definition verify_event_timestamp :: "packed_event \<Rightarrow> timestamp_policy \<Rightarrow> event_error + unit" where
  "verify_event_timestamp packed policy =
     (let now = now_secs policy;
          ts = ev_created_at packed;
          is_ephemeral = (ev_expiration packed = 1);
          max_age = (if is_ephemeral then reject_ephemeral_older_than_secs policy
                     else if reject_older_than_secs policy = 0 then - 1
                     else reject_older_than_secs policy);
          earliest0 = sat_sub now max_age;
          latest0 = sat_add now (reject_newer_than_secs policy);
          earliest = (if now < earliest0 then 0 else earliest0);
          latest = (if latest0 < now then - 1 - 1 else latest0) in
      if ts < earliest then
        Inl (if is_ephemeral then Limit EphemeralTooOld ''ephemeral event expired''
             else Limit TooOld ''created_at too early'')
      else if latest < ts then Inl (Limit TooNew ''created_at too late'')
      else if 1 < ev_expiration packed \<and> ev_expiration packed \<le> now
      then Inl (event_error_msg ''event expired'')
      else Inr ())"

definition check_canonical :: "ext \<Rightarrow> unit \<Rightarrow> value list \<Rightarrow> event_error + unit" where
  "check_canonical X u tag =
     (if scan_name tag = Some (str ''a'') then
        (case (if 2 \<le> length tag then as_str (tag ! 1) else None) of
           None \<Rightarrow> Inr ()
         | Some addr \<Rightarrow> rbind (parse_canonical_a_tag X addr) (\<lambda>_. Inr ()))
      else Inr ())"

definition require_canonical_addresses :: "ext \<Rightarrow> value \<Rightarrow> event_error + unit" where
  "require_canonical_addresses X orig = try_fold (check_canonical X) () (payload_arrays orig)"

section \<open>Deletion protection\<close>

definition named_tag :: "string \<Rightarrow> value \<Rightarrow> bool" where
  "named_tag name tag \<longleftrightarrow> Option.bind (as_array tag) scan_name = Some (str name)"

definition canonical_expiration :: "value list \<Rightarrow> bool" where
  "canonical_expiration tag =
     (let val = (case (if 2 \<le> length tag then as_str (tag ! 1) else None) of None \<Rightarrow> [] | Some s \<Rightarrow> s) in
      length tag = 2 \<and> val \<noteq> [] \<and> list_all is_digit val \<and> \<not> (1 < length val \<and> hd val = 0x30) \<and>
      parse_u64 val \<noteq> None)"

definition deletion_protection :: "value \<Rightarrow> event_error + bool" where
  "deletion_protection event =
     (case Option.bind (value_get ''tags'' event) as_array of
        None \<Rightarrow> Inr False
      | Some tags \<Rightarrow>
          (case filter (named_tag ''no_delete'') tags of
             [] \<Rightarrow> Inr False
           | marker # more_markers \<Rightarrow>
               if length (the (as_array marker)) \<noteq> 1 \<or> more_markers \<noteq> []
               then Inl (event_error_msg ''expected exactly one no_delete tag'')
               else
                 rbind (case filter (named_tag ''expiration'') tags of
                     [] \<Rightarrow> Inr ()
                   | expiration # more_exp \<Rightarrow>
                       if \<not> canonical_expiration (the (as_array expiration)) \<or> more_exp \<noteq> []
                       then Inl (event_error_msg ''no_delete requires one canonical u64 expiration value'')
                       else Inr ()) (\<lambda>_.
                 rbind (ok_or (event_error_msg ''event kind field was not an integer'')
                     (Option.bind (value_get ''kind'' event) as_u64)) (\<lambda>kind.
                 if is_replaceable_kind kind \<or> is_param_replaceable_kind kind \<or> is_ephemeral_kind kind
                 then Inl (Restricted ''no_delete is only allowed on regular event kinds'')
                 else Inr True))))"

section \<open>The whole check\<close>

definition parse_and_verify_event_with ::
    "ext \<Rightarrow> value \<Rightarrow> event_limits \<Rightarrow> timestamp_policy option \<Rightarrow> bool \<Rightarrow> bool \<Rightarrow> IdPreimage \<Rightarrow>
     event_error + parsed_event" where
  "parse_and_verify_event_with X orig limits policy verify_msg verify_time ids =
     (if \<not> is_object orig then Inl (event_error_msg ''event is not an object'')
      else
        rbind (deletion_protection orig) (\<lambda>protected.
        if protected \<and> (case expiration_tag orig of None \<Rightarrow> False
            | Some expiration \<Rightarrow> expiration < MIN_REPRESENTABLE_EXPIRATION)
        then Inl (Restricted ''expiration is outside the supported storage range'')
        else
        rbind (pack_event X orig limits) (\<lambda>(packed, expiration).
        rbind (if ev_kind packed = 5 then require_canonical_addresses X orig else Inr ()) (\<lambda>_.
        rbind (normalize_event_json X orig) (\<lambda>json.
        rbind (if verify_msg then verify_event_json_size json (max_event_size limits) else Inr ()) (\<lambda>_.
        rbind (if verify_time then
            rbind (ok_or (event_error_msg ''timestamp policy required'') policy) (\<lambda>p.
            rbind (verify_event_timestamp packed p) (\<lambda>_.
              if expiration \<noteq> 0 \<and> expiration \<le> now_secs p then Inl (event_error_msg ''event expired'')
              else Inr ()))
          else Inr ()) (\<lambda>_.
        rbind (if verify_msg then verify_nostr_event_with X packed orig ids else Inr ()) (\<lambda>_.
          Inr \<lparr> pe_packed = packed, pe_json = json \<rparr>))))))))"

definition parse_and_verify_event ::
    "ext \<Rightarrow> value \<Rightarrow> event_limits \<Rightarrow> timestamp_policy option \<Rightarrow> bool \<Rightarrow> bool \<Rightarrow> event_error + parsed_event" where
  "parse_and_verify_event X orig limits policy verify_msg verify_time =
     parse_and_verify_event_with X orig limits policy verify_msg verify_time Nip01Only"

section \<open>Preimages\<close>

lemma string_del_written: "0 < string_dels s \<Longrightarrow> 0x7F \<in> set (write_string Nip01 s)"
proof -
  have d: "write_char Nip01 0x7F = [0x7F]" by (simp add: write_char_def utf8_encode_def as_u8_def)
  assume "0 < string_dels s"
  then have "0x7F \<in> set (chars s)" by (simp add: string_dels_def length_greater_0_conv filter_empty_conv)
  then show ?thesis using d by (force simp: write_string_def)
qed

lemma set_join_comma: "x \<in> set xs \<Longrightarrow> set x \<subseteq> set (join_comma xs)"
  by (induction xs rule: join_comma.induct) auto

lemma sum_list_pos: "0 < sum_list (map f xs) \<longleftrightarrow> (\<exists>x \<in> set xs. 0 < f x)" for f :: "'a \<Rightarrow> nat"
  by (induction xs) auto

lemma del_written: "0 < dels v \<Longrightarrow> 0x7F \<in> set (write_json fmt Nip01 v)"
proof (induction v)
  case (String s)
  then show ?case by (simp add: string_del_written)
next
  case (Array arr)
  then obtain x where x: "x \<in> set arr" "0 < dels x" by (auto simp: sum_list_pos)
  then have "0x7F \<in> set (write_json fmt Nip01 x)" using Array.IH by blast
  moreover have "write_json fmt Nip01 x \<in> set (map (write_json fmt Nip01) arr)" using x by simp
  ultimately show ?case using set_join_comma by fastforce
next
  case (Object m)
  then obtain k v where kv: "(k, v) \<in> set m" "0 < string_dels k \<or> 0 < dels v"
    by (auto simp: sum_list_pos)
  let ?w = "\<lambda>(k, v). write_string Nip01 k @ 0x3A # write_json fmt Nip01 v"
  have "0x7F \<in> set (?w (k, v))" using kv Object.IH [OF kv(1), of v] string_del_written [of k] by auto
  moreover have "?w (k, v) \<in> set (map ?w (sort_key fst m))" using kv by force
  ultimately have "0x7F \<in> set (join_comma (map ?w (sort_key fst m)))" using set_join_comma by blast
  then show ?case by simp
qed simp_all

lemma preimage_members:
  "try_fold (preimage_member w v) e ks = Inr p \<longleftrightarrow>
     (\<forall>k \<in> set ks. value_get k v \<noteq> None) \<and> p = e @ concat (map (\<lambda>k. 0x2C # w (the (value_get k v))) ks)"
proof (induction ks arbitrary: e)
  case (Cons k ks)
  then show ?case by (cases "value_get k v") (auto simp: preimage_member_def get_field_def)
qed auto

lemma id_preimage_Inr:
  "id_preimage v w = Inr p \<longleftrightarrow>
     (\<forall>k \<in> set PREIMAGE_KEYS. value_get k v \<noteq> None) \<and>
     p = str ''[0'' @ concat (map (\<lambda>k. 0x2C # w (the (value_get k v))) PREIMAGE_KEYS) @ [0x5D]"
  by (auto simp: id_preimage_def rbind_eq_Inr preimage_members)

lemma preimages_agree:
  assumes "id_preimage v (write_nip01 fmt) = Inr p" "0x7F \<notin> set p"
  shows "id_preimage v (write_tao fmt) = Inr p"
proof -
  have "dels (the (value_get k v)) = 0" if "k \<in> set PREIMAGE_KEYS" for k
  proof -
    have "set (write_json fmt Nip01 (the (value_get k v))) \<subseteq> set p"
      using assms(1) that by (auto simp: id_preimage_Inr write_nip01_def)
    then show ?thesis using assms(2) del_written [of "the (value_get k v)" fmt] by auto
  qed
  then have "map (\<lambda>k. 0x2C # write_tao fmt (the (value_get k v))) PREIMAGE_KEYS =
      map (\<lambda>k. 0x2C # write_nip01 fmt (the (value_get k v))) PREIMAGE_KEYS"
    by (auto simp: write_tao_def write_nip01_def write_json_agree)
  with assms(1) show ?thesis by (auto simp only: id_preimage_Inr)
qed

lemma event_id_hash_Inr:
  "event_id_hash X v = Inr i \<longleftrightarrow> (\<exists>p. id_preimage v (write_nip01 (fmt_f64 X)) = Inr p \<and> sha256 X p = i)"
  "legacy_event_id_hash X v = Inr i \<longleftrightarrow> (\<exists>p. id_preimage v (write_tao (fmt_f64 X)) = Inr p \<and> sha256 X p = i)"
  by (auto simp: event_id_hash_def legacy_event_id_hash_def rbind_eq_Inr)

lemma id_preimage_both: "is_ok (id_preimage v w) \<longleftrightarrow> is_ok (id_preimage v w')"
  by (auto simp: is_ok_iff id_preimage_Inr)

lemma verify_id_iff: "verify_id X v i = Inr () \<longleftrightarrow> event_id_hash X v = Inr i"
  by (auto simp: verify_id_def event_id_hash_Inr rbind_eq_Inr split: if_splits)

lemma legacy_iff:
  "verify_id_allowing_legacy X v i = Inr () \<longleftrightarrow> event_id_hash X v = Inr i \<or> legacy_event_id_hash X v = Inr i"
proof (cases "id_preimage v (write_nip01 (fmt_f64 X))")
  case (Inl e)
  then have "\<not> is_ok (id_preimage v (write_tao (fmt_f64 X)))"
    using id_preimage_both [of v "write_tao (fmt_f64 X)" "write_nip01 (fmt_f64 X)"] by (simp add: is_ok_iff)
  with Inl show ?thesis
    by (auto simp: verify_id_allowing_legacy_def event_id_hash_Inr is_ok_iff)
next
  case (Inr p)
  show ?thesis
  proof (cases "0x7F \<in> set p")
    case True
    with Inr show ?thesis
      by (auto simp: verify_id_allowing_legacy_def event_id_hash_Inr(1) rbind_eq_Inr)
  next
    case False
    with Inr preimages_agree [OF Inr False] show ?thesis
      by (auto simp: verify_id_allowing_legacy_def event_id_hash_Inr)
  qed
qed

text \<open>The preimage is the NIP-01 form of an array.\<close>

definition preimage_array :: "value \<Rightarrow> value" where
  "preimage_array v = Array (Number (PosInt 0) # map (\<lambda>k. the (value_get k v)) PREIMAGE_KEYS)"

lemma id_preimage_array:
  "id_preimage v (write_nip01 fmt) = Inr p \<Longrightarrow> p = write_json fmt Nip01 (preimage_array v)"
  by (simp add: id_preimage_Inr preimage_array_def join_comma_Cons number_to_string_def to_decimal_zero
      write_nip01_def comp_def)

lemma preimage_array_wf:
  assumes "wf_value v" "nesting v \<le> MAX_DEPTH" "\<And>k. k \<in> set PREIMAGE_KEYS \<Longrightarrow> value_get k v \<noteq> None"
  shows "wf_value (preimage_array v)" "nesting (preimage_array v) \<le> MAX_DEPTH"
proof -
  have field: "wf_value (the (value_get k v)) \<and> Suc (nesting (the (value_get k v))) \<le> MAX_DEPTH"
    if "k \<in> set PREIMAGE_KEYS" for k
    using assms that by (intro field_wf) auto
  show "wf_value (preimage_array v)" using field by (simp add: preimage_array_def list_all_iff)
  show "nesting (preimage_array v) \<le> MAX_DEPTH"
    using field nesting_Array_iff [of 0 _ MAX_DEPTH] assms(2)
    by (auto simp: preimage_array_def MAX_DEPTH_def simp del: nesting.simps(1))
qed

section \<open>Properties\<close>

text \<open>C23: the check that also admits the legacy preimage accepts an id exactly when it is the hash of
  the NIP-01 preimage or of the legacy one; hashing the legacy form only when the preimage holds
  U+007F misses nothing.\<close>

theorem verify_id_allowing_legacy_iff:
  "verify_id_allowing_legacy X v i = Inr () \<longleftrightarrow> event_id_hash X v = Inr i \<or> legacy_event_id_hash X v = Inr i"
  by (rule legacy_iff)

text \<open>C12: the NIP-01 preimage determines what it commits to: two parsed events without floats that
  have the same preimage have the same public key, time, kind, tags and content.\<close>

theorem id_preimage_injective:
  assumes "parse_strict t = Inr v" "parse_strict u = Inr w"
    "id_preimage v (write_nip01 fmt) = Inr p" "id_preimage w (write_nip01 fmt) = Inr p"
    "no_float (preimage_array v)" "no_float (preimage_array w)"
  shows "list_all (\<lambda>k. value_get k v = value_get k w) PREIMAGE_KEYS"
proof -
  have keys: "value_get k v \<noteq> None" "value_get k w \<noteq> None" if "k \<in> set PREIMAGE_KEYS" for k
    using assms(3,4) that by (auto simp: id_preimage_Inr)
  have "wf_value (preimage_array x) \<and> nesting (preimage_array x) \<le> MAX_DEPTH"
    if "parse_strict s = Inr x" "\<And>k. k \<in> set PREIMAGE_KEYS \<Longrightarrow> value_get k x \<noteq> None" for s x
    using parse_strict_value [OF that(1)] parse_value_wf(1) [of 0] preimage_array_wf [of x] that(2) by auto
  then have "parse_strict p = Inr (preimage_array v)" "parse_strict p = Inr (preimage_array w)"
    using assms keys parse_strict_written [of "preimage_array v" fmt Nip01]
      parse_strict_written [of "preimage_array w" fmt Nip01]
      id_preimage_array [OF assms(3)] id_preimage_array [OF assms(4)] by metis+
  then have "map (\<lambda>k. the (value_get k v)) PREIMAGE_KEYS = map (\<lambda>k. the (value_get k w)) PREIMAGE_KEYS"
    by (simp add: preimage_array_def)
  then have "the (value_get k v) = the (value_get k w)" if "k \<in> set PREIMAGE_KEYS" for k
    using that by simp
  then have "value_get k v = value_get k w" if "k \<in> set PREIMAGE_KEYS" for k
    using that keys [OF that] by (intro option.expand) auto
  then show ?thesis by (simp add: list_all_iff)
qed

lemma sample_preimage: "\<exists>p. id_preimage sample_event (write_nip01 (\<lambda>f. [])) = Inr p"
  by (simp add: id_preimage_Inr PREIMAGE_KEYS_def value_get_def sample_event_def)

text \<open>The same event under another id and signature.\<close>

definition resigned_event :: "value" where
  "resigned_event = Object
     [(str ''content'', String (str ''hi'')), (str ''created_at'', Number (PosInt 1700000000)),
      (str ''id'', String (replicate 64 0x62)), (str ''kind'', Number (PosInt 30023)),
      (str ''pubkey'', String (replicate 64 0x61)), (str ''sig'', String (replicate 128 0x62)),
      (str ''tags'', Array [Array [String (str ''d''), String (str ''x'')],
         Array [String (str ''expiration''), String (str ''200'')]])]"

lemma resigned_event_wf: "wf_value resigned_event" "no_float resigned_event" "nesting resigned_event \<le> MAX_DEPTH"
proof -
  have v: "list_all (\<lambda>b. unat b < 0x80) s \<Longrightarrow> utf8_valid s" for s by (rule utf8_valid_ascii)
  show "wf_value resigned_event"
    by (simp add: resigned_event_def; intro conjI; intro v; simp add: list_all_iff)
  show "no_float resigned_event" "nesting resigned_event \<le> MAX_DEPTH"
    by (simp_all add: resigned_event_def MAX_DEPTH_def)
qed

theorem id_preimage_injective_witness:
  "value_get ''id'' sample_event \<noteq> value_get ''id'' resigned_event \<and> value_get ''sig'' sample_event \<noteq> value_get ''sig'' resigned_event \<and>
    list_all (\<lambda>k. value_get k sample_event = value_get k resigned_event) PREIMAGE_KEYS"
proof -
  have p: "parse_strict (write_json (\<lambda>f. []) Tao sample_event) = Inr sample_event"
    "parse_strict (write_json (\<lambda>f. []) Tao resigned_event) = Inr resigned_event"
    by (rule parse_strict_written [OF sample_event_wf(1-3)], rule parse_strict_written [OF resigned_event_wf])
  obtain q where q: "id_preimage sample_event (write_nip01 (\<lambda>f. [])) = Inr q" using sample_preimage by blast
  have same: "preimage_array resigned_event = preimage_array sample_event"
    by (simp add: preimage_array_def PREIMAGE_KEYS_def value_get_def sample_event_def resigned_event_def)
  have "id_preimage resigned_event (write_nip01 (\<lambda>f. [])) = Inr q"
    using q unfolding id_preimage_Inr by (simp add: PREIMAGE_KEYS_def value_get_def sample_event_def resigned_event_def preimage_array_def)
  moreover have "no_float (preimage_array sample_event)"
    by (simp add: preimage_array_def PREIMAGE_KEYS_def value_get_def sample_event_def)
  ultimately have "list_all (\<lambda>k. value_get k sample_event = value_get k resigned_event) PREIMAGE_KEYS"
    using id_preimage_injective [OF p q] same by simp
  then show ?thesis by (simp add: value_get_def sample_event_def resigned_event_def replicate_eq_replicate)
qed

text \<open>C19: the time check accepts an event exactly when, with plain arithmetic, it is not older than
  the age its class allows (no bound when the policy says 0), not later than the clock plus the
  allowance, and not expired; the saturating 64-bit computation never changes the answer.\<close>

theorem verify_event_timestamp_iff:
  "verify_event_timestamp p pol = Inr () \<longleftrightarrow>
     (let now = unat (now_secs pol); ts = unat (ev_created_at p) in
      (if ev_expiration p = 1 then now \<le> ts + unat (reject_ephemeral_older_than_secs pol)
       else reject_older_than_secs pol = 0 \<or> now \<le> ts + unat (reject_older_than_secs pol)) \<and>
      ts \<le> now + unat (reject_newer_than_secs pol) \<and>
      \<not> (1 < unat (ev_expiration p) \<and> unat (ev_expiration p) \<le> now))"
proof -
  define now ts old eph new ex where
    "now = now_secs pol" and "ts = ev_created_at p" and "old = reject_older_than_secs pol" and
    "eph = reject_ephemeral_older_than_secs pol" and "new = reject_newer_than_secs pol" and "ex = ev_expiration p"
  note d = now_def [symmetric] ts_def [symmetric] old_def [symmetric] eph_def [symmetric]
    new_def [symmetric] ex_def [symmetric]
  have max: "unat x \<le> 2 ^ 64 - 1" for x :: u64 using unat_le_max [of x] by simp
  have no_wrap: "\<not> now < sat_sub now a" "\<not> sat_add now new < now" for a
    using max [of now] by (simp_all add: word_less_nat_alt unat_sat_sub unat_sat_add)
  have early: "ts < sat_sub now a \<longleftrightarrow> \<not> unat now \<le> unat ts + unat a" for a
    by (simp add: word_less_nat_alt unat_sat_sub less_diff_conv not_le)
  have late: "sat_add now new < ts \<longleftrightarrow> \<not> unat ts \<le> unat now + unat new"
    using max [of ts] by (simp add: word_less_nat_alt unat_sat_add min_less_iff_disj not_le)
  have all: "unat now \<le> unat ts + unat (- 1 :: u64)"
    using max [of now] by (simp add: unat_minus_one_word)
  have exp: "1 < ex \<longleftrightarrow> 1 < unat ex" "ex \<le> now \<longleftrightarrow> unat ex \<le> unat now"
    by (simp_all add: word_less_nat_alt word_le_nat_alt)
  show ?thesis
    unfolding verify_event_timestamp_def Let_def d
    by (cases "ex = 1"; cases "old = 0"; simp only: no_wrap early late exp all if_True if_False simp_thms)
      (simp_all split: if_split)
qed

section \<open>The migration check accepts what packing writes\<close>

definition tag_good :: "ext \<Rightarrow> value \<Rightarrow> bool" where
  "tag_good X t \<longleftrightarrow> (\<exists>name val. tag_parts t = Some (name, val) \<and>
     (length name = 1 \<longrightarrow> scan_packed X (hd name) val = Some (packed_value X name val)))"

lemma pack_single_letter_scan:
  assumes "hex_ok X" "pack_single_letter X limits kind pubkey st name val = Inr st'" "length name = 1"
  shows "scan_packed X (hd name) val = Some (packed_value X name val)"
proof (cases "name = str ''e'' \<or> name = str ''p''")
  case True
  obtain buf e d where st: "st = (buf, e, d)" by (cases st)
  from True assms(2) obtain raw where raw: "length val = 64" "from_lower_hex_array X 32 val = Inr raw"
    by (auto simp: st pack_single_letter_def Let_def rbind_eq_Inr split: if_splits)
  with True from_lower_hex_array_exact(1) [OF assms(1) raw(2)] show ?thesis
    by (auto simp: scan_packed_def packed_value_def)
next
  case False
  then show ?thesis using assms(3) by (auto simp: length_Suc_conv scan_packed_def packed_value_def)
qed

lemma pack_tag_good:
  assumes "hex_ok X" "pack_tag X limits kind pubkey st t = Inr st'"
  shows "tag_good X t"
proof -
  obtain buf e d where st: "st = (buf, e, d)" by (cases st)
  obtain buf' e' d' where st': "st' = (buf', e', d')" by (cases st')
  obtain name val where parts: "tag_parts t = Some (name, val)"
    using pack_tag_Inr [OF assms(1) assms(2) [unfolded st st']] by blast
  have "scan_packed X (hd name) val = Some (packed_value X name val)" if "length name = 1"
  proof -
    from parts obtain tag where tag: "t = Array tag" "tag \<noteq> []" "\<not> list_ex (\<lambda>e. as_str e = None) tag"
        "name = the (as_str (tag ! 0))" "val = (if 2 \<le> length tag then the (as_str (tag ! 1)) else [])"
      by (auto simp: tag_parts_def split: option.splits if_splits)
    have all: "as_str (tag ! i) = Some (the (as_str (tag ! i)))" if "i < length tag" for i
      using tag(3) that by (auto simp: list_ex_iff)
    have "json_get_string (tag ! 0) m = Inr name"
      "(if 2 \<le> length tag then json_get_string (tag ! 1) m else Inr []) = Inr val" for m
      using all [of 0] all [of 1] tag(2,4,5) by (auto simp: json_get_string_def ok_or_def split: option.splits)
    then have "pack_single_letter X limits kind pubkey st name val = Inr st'"
      using assms(2) tag(1,2,3) that
      by (simp add: pack_tag_def json_get_array_def del: One_nat_def)
    with assms(1) show ?thesis using that by (rule pack_single_letter_scan)
  qed
  with parts show ?thesis by (auto simp: tag_good_def)
qed

lemma pack_tags_good:
  "hex_ok X \<Longrightarrow> try_fold (pack_tag X limits kind pubkey) st tags = Inr st' \<Longrightarrow> t \<in> set tags \<Longrightarrow> tag_good X t"
  by (induction tags arbitrary: st) (auto simp: rbind_eq_Inr dest: pack_tag_good)

abbreviation is_d :: "packed_tag \<Rightarrow> bool" where
  "is_d t \<equiv> fst t = 0x64"

abbreviation is_p :: "packed_tag \<Rightarrow> bool" where
  "is_p t \<equiv> fst t = 0x70 \<and> length (snd t) = 32"

abbreviation first_or :: "bytes option \<Rightarrow> (packed_tag \<Rightarrow> bool) \<Rightarrow> packed_tag list \<Rightarrow> bytes option" where
  "first_or a P ts \<equiv> (case a of Some x \<Rightarrow> Some x | None \<Rightarrow> map_option snd (find P ts))"

lemma scan_tag_good:
  assumes "tag_good X (Array tag)"
  shows "carried (scan_tag X s tag) = (case payload_tag X (Array tag) of None \<Rightarrow> [] | Some t \<Rightarrow> [t]) @ carried s \<and>
    address (scan_tag X s tag) = first_or (address s) is_d (List.map_filter (payload_tag X) [Array tag]) \<and>
    recipient (scan_tag X s tag) = first_or (recipient s) is_p (List.map_filter (payload_tag X) [Array tag])"
proof -
  from assms obtain name val where parts: "tag_parts (Array tag) = Some (name, val)"
    and sp: "length name = 1 \<Longrightarrow> scan_packed X (hd name) val = Some (packed_value X name val)"
    by (auto simp: tag_good_def)
  have "tag \<noteq> []" "\<not> list_ex (\<lambda>e. as_str e = None) tag"
    and nv: "name = the (as_str (tag ! 0))" "val = (if 2 \<le> length tag then the (as_str (tag ! 1)) else [])"
    using parts by (auto simp: tag_parts_def split: if_splits)
  then have "as_str (tag ! i) = Some (the (as_str (tag ! i)))" if "i < length tag" for i
    using that by (auto simp: list_ex_iff)
  from this [of 0] this [of 1] have sn: "scan_name tag = Some name" and sv: "scan_value tag = Some val"
    using \<open>tag \<noteq> []\<close> nv by (auto simp: scan_name_def scan_value_def neq_Nil_conv)
  show ?thesis
  proof (cases "length name = 1")
    case True
    then obtain n where n: "name = [n]" by (auto simp: length_Suc_conv)
    show ?thesis
      using sp [OF True] parts
      by (auto simp: scan_tag_def sn sv n payload_tag_def List.map_filter_simps split: option.split)
  next
    case False
    then have "scan_tag X s tag = s" by (auto simp: scan_tag_def sn sv split: list.splits)
    with False parts show ?thesis
      by (simp add: payload_tag_def List.map_filter_simps split: option.split)
  qed
qed

lemma map_filter_Cons: "List.map_filter f (x # xs) = List.map_filter f [x] @ List.map_filter f xs"
  by (simp add: List.map_filter_simps split: option.split)

lemma find_append: "find P (xs @ ys) = (case find P xs of None \<Rightarrow> find P ys | Some x \<Rightarrow> Some x)"
  by (induction xs) auto

lemma scan_fold_good:
  assumes "\<And>t. t \<in> set tags \<Longrightarrow> tag_good X t"
  shows "let s' = foldl (scan_tag X) s (List.map_filter as_array tags) in
    set (carried s') = set (payload_tags X tags) \<union> set (carried s) \<and>
    address s' = first_or (address s) is_d (payload_tags X tags) \<and>
    recipient s' = first_or (recipient s) is_p (payload_tags X tags)"
  using assms
proof (induction tags arbitrary: s)
  case Nil
  show ?case by (simp add: payload_tags_def List.map_filter_simps split: option.split)
next
  case (Cons t tags)
  have "tag_good X t" using Cons.prems by simp
  then obtain tag where t: "t = Array tag"
    by (auto simp: tag_good_def tag_parts_def split: option.splits)
  note g = scan_tag_good [OF \<open>tag_good X t\<close> [unfolded t], of s]
  have pt: "payload_tags X (t # tags) = List.map_filter (payload_tag X) [Array tag] @ payload_tags X tags"
    unfolding payload_tags_def t by (rule map_filter_Cons)
  have st: "foldl (scan_tag X) s (List.map_filter as_array (t # tags)) =
      foldl (scan_tag X) (scan_tag X s tag) (List.map_filter as_array tags)"
    by (simp add: t List.map_filter_simps)
  have "set (case payload_tag X (Array tag) of None \<Rightarrow> [] | Some t \<Rightarrow> [t]) =
      set (List.map_filter (payload_tag X) [Array tag])"
    by (simp add: List.map_filter_simps split: option.split)
  with g Cons.IH [of "scan_tag X s tag"] Cons.prems show ?case
    unfolding st pt Let_def by (auto simp: find_append split: option.splits)
qed

lemma packed_scan_run:
  assumes "\<And>n v. (n, v) \<in> set ts \<Longrightarrow> (n = 0x64 \<and> v = [] \<and> allow) \<or> (n, v) \<in> set cs"
  shows "tag_list ts (\<lambda>n v l. packed_scan_cb allow cs n v) (fd, fp, b) =
    (first_or fd is_d ts, first_or fp is_p ts, b)"
  using assms
proof (induction ts arbitrary: fd fp)
  case (Cons t ts)
  obtain n v where t: "t = (n, v)" by fastforce
  have ok: "(n = 0x64 \<and> v = [] \<and> allow) \<or> (n, v) \<in> set cs" using Cons.prems [of n v] by (simp add: t)
  define fd' where "fd' = (if n = 0x64 \<and> fd = None then Some v else fd)"
  define fp' where "fp' = (if n = 0x70 \<and> length v = 32 \<and> fp = None then Some v else fp)"
  have "packed_scan_cb allow cs n v (fd, fp, b) = (True, (fd', fp', b))"
    using ok by (auto simp: packed_scan_cb_def fd'_def fp'_def)
  then have "tag_list (t # ts) (\<lambda>n v l. packed_scan_cb allow cs n v) (fd, fp, b) =
      (first_or fd' is_d ts, first_or fp' is_p ts, b)"
    using Cons by (simp add: t)
  then show ?case by (auto simp: t fd'_def fp'_def split: option.splits)
qed (simp split: option.split)

lemma strfry_expiration_packed:
  assumes "hex_ok X" "value_get ''tags'' v = Some (Array tags)"
    "try_fold (pack_tag X limits kind pubkey) (buf, 0, d) tags = Inr (buf', e, d')"
  shows "\<exists>own. strfry_expiration v = Inr own \<and> (case own of None \<Rightarrow> 0 | Some x \<Rightarrow> x) = e"
  using pack_tags_expiration [OF assms(1,3)] assms(2)
  by (auto simp: strfry_expiration_def payload_arrays_def scan_value_def split: option.splits)

text \<open>C5: the migration check agrees with the packer: for every event JSON that packs,
  \<open>check_packed_tags\<close> accepts the packed record against that JSON: each packed tag is carried, the
  replacement address, the recipient and the expiration are the payload's.\<close>

theorem check_packed_tags_pack_event:
  assumes "hex_ok X" "pack_event X v limits = Inr (p, ex)"
  shows "check_packed_tags X p v = Inr ()"
proof -
  obtain eid pk ca kd tags buf0 buf1 d where t: "value_get ''tags'' v = Some (Array tags)"
    and f: "try_fold (pack_tag X limits kd pk) (buf0, 0, \<not> is_param_replaceable_kind kd) tags = Inr (buf1, ex, d)"
    and p: "packs p eid pk ca kd (if is_ephemeral_kind kd then 1 else ex)
      (virtual_d (is_replaceable_kind kd) @ payload_tags X tags @ virtual_d (is_param_replaceable_kind kd))"
    using pack_event_Inr [OF assms] by metis
  let ?own = "payload_tags X tags" and ?s = "scan_payload X v"
  have arr: "payload_arrays v = List.map_filter as_array tags" by (simp add: payload_arrays_def t)
  have s: "set (carried ?s) = set ?own" "address ?s = map_option snd (find is_d ?own)"
      "recipient ?s = map_option snd (find is_p ?own)"
    using scan_fold_good [where tags = tags and
        s = "\<lparr> carried = [], address = None, strfry_address = None, recipient = None \<rparr>",
        OF pack_tags_good [OF assms(1) f]]
    by (simp_all add: scan_payload_def arr Let_def)
  let ?ts = "virtual_d (is_replaceable_kind kd) @ ?own @ virtual_d (is_param_replaceable_kind kd)"
  let ?allow = "kd = 41 \<or> is_replaceable_kind kd \<or> is_param_replaceable_kind kd"
  have "(n = 0x64 \<and> w = [] \<and> ?allow) \<or> (n, w) \<in> set (carried ?s)" if "(n, w) \<in> set ?ts" for n w
    using that s(1) by (auto simp: virtual_d_def split: if_splits)
  then have "tag_list ?ts (\<lambda>n w l. packed_scan_cb ?allow (carried ?s) n w) (None, None, False) =
      (first_or None is_d ?ts, first_or None is_p ?ts, False)"
    by (rule packed_scan_run)
  then have walk: "foreach_tag (packed_scan_cb ?allow (carried ?s)) p (None, None, False) =
      (map_option snd (find is_d ?ts), map_option snd (find is_p ?ts), False)"
    by (simp add: foreach_tag_def packs_walk [OF p])
  have rp: "find is_p ?ts = find is_p ?own" by (simp add: find_append virtual_d_def split: option.split)
  have addr: "case expected_addresses kd ?s of None \<Rightarrow> True | Some (a, b) \<Rightarrow> map_option snd (find is_d ?ts) = Some b"
    using kind_classes_disjoint(1) [of kd]
    by (auto simp: expected_addresses_def s(2) find_append virtual_d_def split: option.split)
  obtain own where "strfry_expiration v = Inr own" "(case own of None \<Rightarrow> 0 | Some x \<Rightarrow> x) = ex"
    using strfry_expiration_packed [OF assms(1) t f] by blast
  then show ?thesis
    using walk addr rp s(3)
    by (auto simp: check_packed_tags_def packs_fields(4,5) [OF p] Let_def split: option.splits)
qed

theorem check_packed_tags_pack_event_witness:
  "check_packed_tags sample_ext sample_event_packed sample_event = Inr ()"
  by (rule check_packed_tags_pack_event [OF sample_ext_ok(1) sample_packs])

section \<open>Accepted events\<close>

lemma verify_nostr_event_with_Inr:
  "verify_nostr_event_with X p v Nip01Only = Inr () \<longleftrightarrow>
     event_id_hash X v = Inr (ev_id p) \<and>
     (\<exists>h sig. value_get ''sig'' v = Some (String h) \<and> length h = 128 \<and> from_lower_hex_array X 64 h = Inr sig \<and>
       verify_sig X sig (ev_id p) (ev_pubkey p) = Inr True)"
  by (auto simp: verify_nostr_event_with_def rbind_eq_Inr verify_id_iff get_field_def json_get_string_def
      ok_or_eq_Inr split: if_splits)

lemma accepted_parts:
  assumes "parse_and_verify_event X v limits (Some pol) True True = Inr e"
  obtains ex where "pack_event X v limits = Inr (pe_packed e, ex)" "normalize_event_json X v = Inr (pe_json e)"
    "length (pe_json e) \<le> max_event_size limits" "verify_event_timestamp (pe_packed e) pol = Inr ()"
    "ex = 0 \<or> now_secs pol < ex" "verify_nostr_event_with X (pe_packed e) v Nip01Only = Inr ()"
    "ev_kind (pe_packed e) = 5 \<Longrightarrow> require_canonical_addresses X v = Inr ()"
  using assms
  by (auto simp: parse_and_verify_event_def parse_and_verify_event_with_def rbind_eq_Inr not_le
      verify_event_json_size_def split: if_splits)

text \<open>C1: an event the relay accepts is authentic and within policy: its packed id is the NIP-01 hash
  of the JSON, its signature verifies against that id and the packed public key, the stored JSON is the
  normalized one and within the size limit, the time policy holds, and its NIP-40 expiration, if it has
  one, lies in the future even for an ephemeral kind.\<close>

theorem parse_and_verify_event_sound:
  assumes "hex_ok X" "parse_and_verify_event X v limits (Some pol) True True = Inr e"
  shows "event_id_hash X v = Inr (ev_id (pe_packed e)) \<and>
    (\<exists>h sig. value_get ''sig'' v = Some (String h) \<and> from_lower_hex_array X 64 h = Inr sig \<and>
       verify_schnorr X sig (ev_id (pe_packed e)) (ev_pubkey (pe_packed e))) \<and>
    normalize_event_json X v = Inr (pe_json e) \<and> length (pe_json e) \<le> max_event_size limits \<and>
    verify_event_timestamp (pe_packed e) pol = Inr () \<and>
    (case expiration_tag v of None \<Rightarrow> True | Some x \<Rightarrow> now_secs pol < x)"
proof -
  obtain ex where pk: "pack_event X v limits = Inr (pe_packed e, ex)"
    and ex: "ex = 0 \<or> now_secs pol < ex" and vn: "verify_nostr_event_with X (pe_packed e) v Nip01Only = Inr ()"
    and rest: "normalize_event_json X v = Inr (pe_json e)" "length (pe_json e) \<le> max_event_size limits"
      "verify_event_timestamp (pe_packed e) pol = Inr ()"
    using accepted_parts [OF assms(2)] by metis
  have "case expiration_tag v of None \<Rightarrow> True | Some x \<Rightarrow> now_secs pol < x"
    using ex expiration_packed [OF assms(1) pk] by (auto split: option.splits)
  with vn rest show ?thesis
    by (auto simp: verify_nostr_event_with_Inr verify_sig_def split: if_splits)
qed

definition sample_policy :: timestamp_policy where
  "sample_policy = \<lparr> now_secs = 150, reject_newer_than_secs = 1700000000, reject_older_than_secs = 0,
     reject_ephemeral_older_than_secs = 60 \<rparr>"

definition sample_parsed :: parsed_event where
  "sample_parsed = \<lparr> pe_packed = sample_event_packed, pe_json = write_tao (fmt_f64 sample_ext) sample_event \<rparr>"

lemma sample_packed_fields:
  "ev_id sample_event_packed = replicate 32 0xAA" "ev_pubkey sample_event_packed = replicate 32 0xAA"
  "ev_created_at sample_event_packed = 1700000000" "ev_kind sample_event_packed = 30023"
  "ev_expiration sample_event_packed = 200"
proof -
  have "packs sample_event_packed (replicate 32 0xAA) (replicate 32 0xAA) 1700000000 30023 200 [(0x64, [0x78]), (0x64, [])]"
    by (simp add: packs_def sample_event_packed_def tag_ok_def)
  from packs_fields(1-5) [OF this] show
    "ev_id sample_event_packed = replicate 32 0xAA" "ev_pubkey sample_event_packed = replicate 32 0xAA"
    "ev_created_at sample_event_packed = 1700000000" "ev_kind sample_event_packed = 30023"
    "ev_expiration sample_event_packed = 200" by simp_all
qed

lemma sample_accepted:
  "parse_and_verify_event sample_ext sample_event sample_limits (Some sample_policy) True True = Inr sample_parsed"
proof -
  have obj: "is_object sample_event" by (simp add: is_object_def sample_event_def)
  have del: "deletion_protection sample_event = Inr False"
    by (simp add: deletion_protection_def value_get_def sample_event_def named_tag_def scan_name_def)
  have time: "verify_event_timestamp sample_event_packed sample_policy = Inr ()"
    unfolding verify_event_timestamp_def sample_packed_fields
    by (simp add: sample_policy_def sat_sub_def sat_add_def Let_def)
  have sz: "verify_event_json_size (write_tao (fmt_f64 sample_ext) sample_event) (max_event_size sample_limits) = Inr ()"
    by (simp add: verify_event_json_size_def sample_limits_def)
  have sig: "from_lower_hex_array sample_ext 64 (replicate 128 0x61) = Inr (replicate 64 0xAA)"
    using hex_pairs_replicate [of 64]
    by (simp add: from_lower_hex_array_def sample_ext_def list_all_iff is_lower_hex_def)
  have "event_id_hash sample_ext sample_event = Inr (replicate 32 0xAA)"
    using sample_preimage by (simp add: event_id_hash_Inr sample_ext_def)
  then have ver: "verify_nostr_event_with sample_ext sample_event_packed sample_event Nip01Only = Inr ()"
    unfolding verify_nostr_event_with_Inr sample_packed_fields
    by (simp add: value_get_def sample_event_def sig verify_sig_def) (simp add: sample_ext_def)
  show ?thesis
    by (simp add: parse_and_verify_event_def parse_and_verify_event_with_def obj del sample_packs
        sample_packed_fields sample_normalizes sz time ver sample_parsed_def)
      (simp add: sample_policy_def)
qed

theorem parse_and_verify_event_sound_witness:
  "event_id_hash sample_ext sample_event = Inr (ev_id (pe_packed sample_parsed)) \<and>
   length (pe_json sample_parsed) \<le> max_event_size sample_limits"
  using parse_and_verify_event_sound [OF sample_ext_ok(1) sample_accepted] by blast

end
