(* ===== verification/Event_Npub.thy ===== *)
theory Event_Npub
  imports Event_Error Rust_Str
begin

text \<open>
  The bech32 form of public keys, \<open>wok-event/src/bech32.rs\<close>: the checksum, the decoder and the encoder of
  \<open>npub\<close> strings, and that the decoder accepts exactly what the encoder writes, in either case.
\<close>

unbundle bit_operations_syntax

section \<open>The code\<close>

definition CHARSET :: bytes where
  "CHARSET = str ''qpzry9x8gf2tvdw0s3jn54khce6mua7l''"

definition GEN :: "u32 list" where
  "GEN = [0x3b6a57b2, 0x26508e6d, 0x1ea119fa, 0x3d4233dd, 0x2a1462b3]"

definition polymod_step :: "u32 \<Rightarrow> u8 \<Rightarrow> u32" where
  "polymod_step chk v =
     (let top = drop_bit 25 chk in
      foldl (\<lambda>chk (i, g). if drop_bit i top AND 1 = 1 then chk XOR g else chk)
        (push_bit 5 (chk AND 0x1ffffff) XOR ucast v) (enumerate 0 GEN))"

definition polymod :: "bytes \<Rightarrow> u32" where
  "polymod vals = foldl polymod_step 1 vals"

definition charset_rev :: "u8 \<Rightarrow> event_error + u8" where
  "charset_rev c = (let p = length (takeWhile (\<lambda>x. x \<noteq> c) CHARSET) in
     if p < length CHARSET then Inr (as_u8 p) else Inl (event_error_msg ''invalid bech32 character''))"

definition is_ascii_lowercase :: "u8 \<Rightarrow> bool" where
  "is_ascii_lowercase b \<longleftrightarrow> 0x61 \<le> b \<and> b \<le> 0x7A"

definition is_ascii_uppercase :: "u8 \<Rightarrow> bool" where
  "is_ascii_uppercase b \<longleftrightarrow> 0x41 \<le> b \<and> b \<le> 0x5A"

definition to_ascii_lowercase :: "bytes \<Rightarrow> bytes" where
  "to_ascii_lowercase s = map (\<lambda>b. if is_ascii_uppercase b then b + 0x20 else b) s"

definition rposition :: "('a \<Rightarrow> bool) \<Rightarrow> 'a list \<Rightarrow> nat option" where
  "rposition P xs = (case dropWhile (\<lambda>x. \<not> P x) (rev xs) of [] \<Rightarrow> None | _ # before \<Rightarrow> Some (length before))"

text \<open>The values of the human-readable part that enter the checksum.\<close>

definition hrp_vals :: "bytes \<Rightarrow> bytes" where
  "hrp_vals hrp = map (\<lambda>c. drop_bit 5 c) hrp @ [0] @ map (\<lambda>c. c AND 31) hrp"

fun pop8 :: "u32 \<Rightarrow> nat \<Rightarrow> bytes \<Rightarrow> nat \<times> bytes" where
  "pop8 acc bits out =
     (if 8 \<le> bits then pop8 acc (bits - 8) (out @ [ucast (drop_bit (bits - 8) acc)]) else (bits, out))"

definition convert_5_to_8 :: "u32 \<times> nat \<times> bytes \<Rightarrow> u8 \<Rightarrow> u32 \<times> nat \<times> bytes" where
  "convert_5_to_8 = (\<lambda>(acc, bits, out) v. let acc' = push_bit 5 acc OR ucast v in (acc', pop8 acc' (bits + 5) out))"

definition decode_payload :: "bytes \<Rightarrow> event_error + bytes" where
  "decode_payload payload =
     (case foldl convert_5_to_8 (0, 0, []) payload of (acc, bits, out) \<Rightarrow>
        if 5 \<le> bits \<or> push_bit (8 - bits) acc AND 0xff \<noteq> 0 then Inl (event_error_msg ''convertbits failed'')
        else if length out \<noteq> 32 then Inl (event_error_msg ''unexpected size from bech32'')
        else Inr out)"

definition mixed_case :: "bytes \<Rightarrow> bool" where
  "mixed_case s \<longleftrightarrow> list_ex is_ascii_lowercase s \<and> list_ex is_ascii_uppercase s"

definition decode_npub :: "bytes \<Rightarrow> event_error + bytes" where
  "decode_npub input =
     (let e = event_error_msg ''invalid bech32'' in
      if 5000 < length input then Inl e
      else if mixed_case input then Inl e
      else let lb = to_ascii_lowercase input in
        rbind (ok_or e (rposition (\<lambda>c. c = 0x31) lb)) (\<lambda>pos.
        if pos = 0 \<or> length lb < pos + 7 then Inl e
        else let hrp = take pos lb in
          if hrp \<noteq> str ''npub'' then Inl e
          else rbind (try_fold (\<lambda>vals c. rbind (charset_rev c) (\<lambda>v. Inr (vals @ [v]))) (hrp_vals hrp) (drop (pos + 1) lb)) (\<lambda>vals.
            if polymod vals \<noteq> 1 then Inl e
            else decode_payload (slice (2 * length hrp + 1) (length vals - 6) vals))))"

fun pop5 :: "u32 \<Rightarrow> nat \<Rightarrow> bytes \<Rightarrow> nat \<times> bytes" where
  "pop5 acc bits out =
     (if 5 \<le> bits then pop5 acc (bits - 5) (out @ [ucast (drop_bit (bits - 5) acc AND 31)]) else (bits, out))"

definition convert_8_to_5 :: "u32 \<times> nat \<times> bytes \<Rightarrow> u8 \<Rightarrow> u32 \<times> nat \<times> bytes" where
  "convert_8_to_5 = (\<lambda>(acc, bits, out) byte. let acc' = push_bit 8 acc OR ucast byte in (acc', pop5 acc' (bits + 8) out))"

definition encode_payload :: "bytes \<Rightarrow> bytes" where
  "encode_payload pubkey =
     (case foldl convert_8_to_5 (0, 0, []) pubkey of (acc, bits, payload) \<Rightarrow>
        if 0 < bits then payload @ [ucast (push_bit (5 - bits) acc AND 31)] else payload)"

definition npub_checksum :: "bytes \<Rightarrow> u32" where
  "npub_checksum payload = polymod (hrp_vals (str ''npub'') @ payload @ replicate 6 0) XOR 1"

definition charset_at :: "u8 \<Rightarrow> u8" where
  "charset_at v = CHARSET ! unat v"

definition encode_npub :: "bytes \<Rightarrow> bytes" where
  "encode_npub pubkey =
     (let payload = encode_payload pubkey; checksum = npub_checksum payload in
      str ''npub1'' @ map charset_at payload @
      map (\<lambda>shift. CHARSET ! unat (drop_bit (shift * 5) checksum AND 31)) (rev [0..<6]))"

declare pop8.simps [simp del] pop5.simps [simp del]

section \<open>Regrouping bits\<close>

text \<open>The number a list of \<open>w\<close>-bit digits spells.\<close>

definition spelt :: "nat \<Rightarrow> bytes \<Rightarrow> nat" where
  "spelt w ds = foldl (\<lambda>r d. r * 2 ^ w + unat d) 0 ds"

lemma spelt_simps [simp]: "spelt w [] = 0" "spelt w (ds @ [d]) = spelt w ds * 2 ^ w + unat d"
  by (simp_all add: spelt_def)

lemma spelt_inject:
  assumes "length xs = length ys" "list_all (\<lambda>d. unat d < 2 ^ w) xs" "list_all (\<lambda>d. unat d < 2 ^ w) ys"
    "spelt w xs = spelt w ys"
  shows "xs = ys"
  using assms
proof (induction xs arbitrary: ys rule: rev_induct)
  case (snoc x xs)
  then obtain y zs where ys: "ys = zs @ [y]" by (cases ys rule: rev_cases) auto
  have eq: "spelt w xs * 2 ^ w + unat x = spelt w zs * 2 ^ w + unat y" and lt: "unat x < 2 ^ w" "unat y < 2 ^ w"
    using snoc.prems ys by simp_all
  have "spelt w xs = spelt w zs \<and> unat x = unat y"
    using lt arg_cong [OF eq, of "\<lambda>n. n div 2 ^ w"] arg_cong [OF eq, of "\<lambda>n. n mod 2 ^ w"] by simp
  then show ?case using snoc ys by (simp add: word_unat_eq_iff)
qed simp

lemma unat_low_bits: "unat (take_bit w (drop_bit n (of_nat N :: u32))) = N div 2 ^ n mod 2 ^ w" if "n + w \<le> 32"
proof -
  have "unat (take_bit w (drop_bit n (of_nat N :: u32))) = take_bit w (drop_bit n (take_bit 32 N))"
    by (simp add: unsigned_take_bit_eq unsigned_drop_bit_eq unsigned_of_nat)
  also have "\<dots> = take_bit w (drop_bit n N)"
    unfolding drop_bit_take_bit take_bit_take_bit using that by (simp add: min_absorb1)
  finally show ?thesis by (simp add: take_bit_eq_mod drop_bit_eq_div)
qed

lemma div_append_bits: "d < 2 ^ w \<Longrightarrow> (n * 2 ^ w + d) div 2 ^ (b + w) = n div 2 ^ b" for n d :: nat
  by (subst add.commute) (simp add: power_add div_mult2_eq)

lemma append_group:
  assumes "spelt w out = N div 2 ^ bits" "w \<le> bits" "unat d = N div 2 ^ (bits - w) mod 2 ^ w"
  shows "spelt w (out @ [d]) = N div 2 ^ (bits - w)"
proof -
  have "N div 2 ^ bits = N div 2 ^ (bits - w) div 2 ^ w"
    using assms(2) by (simp add: div_mult2_eq [symmetric] power_add [symmetric])
  then show ?thesis using assms div_mult_mod_eq [of "N div 2 ^ (bits - w)" "2 ^ w"] by simp
qed

lemma unat_digit:
  assumes "n + w \<le> 32" "w \<le> 8"
  shows "unat (ucast (take_bit w (drop_bit n (of_nat N :: u32))) :: u8) = N div 2 ^ n mod 2 ^ w"
proof -
  have "N div 2 ^ n mod 2 ^ w < 2 ^ 8"
    by (rule order_less_le_trans [OF mod_less_divisor]) (use power_increasing [OF assms(2), of "2 :: nat"] in auto)
  then show ?thesis using unat_low_bits [OF assms(1), of N] by (simp add: unsigned_ucast_eq take_bit_nat_eq_self)
qed

lemma pop8_spells:
  assumes "pop8 acc bits out = (bits', out')" "acc = of_nat N" "spelt 8 out = N div 2 ^ bits" "bits \<le> 32"
  shows "spelt 8 out' = N div 2 ^ bits' \<and> bits' = bits mod 8 \<and> 8 * length out' + bits' = 8 * length out + bits"
  using assms
proof (induction acc bits out rule: pop8.induct)
  case (1 acc bits out)
  define d where "d = (ucast (drop_bit (bits - 8) acc) :: u8)"
  show ?case
  proof (cases "8 \<le> bits")
    case True
    have "d = ucast (take_bit 8 (drop_bit (bits - 8) acc))" by (simp add: d_def bit_word_ucast_iff bit_eq_iff bit_take_bit_iff)
    then have s: "spelt 8 (out @ [d]) = N div 2 ^ (bits - 8)"
      using append_group [OF "1.prems"(3) True] unat_digit [of "bits - 8" 8 N] "1.prems"(2,4) True by simp
    have p: "pop8 acc (bits - 8) (out @ [d]) = (bits', out')"
      using "1.prems"(1) True by (subst (asm) pop8.simps) (simp add: d_def)
    have "spelt 8 out' = N div 2 ^ bits' \<and> bits' = (bits - 8) mod 8 \<and>
        8 * length out' + bits' = 8 * length (out @ [d]) + (bits - 8)"
      by (rule "1.IH" [OF True, folded d_def, OF p "1.prems"(2) s]) (use "1.prems"(4) in simp)
    moreover have "(bits - 8) mod 8 = bits mod 8" using True by (simp add: le_mod_geq)
    ultimately show ?thesis using True by auto
  next
    case False
    then show ?thesis using "1.prems" by (subst (asm) pop8.simps) auto
  qed
qed

lemma and_31: "x AND 31 = take_bit 5 x" for x :: u32
  by (simp add: take_bit_eq_mask mask_eq_exp_minus_1)

lemma pop5_spells:
  assumes "pop5 acc bits out = (bits', out')" "acc = of_nat N" "spelt 5 out = N div 2 ^ bits" "bits \<le> 32"
    "list_all (\<lambda>d. unat d < 2 ^ 5) out"
  shows "spelt 5 out' = N div 2 ^ bits' \<and> bits' = bits mod 5 \<and> 5 * length out' + bits' = 5 * length out + bits \<and>
    list_all (\<lambda>d. unat d < 2 ^ 5) out'"
  using assms
proof (induction acc bits out rule: pop5.induct)
  case (1 acc bits out)
  define d where "d = (ucast (drop_bit (bits - 5) acc AND 31) :: u8)"
  show ?case
  proof (cases "5 \<le> bits")
    case True
    then have d: "unat d = N div 2 ^ (bits - 5) mod 2 ^ 5"
      using unat_digit [of "bits - 5" 5 N] "1.prems"(2,4) by (simp add: d_def and_31)
    then have s: "spelt 5 (out @ [d]) = N div 2 ^ (bits - 5)" using append_group [OF "1.prems"(3) True] by simp
    have p: "pop5 acc (bits - 5) (out @ [d]) = (bits', out')"
      using "1.prems"(1) True by (subst (asm) pop5.simps) (simp add: d_def)
    have "unat d < 2 ^ 5" using d by simp
    then have l: "list_all (\<lambda>d. unat d < 2 ^ 5) (out @ [d])" using "1.prems"(5) by simp
    have "spelt 5 out' = N div 2 ^ bits' \<and> bits' = (bits - 5) mod 5 \<and>
        5 * length out' + bits' = 5 * length (out @ [d]) + (bits - 5) \<and>
        list_all (\<lambda>d. unat d < 2 ^ 5) out'"
      by (rule "1.IH" [OF True, folded d_def, OF p "1.prems"(2) s _ l]) (use "1.prems"(4) in simp)
    moreover have "(bits - 5) mod 5 = bits mod 5" using True by (simp add: le_mod_geq)
    ultimately show ?thesis using True by auto
  next
    case False
    then show ?thesis using "1.prems" by (subst (asm) pop5.simps) auto
  qed
qed

lemma convert_5_to_8_step:
  "convert_5_to_8 (a, b, o1) v = (acc, bits, out) \<longleftrightarrow> acc = push_bit 5 a OR ucast v \<and> pop8 acc (b + 5) o1 = (bits, out)"
  by (auto simp: convert_5_to_8_def Let_def)

lemma convert_5_to_8_spells:
  assumes "foldl convert_5_to_8 (0, 0, []) ps = (acc, bits, out)" "list_all (\<lambda>d. unat d < 2 ^ 5) ps"
  shows "acc = of_nat (spelt 5 ps) \<and> bits < 8 \<and> spelt 8 out = spelt 5 ps div 2 ^ bits \<and> 8 * length out + bits = 5 * length ps"
  using assms
proof (induction ps arbitrary: acc bits out rule: rev_induct)
  case (snoc v ps)
  obtain a b o1 where f: "foldl convert_5_to_8 (0, 0, []) ps = (a, b, o1)" by (metis surj_pair)
  note IH = snoc.IH [OF f] snoc.prems(2)
  have acc: "acc = of_nat (spelt 5 (ps @ [v]))" and pop: "pop8 acc (b + 5) o1 = (bits, out)"
    using snoc.prems f IH append_bits [of v 5 "spelt 5 ps"] by (auto simp: convert_5_to_8_step)
  have "spelt 8 o1 = spelt 5 (ps @ [v]) div 2 ^ (b + 5)"
    using IH div_append_bits [of "unat v" 5 "spelt 5 ps" b] by simp
  then show ?case using pop8_spells [OF pop acc] IH acc by simp
qed simp

lemma convert_8_to_5_step:
  "convert_8_to_5 (a, b, o1) v = (acc, bits, out) \<longleftrightarrow> acc = push_bit 8 a OR ucast v \<and> pop5 acc (b + 8) o1 = (bits, out)"
  by (auto simp: convert_8_to_5_def Let_def)

lemma convert_8_to_5_spells:
  assumes "foldl convert_8_to_5 (0, 0, []) bs = (acc, bits, out)"
  shows "acc = of_nat (spelt 8 bs) \<and> bits < 5 \<and> spelt 5 out = spelt 8 bs div 2 ^ bits \<and> 5 * length out + bits = 8 * length bs \<and>
    list_all (\<lambda>d. unat d < 2 ^ 5) out"
  using assms
proof (induction bs arbitrary: acc bits out rule: rev_induct)
  case (snoc v bs)
  obtain a b o1 where f: "foldl convert_8_to_5 (0, 0, []) bs = (a, b, o1)" by (metis surj_pair)
  note IH = snoc.IH [OF f]
  have v: "unat v < 2 ^ 8" using unsigned_less [of v, where 'a = nat] by simp
  have acc: "acc = of_nat (spelt 8 (bs @ [v]))" and pop: "pop5 acc (b + 8) o1 = (bits, out)"
    using snoc.prems f IH append_bits [OF v, of "spelt 8 bs"] by (auto simp: convert_8_to_5_step)
  have "spelt 5 o1 = spelt 8 (bs @ [v]) div 2 ^ (b + 8)"
    using IH div_append_bits [OF v, of "spelt 8 bs" b] by simp
  then show ?case using pop5_spells [OF pop acc] IH acc by simp
qed simp

section \<open>Payloads\<close>

lemma encode_payload_spells:
  assumes "length pk = 32"
  shows "length (encode_payload pk) = 52" "list_all (\<lambda>d. unat d < 2 ^ 5) (encode_payload pk)"
    "spelt 5 (encode_payload pk) = spelt 8 pk * 16"
proof -
  obtain acc bits out where f: "foldl convert_8_to_5 (0, 0, []) pk = (acc, bits, out)" by (metis surj_pair)
  note c = convert_8_to_5_spells [OF f]
  have "5 * length out + bits = 256" "bits < 5" using c assms by simp_all
  then have l: "bits = 1" "length out = 51" by presburger+
  define d where "d = (ucast (push_bit 4 acc AND 31) :: u8)"
  have e: "encode_payload pk = out @ [d]" using f l by (simp add: encode_payload_def d_def)
  have "push_bit 4 acc = of_nat (spelt 8 pk * 16)" using c by (simp add: push_bit_eq_mult)
  then have d: "unat d = spelt 8 pk * 16 mod 32" using unat_digit [of 0 5 "spelt 8 pk * 16"] by (simp add: d_def and_31)
  have "spelt 8 pk div 2 * 32 + spelt 8 pk * 16 mod 32 = spelt 8 pk * 16" by presburger
  then show "spelt 5 (encode_payload pk) = spelt 8 pk * 16" using c l d by (simp add: e)
  show "length (encode_payload pk) = 52" "list_all (\<lambda>d. unat d < 2 ^ 5) (encode_payload pk)"
    using c l d by (simp_all add: e)
qed

lemma decode_payload_iff:
  assumes "list_all (\<lambda>d. unat d < 2 ^ 5) ps"
  shows "decode_payload ps = Inr pk \<longleftrightarrow> length pk = 32 \<and> ps = encode_payload pk"
proof -
  obtain acc bits out where f: "foldl convert_5_to_8 (0, 0, []) ps = (acc, bits, out)" by (metis surj_pair)
  note c = convert_5_to_8_spells [OF f assms]
  have low: "push_bit (8 - bits) acc AND 0xff = 0 \<longleftrightarrow> spelt 5 ps mod 2 ^ bits = 0"
  proof -
    have "push_bit (8 - bits) acc AND 0xff = take_bit 8 (drop_bit 0 (of_nat (spelt 5 ps * 2 ^ (8 - bits))))"
      using c by (simp add: take_bit_eq_mask mask_eq_exp_minus_1 push_bit_eq_mult)
    then have "push_bit (8 - bits) acc AND 0xff = 0 \<longleftrightarrow> spelt 5 ps * 2 ^ (8 - bits) mod 2 ^ 8 = 0"
      using unat_low_bits [of 0 8 "spelt 5 ps * 2 ^ (8 - bits)"] by (simp add: word_unat_eq_iff)
    also have "(2 :: nat) ^ 8 = 2 ^ bits * 2 ^ (8 - bits)" using c by (simp add: power_add [symmetric])
    also have "spelt 5 ps * 2 ^ (8 - bits) mod (2 ^ bits * 2 ^ (8 - bits)) = (spelt 5 ps mod 2 ^ bits) * 2 ^ (8 - bits)"
      by (simp only: mult_mod_left)
    finally show ?thesis by simp
  qed
  have eq: "ps = encode_payload pk \<longleftrightarrow> length ps = 52 \<and> spelt 5 ps = spelt 8 pk * 16" if "length pk = 32" for pk
    using encode_payload_spells [OF that] spelt_inject [OF _ assms] by metis
  have out: "out = pk \<longleftrightarrow> spelt 8 out = spelt 8 pk" if "length out = length pk" for pk
    using spelt_inject [OF that, of 8] unsigned_less [where 'b = 8 and 'a = nat] by (auto simp: list_all_iff)
  show ?thesis
  proof
    assume "decode_payload ps = Inr pk"
    then have d: "bits < 5" "spelt 5 ps mod 2 ^ bits = 0" "length out = 32" "out = pk"
      using f low by (auto simp: decode_payload_def split: if_splits)
    then have "256 + bits = 5 * length ps" using c by simp
    then have b: "bits = 4" "length ps = 52" using d(1) by presburger+
    have "spelt 8 pk = spelt 5 ps div 2 ^ 4" "spelt 5 ps mod 2 ^ 4 = 0" using c d(2,4) unfolding b(1) by blast+
    then have "spelt 5 ps = spelt 8 pk * 16" by simp presburger
    then show "length pk = 32 \<and> ps = encode_payload pk" using eq b d by simp
  next
    assume r: "length pk = 32 \<and> ps = encode_payload pk"
    then have s: "length ps = 52" "spelt 5 ps = spelt 8 pk * 16" using eq by blast+
    then have "8 * length out + bits = 260" "bits < 8" using c by simp_all
    then have b: "bits = 4" "length out = 32" by presburger+
    have "spelt 8 out = spelt 5 ps div 2 ^ 4" using c unfolding b(1) by blast
    then have "out = pk" using out [of pk] b(2) s(2) r by simp
    then show "decode_payload ps = Inr pk" using f low b s by (simp add: decode_payload_def)
  qed
qed

section \<open>The checksum\<close>

text \<open>The checksum step as exclusive sums, and its linearity.\<close>

definition gated :: "bool \<Rightarrow> u32 \<Rightarrow> u32" where
  "gated p g = (if p then g else 0)"

lemma polymod_step_sums:
  "polymod_step chk v = push_bit 5 (chk AND 0x1ffffff) XOR ucast v XOR gated (bit chk 25) 0x3b6a57b2 XOR gated (bit chk 26) 0x26508e6d XOR
     gated (bit chk 27) 0x1ea119fa XOR gated (bit chk 28) 0x3d4233dd XOR gated (bit chk 29) 0x2a1462b3"
proof -
  have "drop_bit i x AND 1 = 1 \<longleftrightarrow> bit x i" for i and x :: u32
    by (simp add: and_one_eq odd_iff_mod_2_eq_one [symmetric] bit_iff_odd_drop_bit)
  moreover have "(if p then x XOR g else x) = x XOR gated p g" for p g and x :: u32
    by (simp add: gated_def)
  ultimately show ?thesis by (simp add: polymod_step_def Let_def GEN_def bit_drop_bit_eq xor.assoc)
qed

lemma gated_xor: "gated (p = (\<not> q)) g = gated p g XOR gated q g"
  by (simp add: gated_def)

lemma polymod_step_linear: "polymod_step (a XOR b) (v XOR w) = polymod_step a v XOR polymod_step b w"
proof -
  have "push_bit 5 ((a XOR b) AND 0x1ffffff) = push_bit 5 (a AND 0x1ffffff) XOR push_bit 5 (b AND 0x1ffffff)"
    by (simp add: bit_eq_iff bit_push_bit_iff bit_and_iff bit_xor_iff) blast
  moreover have "(ucast (v XOR w) :: u32) = ucast v XOR ucast w" by (simp add: unsigned_xor_eq)
  ultimately show ?thesis by (simp add: polymod_step_sums bit_xor_iff gated_xor ac_simps)
qed

lemma foldl_polymod_linear:
  assumes "length vs = length ws"
  shows "foldl polymod_step (a XOR b) (map2 (XOR) vs ws) = foldl polymod_step a vs XOR foldl polymod_step b ws"
  using assms by (induction vs ws arbitrary: a b rule: list_induct2) (simp_all add: polymod_step_linear)

lemma foldl_polymod_split: "foldl polymod_step c ws = foldl polymod_step c (replicate (length ws) 0) XOR foldl polymod_step 0 ws"
proof -
  have "map2 (XOR) (replicate (length ws) 0) ws = ws" by (induction ws) simp_all
  then show ?thesis using foldl_polymod_linear [of "replicate (length ws) 0" ws c 0] by simp
qed

text \<open>Up to six values of five bits are not reduced.\<close>

lemma polymod_step_small:
  assumes "N < 2 ^ 25" "unat v < 2 ^ 5"
  shows "polymod_step (of_nat N) v = of_nat (N * 2 ^ 5 + unat v)"
proof -
  have n: "take_bit 25 (of_nat N :: u32) = of_nat N"
    using assms(1) by (simp add: word_unat_eq_iff unsigned_take_bit_eq unsigned_of_nat take_bit_nat_eq_self)
  then have "\<not> bit (of_nat N :: u32) k" if "25 \<le> k" for k
    using that by (metis bit_take_bit_iff leD)
  moreover have "(of_nat N :: u32) AND 0x1ffffff = of_nat N"
    using n by (simp add: take_bit_eq_mask mask_eq_exp_minus_1)
  ultimately show ?thesis
    using append_bits [OF assms(2), of N, where 'a = 32] disjoint_bits [OF assms(2), of "of_nat N :: u32"]
    by (simp add: polymod_step_sums gated_def disjunctive_xor_eq_or)
qed

lemma polymod_bound: "unat (polymod_step chk v) < 2 ^ 30"
proof -
  have "take_bit 30 (polymod_step chk v) = polymod_step chk v"
  proof -
    have "take_bit 30 (gated p g) = gated p g" if "take_bit 30 g = g" for p and g :: u32
      using that by (simp add: gated_def)
    moreover have "take_bit 30 (push_bit 5 (chk AND 0x1ffffff)) = push_bit 5 (chk AND 0x1ffffff)"
      by (simp add: take_bit_push_bit) (simp add: take_bit_eq_mask mask_eq_exp_minus_1 and.assoc)
    moreover have "take_bit 30 (ucast v :: u32) = ucast v"
      by (rule bit_word_eqI) (auto simp: bit_take_bit_iff bit_ucast_iff dest: bit_imp_le_length)
    ultimately show ?thesis by (simp add: polymod_step_sums)
  qed
  then show ?thesis by (metis unsigned_take_bit_eq take_bit_nat_less_exp)
qed

lemma foldl_polymod_small:
  assumes "list_all (\<lambda>d. unat d < 2 ^ 5) ws" "length ws \<le> 6"
  shows "foldl polymod_step 0 ws = of_nat (spelt 5 ws)" "spelt 5 ws < 2 ^ (5 * length ws)"
  using assms
proof (induction ws rule: rev_induct)
  case (snoc w ws)
  {
    case 1
    have "spelt 5 ws < 2 ^ 25"
      using snoc(2) 1 power_increasing [of "5 * length ws" 25 "2 :: nat"] by fastforce
    then show ?case using snoc 1 polymod_step_small [of "spelt 5 ws" w] by simp
  next
    case 2
    then have "spelt 5 ws < 2 ^ (5 * length ws)" "unat w < 32" using snoc(2) by simp_all
    then show ?case by (simp add: power_add)
  }
qed simp_all

text \<open>The six values that complete a checksum.\<close>

definition checksum_digits :: "u32 \<Rightarrow> bytes" where
  "checksum_digits checksum = map (\<lambda>shift. ucast (drop_bit (shift * 5) checksum AND 31)) (rev [0..<6])"

lemma checksum_digits_spell:
  assumes "unat c < 2 ^ 30"
  shows "spelt 5 (checksum_digits c) = unat c" "length (checksum_digits c) = 6"
    "list_all (\<lambda>d. unat d < 2 ^ 5) (checksum_digits c)"
proof -
  define digit :: "nat \<Rightarrow> u8" where "digit shift = ucast (drop_bit (shift * 5) c AND 31)" for shift
  have d: "unat (digit k) = unat c div 2 ^ (k * 5) mod 2 ^ 5" if "k < 6" for k
    using unat_digit [of "k * 5" 5 "unat c"] that by (simp add: digit_def and_31)
  have "spelt 5 (map digit (rev [6 - j..<6])) = unat c div 2 ^ ((6 - j) * 5)" if "j \<le> 6" for j
    using that
  proof (induction j)
    case (Suc j)
    have e: "6 - Suc j < 6" "Suc (6 - Suc j) = 6 - j" using Suc.prems by arith+
    then have k: "[6 - Suc j..<6] = (6 - Suc j) # [6 - j..<6]" using upt_conv_Cons [OF e(1)] by metis
    have b: "(6 - j) * 5 - 5 = (6 - Suc j) * 5" "5 \<le> (6 - j) * 5" using Suc.prems by simp_all
    have "spelt 5 (map digit (rev [6 - j..<6]) @ [digit (6 - Suc j)]) = unat c div 2 ^ ((6 - j) * 5 - 5)"
      by (rule append_group [OF Suc.IH b(2)]) (use Suc.prems d [OF e(1)] in \<open>simp_all only: b(1)\<close>)
    then show ?case unfolding k b(1) by simp
  qed (use assms in simp)
  from this [of 6] show "spelt 5 (checksum_digits c) = unat c"
    by (simp add: checksum_digits_def digit_def [abs_def])
  show "length (checksum_digits c) = 6" "list_all (\<lambda>d. unat d < 2 ^ 5) (checksum_digits c)"
    using d by (auto simp: checksum_digits_def list_all_iff simp flip: digit_def)
qed

lemma xor_cancel: "x XOR y = z \<longleftrightarrow> y = x XOR z" for x y z :: u32
  by (auto simp: bit_eq_iff bit_xor_iff)

lemma checksum_bound: "unat (polymod (xs @ replicate 6 0) XOR 1) < 2 ^ 30"
proof -
  have "polymod_step 0 1 = 1" by (simp add: polymod_step_sums gated_def)
  moreover have "polymod (xs @ replicate 6 0) = polymod_step (foldl polymod_step (polymod xs) (replicate 5 0)) 0"
    by (simp add: polymod_def numeral_eq_Suc)
  ultimately have "polymod (xs @ replicate 6 0) XOR 1 = polymod_step (foldl polymod_step (polymod xs) (replicate 5 0)) 1"
    using polymod_step_linear [of "foldl polymod_step (polymod xs) (replicate 5 0)" 0 0 1] by simp
  then show ?thesis using polymod_bound by simp
qed

lemma checksum_complete:
  assumes "list_all (\<lambda>d. unat d < 2 ^ 5) cs" "length cs = 6"
  shows "polymod (xs @ cs) = 1 \<longleftrightarrow> cs = checksum_digits (polymod (xs @ replicate 6 0) XOR 1)"
proof -
  define A where "A = polymod (xs @ replicate 6 0)"
  have lt: "unat (A XOR 1) < 2 ^ 30" unfolding A_def by (rule checksum_bound)
  have small: "foldl polymod_step 0 cs = of_nat (spelt 5 cs)" "spelt 5 cs < 2 ^ 30"
    using foldl_polymod_small [OF assms(1)] assms(2) by simp_all
  have "polymod (xs @ cs) = A XOR of_nat (spelt 5 cs)"
    using foldl_polymod_split [of "polymod xs" cs] small assms(2) by (simp add: A_def polymod_def)
  then have "polymod (xs @ cs) = 1 \<longleftrightarrow> of_nat (spelt 5 cs) = A XOR 1"
    using xor_cancel [of A "of_nat (spelt 5 cs)" 1] by simp
  also have "\<dots> \<longleftrightarrow> spelt 5 cs = unat (A XOR 1)"
    using small(2) by (auto simp: word_unat_eq_iff unsigned_of_nat take_bit_nat_eq_self)
  also have "\<dots> \<longleftrightarrow> cs = checksum_digits (A XOR 1)"
    using checksum_digits_spell [OF lt] spelt_inject [of cs "checksum_digits (A XOR 1)" 5] assms by metis
  finally show ?thesis by (simp add: A_def)
qed

section \<open>Characters\<close>

lemma distinct_CHARSET: "distinct CHARSET" "length CHARSET = 32" "0x31 \<notin> set CHARSET"
  by (simp_all add: CHARSET_def)

lemma charset_rev_iff: "charset_rev c = Inr v \<longleftrightarrow> unat v < 2 ^ 5 \<and> c = charset_at v"
proof
  assume r: "charset_rev c = Inr v"
  define p where "p = length (takeWhile (\<lambda>x. x \<noteq> c) CHARSET)"
  have p: "p < 32" "v = as_u8 p" using r by (auto simp: charset_rev_def p_def Let_def distinct_CHARSET split: if_splits)
  then have "CHARSET ! p = c" using nth_length_takeWhile [of "\<lambda>x. x \<noteq> c" CHARSET] by (simp add: p_def distinct_CHARSET)
  then show "unat v < 2 ^ 5 \<and> c = charset_at v" using p by (simp add: charset_at_def unat_as_u8)
next
  assume r: "unat v < 2 ^ 5 \<and> c = charset_at v"
  have "length (takeWhile (\<lambda>x. x \<noteq> CHARSET ! unat v) CHARSET) = unat v"
    by (rule length_takeWhile_eq_boundary) (use r distinct_CHARSET in \<open>auto simp: nth_eq_iff_index_eq\<close>)
  then show "charset_rev c = Inr v" using r by (simp add: charset_rev_def charset_at_def distinct_CHARSET)
qed

lemma charset_fold_iff:
  "try_fold (\<lambda>vals c. rbind (charset_rev c) (\<lambda>v. Inr (vals @ [v]))) vs cs = Inr vs' \<longleftrightarrow>
     (\<exists>ws. vs' = vs @ ws \<and> cs = map charset_at ws \<and> list_all (\<lambda>d. unat d < 2 ^ 5) ws)"
proof (induction cs arbitrary: vs)
  case (Cons c cs)
  have "(\<exists>ws. vs' = vs @ ws \<and> c # cs = map charset_at ws \<and> list_all (\<lambda>d. unat d < 2 ^ 5) ws) \<longleftrightarrow>
      (\<exists>w ws. vs' = (vs @ [w]) @ ws \<and> c = charset_at w \<and> unat w < 2 ^ 5 \<and> cs = map charset_at ws \<and> list_all (\<lambda>d. unat d < 2 ^ 5) ws)"
    by (auto simp: Cons_eq_map_conv)
  then show ?case using Cons.IH by (auto simp: rbind_eq_Inr charset_rev_iff)
qed auto

lemma rposition_last: "P x \<Longrightarrow> \<not> list_ex P ys \<Longrightarrow> rposition P (xs @ x # ys) = Some (length xs)"
proof -
  assume x: "P x" and ys: "\<not> list_ex P ys"
  have "dropWhile (\<lambda>x. \<not> P x) (rev ys @ x # rev xs) = x # rev xs"
    using x ys by (subst dropWhile_append2) (auto simp: list_ex_iff)
  then show ?thesis by (simp add: rposition_def)
qed

lemma rposition_Some: "rposition P xs = Some n \<Longrightarrow> n < length xs \<and> P (xs ! n)"
proof (induction xs rule: rev_induct)
  case (snoc x xs)
  then show ?case by (auto simp: rposition_def nth_append split: if_splits list.splits)
qed (simp add: rposition_def)

lemma charset_at_mem: "unat v < 2 ^ 5 \<Longrightarrow> charset_at v \<in> set CHARSET"
  by (simp add: charset_at_def distinct_CHARSET)

lemma charset_at_not_one: "list_all (\<lambda>d. unat d < 2 ^ 5) ws \<Longrightarrow> \<not> list_ex (\<lambda>c. c = 0x31) (map charset_at ws)"
  using charset_at_mem distinct_CHARSET(3) by (fastforce simp: list_ex_iff list_all_iff)

lemma encode_npub_digits:
  "encode_npub pk = str ''npub1'' @ map charset_at (encode_payload pk @ checksum_digits (npub_checksum (encode_payload pk)))"
proof -
  have "unat (ucast (drop_bit n x AND 31) :: u8) = unat (drop_bit n x AND 31)" for n and x :: u32
  proof -
    have "unat (take_bit 5 (drop_bit n x)) < 2 ^ 8"
      using take_bit_nat_less_exp [of 5 "unat (drop_bit n x)"] by (simp add: unsigned_take_bit_eq)
    then show ?thesis by (simp add: and_31 unsigned_ucast_eq take_bit_nat_eq_self)
  qed
  then show ?thesis by (simp add: encode_npub_def Let_def checksum_digits_def charset_at_def)
qed

text \<open>What the decoder reads, in terms of the digits.\<close>

lemma payload_slice:
  "6 \<le> length ws \<Longrightarrow> slice (2 * length hrp + 1) (length (hrp_vals hrp @ ws) - 6) (hrp_vals hrp @ ws) = take (length ws - 6) ws"
  by (simp add: slice_def hrp_vals_def)

lemma decode_npub_digits:
  "decode_npub s = Inr pk \<longleftrightarrow> length s \<le> 5000 \<and> \<not> mixed_case s \<and>
     (\<exists>ws. to_ascii_lowercase s = str ''npub1'' @ map charset_at ws \<and> list_all (\<lambda>d. unat d < 2 ^ 5) ws \<and> 6 \<le> length ws \<and>
        polymod (hrp_vals (str ''npub'') @ ws) = 1 \<and> decode_payload (take (length ws - 6) ws) = Inr pk)"
    (is "_ \<longleftrightarrow> _ \<and> _ \<and> (\<exists>ws. ?reads ws)")
proof -
  define lb where "lb = to_ascii_lowercase s"
  define fold where "fold = try_fold (\<lambda>vals c. rbind (charset_rev c) (\<lambda>v. Inr (vals @ [v])))"
  define finish where "finish vals = (if polymod vals \<noteq> 1 then Inl (event_error_msg ''invalid bech32'')
    else decode_payload (slice (2 * length (str ''npub'') + 1) (length vals - 6) vals))" for vals
  have code: "decode_npub s = Inr pk \<longleftrightarrow> length s \<le> 5000 \<and> \<not> mixed_case s \<and>
      (\<exists>pos. rposition (\<lambda>c. c = 0x31) lb = Some pos \<and> pos \<noteq> 0 \<and> pos + 7 \<le> length lb \<and> take pos lb = str ''npub'' \<and>
         (\<exists>vals. fold (hrp_vals (str ''npub'')) (drop (pos + 1) lb) = Inr vals \<and> finish vals = Inr pk))"
    by (auto simp: decode_npub_def Let_def rbind_eq_Inr ok_or_eq_Inr lb_def fold_def finish_def not_less)
  have fin: "finish (hrp_vals (str ''npub'') @ ws) = Inr pk \<longleftrightarrow>
      polymod (hrp_vals (str ''npub'') @ ws) = 1 \<and> decode_payload (take (length ws - 6) ws) = Inr pk" if "6 \<le> length ws" for ws
    using payload_slice [OF that, of "str ''npub''"] by (simp add: finish_def)
  show ?thesis
  proof
    assume "decode_npub s = Inr pk"
    then obtain pos vals where s: "length s \<le> 5000" "\<not> mixed_case s" "rposition (\<lambda>c. c = 0x31) lb = Some pos" "take pos lb = str ''npub''"
        "pos + 7 \<le> length lb" and v: "fold (hrp_vals (str ''npub'')) (drop (pos + 1) lb) = Inr vals" "finish vals = Inr pk"
      unfolding code by blast
    then have pos: "pos = 4" by (auto dest: arg_cong [of _ _ length])
    then have lb: "lb = str ''npub1'' @ drop 5 lb"
      using s rposition_Some [OF s(3)] id_take_nth_drop [of 4 lb] by simp
    obtain ws where w: "vals = hrp_vals (str ''npub'') @ ws" "drop 5 lb = map charset_at ws" "list_all (\<lambda>d. unat d < 2 ^ 5) ws"
      using v(1) pos by (auto simp: fold_def charset_fold_iff)
    have "6 \<le> length ws" using s(5) pos arg_cong [OF w(2), of length] by simp
    then have "?reads ws" using lb w v(2) fin [of ws] by (simp add: lb_def)
    then show "length s \<le> 5000 \<and> \<not> mixed_case s \<and> (\<exists>ws. ?reads ws)" using s by blast
  next
    assume r: "length s \<le> 5000 \<and> \<not> mixed_case s \<and> (\<exists>ws. ?reads ws)"
    then obtain ws where w: "?reads ws" by blast
    then have lb: "lb = str ''npub'' @ 0x31 # map charset_at ws" by (simp add: lb_def)
    have "rposition (\<lambda>c. c = 0x31) lb = Some 4"
      using rposition_last [of "\<lambda>c. c = 0x31" "0x31" "map charset_at ws" "str ''npub''"] charset_at_not_one w lb by simp
    moreover have "fold (hrp_vals (str ''npub'')) (drop (4 + 1) lb) = Inr (hrp_vals (str ''npub'') @ ws)"
      using w by (auto simp: fold_def charset_fold_iff lb)
    ultimately show "decode_npub s = Inr pk" unfolding code using r w fin [of ws] lb by (intro conjI exI [of _ 4]) auto
  qed
qed

section \<open>Properties\<close>

lemma npub_digits_iff:
  "list_all (\<lambda>d. unat d < 2 ^ 5) ws \<and> 6 \<le> length ws \<and> polymod (hrp_vals (str ''npub'') @ ws) = 1 \<and>
     decode_payload (take (length ws - 6) ws) = Inr pk \<longleftrightarrow>
   length pk = 32 \<and> ws = encode_payload pk @ checksum_digits (npub_checksum (encode_payload pk))"
    (is "?l \<longleftrightarrow> ?r")
proof -
  define H where "H = hrp_vals (str ''npub'')"
  have sum: "polymod (H @ ps @ cs) = 1 \<longleftrightarrow> cs = checksum_digits (npub_checksum ps)"
    if "list_all (\<lambda>d. unat d < 2 ^ 5) cs" "length cs = 6" for ps cs
    using checksum_complete [OF that, of "H @ ps"] by (simp add: npub_checksum_def H_def)
  have digits: "list_all (\<lambda>d. unat d < 2 ^ 5) (checksum_digits (npub_checksum ps))" "length (checksum_digits (npub_checksum ps)) = 6" for ps
    using checksum_digits_spell(2,3) [OF checksum_bound [of "H @ ps"]] by (simp_all add: npub_checksum_def H_def)
  show ?thesis
  proof
    assume l: ?l
    define ps cs where "ps = take (length ws - 6) ws" and "cs = drop (length ws - 6) ws"
    have ws: "ws = ps @ cs" "length cs = 6" using l by (simp_all add: ps_def cs_def)
    then have b: "list_all (\<lambda>d. unat d < 2 ^ 5) ps" "list_all (\<lambda>d. unat d < 2 ^ 5) cs" using l by simp_all
    have "length pk = 32 \<and> ps = encode_payload pk" using l decode_payload_iff [OF b(1), of pk] by (simp add: ps_def)
    moreover have "cs = checksum_digits (npub_checksum ps)" using l sum [OF b(2) ws(2)] by (simp add: ws H_def)
    ultimately show ?r using ws by simp
  next
    assume r: ?r
    define cs where "cs = checksum_digits (npub_checksum (encode_payload pk))"
    have cs: "list_all (\<lambda>d. unat d < 2 ^ 5) cs" "length cs = 6" using digits by (simp_all add: cs_def)
    have "polymod (H @ encode_payload pk @ cs) = 1" using sum [OF cs] by (simp add: cs_def)
    then show ?l
      using r cs encode_payload_spells(2) [of pk] decode_payload_iff [of "encode_payload pk" pk] by (simp add: H_def cs_def [symmetric])
  qed
qed

text \<open>C16: the decoder of \<open>npub\<close> strings accepts exactly the spellings of a 32-byte key the encoder writes, in lower
  case or in upper case throughout, and returns the key; so a key has one spelling up to case, and every string
  with another prefix, checksum, length or padding is refused.\<close>

theorem decode_npub_iff:
  "decode_npub s = Inr pk \<longleftrightarrow> length pk = 32 \<and> to_ascii_lowercase s = encode_npub pk \<and> \<not> mixed_case s"
proof -
  have "length s \<le> 5000" if "length pk = 32" "to_ascii_lowercase s = encode_npub pk"
    using arg_cong [OF that(2), of length] that(1)
    by (simp add: to_ascii_lowercase_def encode_npub_digits encode_payload_spells checksum_digits_def)
  then show ?thesis
    unfolding decode_npub_digits using npub_digits_iff [of _ pk] encode_npub_digits [of pk] by metis
qed

lemma polymod_step_zero: "polymod_step z 0 = 0 \<Longrightarrow> unat z < 2 ^ 30 \<Longrightarrow> z = 0"
proof -
  assume z: "polymod_step z 0 = 0" "unat z < 2 ^ 30"
  have g: "take_bit 5 (gated p g) = gated p (take_bit 5 g)" for p g by (simp add: gated_def)
  have "take_bit 5 (polymod_step z 0) = gated (bit z 25) 0x12 XOR gated (bit z 26) 0x0d XOR gated (bit z 27) 0x1a XOR
      gated (bit z 28) 0x1d XOR gated (bit z 29) 0x13"
    by (simp add: polymod_step_sums g take_bit_push_bit del: push_bit_and)
  then have top: "\<not> bit z 25" "\<not> bit z 26" "\<not> bit z 27" "\<not> bit z 28" "\<not> bit z 29"
    using z(1) by (auto simp: gated_def split: if_splits)
  have t: "z AND 0x1ffffff = take_bit 25 z" by (simp add: take_bit_eq_mask mask_eq_exp_minus_1)
  have "push_bit 5 (take_bit 25 z) = 0" using z(1) top by (simp add: polymod_step_sums t gated_def)
  then have low: "\<not> bit z n" if "n < 25" for n
    using that by (auto simp: bit_eq_iff bit_push_bit_iff bit_take_bit_iff dest: spec [of _ "n + 5"])
  have "take_bit 30 z = z" using z(2) by (simp add: word_unat_eq_iff unsigned_take_bit_eq take_bit_nat_eq_self)
  then have high: "\<not> bit z n" if "30 \<le> n" for n using that by (metis bit_take_bit_iff leD)
  have "\<not> bit z n" for n
  proof -
    consider "n < 25" | "n \<in> {25, 26, 27, 28, 29}" | "30 \<le> n" by fastforce
    then show ?thesis using low top high by cases auto
  qed
  then show ?thesis by (simp add: bit_eq_iff)
qed

lemma foldl_polymod_nonzero: "z \<noteq> 0 \<Longrightarrow> unat z < 2 ^ 30 \<Longrightarrow> foldl polymod_step z (replicate k 0) \<noteq> 0"
proof (induction k arbitrary: z)
  case (Suc k)
  then have "polymod_step z 0 \<noteq> 0" using polymod_step_zero by blast
  then show ?case using Suc.IH polymod_bound by simp
qed simp

lemma charset_at_inject: "unat v < 2 ^ 5 \<Longrightarrow> unat w < 2 ^ 5 \<Longrightarrow> charset_at v = charset_at w \<longleftrightarrow> v = w"
  using charset_rev_iff by (metis Inr_inject)

text \<open>Changing one value changes the checksum.\<close>

lemma polymod_one_change:
  assumes "j < length ws" "w \<noteq> ws ! j"
  shows "polymod (ws[j := w]) \<noteq> polymod ws"
proof
  assume eq: "polymod (ws[j := w]) = polymod ws"
  define d where "d = ws ! j XOR w"
  have "d \<noteq> 0" using assms(2) by (auto simp: d_def bit_eq_iff bit_xor_iff)
  moreover have "unat d < 2 ^ 32" using unsigned_less [of d, where 'a = nat] by simp
  ultimately have "(ucast d :: u32) \<noteq> 0" by (simp add: word_unat_eq_iff unsigned_ucast_eq take_bit_nat_eq_self)
  then have nz: "polymod_step 0 d \<noteq> 0" by (simp add: polymod_step_sums gated_def)
  have diff: "map2 (XOR) ws (ws[j := w]) = replicate j 0 @ d # replicate (length ws - Suc j) 0"
    using assms(1) by (auto intro!: nth_equalityI simp: nth_append nth_Cons' nth_list_update d_def)
  have zero: "foldl polymod_step 0 (replicate k 0) = 0" for k
    by (induction k) (simp_all add: polymod_step_sums gated_def)
  have "0 = foldl polymod_step (1 XOR 1) (map2 (XOR) ws (ws[j := w]))"
    using foldl_polymod_linear [of ws "ws[j := w]" 1 1] eq by (simp add: polymod_def)
  also have "\<dots> = foldl polymod_step (polymod_step 0 d) (replicate (length ws - Suc j) 0)"
    by (simp add: diff zero)
  finally show False
    using foldl_polymod_nonzero [OF nz polymod_bound] by metis
qed

text \<open>C30: an \<open>npub\<close> string with one mistyped character is refused: when a string is accepted, changing one of its
  characters to another one (not only its case) gives a string that is not accepted for any key.\<close>

theorem npub_typo_refused:
  assumes "decode_npub s = Inr pk" "i < length s" "to_ascii_lowercase [c] \<noteq> to_ascii_lowercase [s ! i]"
  shows "decode_npub (s[i := c]) \<noteq> Inr pk'"
proof
  assume d: "decode_npub (s[i := c]) = Inr pk'"
  define P where "P = str ''npub1''"
  have P: "length P = 5" by (simp add: P_def)
  define lc where "lc = hd (to_ascii_lowercase [c])"
  obtain ws where w: "to_ascii_lowercase s = P @ map charset_at ws" "list_all (\<lambda>d. unat d < 2 ^ 5) ws"
      "polymod (hrp_vals (str ''npub'') @ ws) = 1"
    using assms(1) unfolding decode_npub_digits P_def by blast
  obtain vs where v: "to_ascii_lowercase (s[i := c]) = P @ map charset_at vs" "list_all (\<lambda>d. unat d < 2 ^ 5) vs"
      "polymod (hrp_vals (str ''npub'') @ vs) = 1"
    using d unfolding decode_npub_digits P_def by blast
  have upd: "to_ascii_lowercase (s[i := c]) = (to_ascii_lowercase s)[i := lc]" and ne: "to_ascii_lowercase s ! i \<noteq> lc"
    using assms(2,3) by (simp_all add: to_ascii_lowercase_def map_update lc_def)
  have i: "i < 5 + length ws" using arg_cong [OF w(1), of length] assms(2) by (simp add: to_ascii_lowercase_def P)
  have eq: "(P @ map charset_at ws)[i := lc] = P @ map charset_at vs" using v(1) upd w(1) by simp
  have len: "length vs = length ws" using arg_cong [OF eq, of length] by simp
  have "5 \<le> i"
  proof (rule ccontr)
    assume "\<not> 5 \<le> i"
    then have "(P @ map charset_at ws)[i := lc] ! i = (P @ map charset_at ws) ! i"
      unfolding eq by (simp add: nth_append P)
    then show False using ne w(1) i by (simp add: P)
  qed
  define j where "j = i - 5"
  have j: "i = 5 + j" "j < length ws" using \<open>5 \<le> i\<close> i by (simp_all add: j_def)
  have at: "map charset_at vs = (map charset_at ws)[j := lc]"
    using eq j by (simp add: list_update_append P)
  have "vs ! k = ws ! k" if "k < length ws" "k \<noteq> j" for k
    using arg_cong [OF at, of "\<lambda>l. l ! k"] that len w(2) v(2) charset_at_inject by (simp add: list_all_length)
  then have "vs = ws[j := vs ! j]" using len j(2) by (auto intro!: nth_equalityI simp: nth_list_update)
  moreover have "vs ! j \<noteq> ws ! j"
    using arg_cong [OF at, of "\<lambda>l. l ! j"] ne w(1) j len by (auto simp: nth_append P)
  ultimately show False
    using polymod_one_change [of "length (hrp_vals (str ''npub'')) + j" "hrp_vals (str ''npub'') @ ws" "vs ! j"] w(3) v(3) j(2)
    by (simp add: list_update_append nth_append)
qed

definition sample_npub :: bytes where
  "sample_npub = str ''npub180cvv07tjdrrgpa0j7j7tmnyl2yr6yr7l8j4s3evf6u64th6gkwsyjh6w6''"

lemma sample_npub_decodes:
  "decode_npub sample_npub = Inr [0x3b, 0xf0, 0xc6, 0x3f, 0xcb, 0x93, 0x46, 0x34, 0x07, 0xaf, 0x97, 0xa5, 0xe5, 0xee, 0x64, 0xfa, 0x88, 0x3d, 0x10, 0x7e, 0xf9, 0xe5, 0x58, 0x47, 0x2c, 0x4e, 0xb9, 0xaa, 0xae, 0xfa, 0x45, 0x9d]"
  by code_simp

theorem npub_typo_refused_witness:
  "is_ok (decode_npub sample_npub) \<and> decode_npub (sample_npub[62 := 0x37]) \<noteq> Inr (replicate 32 0)"
proof -
  have "62 < length sample_npub" "to_ascii_lowercase [0x37] \<noteq> to_ascii_lowercase [sample_npub ! 62]"
    by (simp_all add: sample_npub_def to_ascii_lowercase_def is_ascii_uppercase_def)
  then show ?thesis using npub_typo_refused [OF sample_npub_decodes, of 62 "0x37"] sample_npub_decodes by simp
qed

end
