(* ===== verification/Neg_Encoding.thy ===== *)
theory Neg_Encoding
  imports Rust_Str
begin

text \<open>
  The varint and byte readers of \<open>wok-negentropy/src/encoding.rs\<close>. A reader takes the
  unread bytes and returns what it read with the bytes that remain.
\<close>

unbundle bit_operations_syntax

datatype neg_error = NegMessage string

type_synonym 'a neg_read = "neg_error + 'a \<times> bytes"

definition get_byte :: "bytes \<Rightarrow> u8 neg_read" where
  "get_byte encoded =
     (case encoded of [] \<Rightarrow> Inl (NegMessage ''parse ends prematurely'') | b # rest \<Rightarrow> Inr (b, rest))"

definition get_bytes :: "bytes \<Rightarrow> nat \<Rightarrow> bytes neg_read" where
  "get_bytes encoded n =
     (if length encoded < n then Inl (NegMessage ''parse ends prematurely'')
      else Inr (take n encoded, drop n encoded))"

fun decode_varint_loop :: "u64 \<Rightarrow> bytes \<Rightarrow> u64 neg_read" where
  "decode_varint_loop res [] = Inl (NegMessage ''premature end of varint'')"
| "decode_varint_loop res (b # rest) =
     (let res' = push_bit 7 res OR (ucast b AND 0x7F) in
      if b AND 0x80 = 0 then Inr (res', rest) else decode_varint_loop res' rest)"

definition decode_varint :: "bytes \<Rightarrow> u64 neg_read" where
  "decode_varint encoded = decode_varint_loop 0 encoded"

function varint_digits :: "u64 \<Rightarrow> bytes" where
  "varint_digits n = (if n = 0 then [] else ucast (n AND 0x7F) # varint_digits (drop_bit 7 n))"
  by pat_completeness auto
termination
proof (relation "measure unat")
  fix n :: u64
  assume "n \<noteq> 0"
  then show "(drop_bit 7 n, n) \<in> measure unat"
    by (simp only: in_measure unat_drop_bit_eq) (simp add: drop_bit_eq_div unat_gt_0)
qed simp

declare varint_digits.simps [simp del]

definition encode_varint :: "u64 \<Rightarrow> bytes" where
  "encode_varint n =
     (if n = 0 then [0]
      else let o' = rev (varint_digits n) in map (\<lambda>b. b OR 0x80) (butlast o') @ [last o'])"

section \<open>Round trip\<close>

lemma unat_drop7: "unat (drop_bit 7 n) = unat n div 128" for n :: u64
  by (simp only: unat_drop_bit_eq) (simp add: drop_bit_eq_div)

lemma and_7F: "n AND 0x7F = take_bit 7 n" for n :: "'a :: len word"
  by (simp add: take_bit_eq_mask mask_eq_exp_minus_1)

lemma unat_take7: "unat (take_bit 7 n) = unat n mod 128" for n :: "'a :: len word"
  by (simp only: unsigned_take_bit_eq) (simp add: take_bit_eq_mod)

lemma high_bit: "b AND 0x80 = 0 \<longleftrightarrow> unat b < 128" for b :: u8
proof -
  have "b AND 0x80 = 0 \<longleftrightarrow> \<not> bit b 7"
    using bit_iff_and_push_bit_not_eq_0 [of b 7] by (simp add: push_bit_eq_mult)
  also have "\<dots> \<longleftrightarrow> \<not> bit (unat b) 7" by (simp add: bit_unsigned_iff)
  also have "\<dots> \<longleftrightarrow> \<not> odd (unat b div 128)" by (simp add: bit_iff_odd)
  also have "\<dots> \<longleftrightarrow> unat b < 128"
  proof (cases "unat b < 128")
    case False
    have "unat b < 256" using unsigned_less [of b, where 'a = nat] by simp
    with False have "unat b div 128 = 1" by (intro div_nat_eqI) simp_all
    with False show ?thesis by simp
  qed simp
  finally show ?thesis .
qed

lemma or_80: "unat b < 128 \<Longrightarrow> unat (b OR 0x80) = unat b + 128" for b :: u8
proof -
  assume b: "unat b < 128"
  then have "b AND 0x80 = 0" by (simp add: high_bit)
  then have "b OR 0x80 = b + 0x80" by (simp add: disjunctive_add_eq_or)
  then show ?thesis using b by (simp add: unat_word_ariths)
qed

lemma varint_step: "push_bit 7 res OR take_bit 7 x = res * 128 + take_bit 7 x" for res x :: u64
proof -
  have "push_bit 7 res AND take_bit 7 x = 0"
    by (rule bit_word_eqI) (auto simp: bit_and_iff bit_push_bit_iff bit_take_bit_iff)
  then have "push_bit 7 res OR take_bit 7 x = push_bit 7 res + take_bit 7 x"
    by (simp add: disjunctive_add_eq_or)
  then show ?thesis by (simp add: push_bit_eq_mult)
qed

text \<open>A varint is its base 128 digits, the most significant first, all but the last flagged.\<close>

definition flagged :: "nat list \<Rightarrow> bytes" where
  "flagged ds = map (\<lambda>d. as_u8 (d + 128)) (butlast ds) @ [as_u8 (last ds)]"

definition digits_value :: "nat \<Rightarrow> nat list \<Rightarrow> nat" where
  "digits_value res ds = foldl (\<lambda>r d. r * 128 + d) res ds"

lemma unat_ucast_u8: "unat (ucast b :: u64) = unat b" for b :: u8
proof -
  have "unat b < 2 ^ 64" using unsigned_less [of b, where 'a = nat] by simp
  then show ?thesis by (simp only: unsigned_ucast_eq) (simp add: take_bit_nat_eq_self)
qed

lemma unat_ucast_low: "unat (ucast (n AND 0x7F) :: u8) = unat n mod 128" for n :: u64
proof -
  have "unat n mod 128 < 2 ^ 8" by (rule less_trans [of _ 128]) simp_all
  then show ?thesis
    by (simp only: and_7F unsigned_ucast_eq unat_take7) (simp add: take_bit_nat_eq_self)
qed

lemma decode_step:
  "decode_varint_loop res (b # rest) =
     (let res' = res * 128 + of_nat (unat b mod 128) in
      if unat b < 128 then Inr (res', rest) else decode_varint_loop res' rest)"
proof -
  have "take_bit 7 (ucast b :: u64) = of_nat (unat b mod 128)"
    using unat_ucast_u8 [of b] by (simp only: word_unat_eq_iff unat_take7) (simp add: unat_of_nat)
  then have "push_bit 7 res OR (ucast b AND 0x7F) = res * 128 + of_nat (unat b mod 128)"
    using varint_step [of res "ucast b"] by (simp only: and_7F)
  then show ?thesis by (simp only: decode_varint_loop.simps high_bit)
qed

lemma decode_flagged:
  "ds \<noteq> [] \<Longrightarrow> list_all (\<lambda>d. d < 128) ds \<Longrightarrow>
     decode_varint_loop (of_nat res) (flagged ds @ rest) = Inr (of_nat (digits_value res ds), rest)"
proof (induction ds arbitrary: res rule: list_nonempty_induct)
  case (single d)
  then show ?case by (simp add: flagged_def decode_step unat_as_u8 digits_value_def del: decode_varint_loop.simps)
next
  case (cons d ds)
  have f: "flagged (d # ds) = as_u8 (d + 128) # flagged ds" using cons.hyps by (simp add: flagged_def)
  have d: "unat (as_u8 (d + 128)) = d + 128" using cons.prems by (simp add: unat_as_u8)
  have "decode_varint_loop (of_nat (res * 128 + d)) (flagged ds @ rest) =
      Inr (of_nat (digits_value (res * 128 + d) ds), rest)"
    using cons by (intro cons.IH) simp_all
  moreover have "(d + 128) mod 128 = d" using cons.prems by simp
  ultimately show ?case
    by (simp only: f append_Cons decode_step d Let_def) (simp add: digits_value_def)
qed

lemma digits_value_snoc: "digits_value r (ds @ [d]) = digits_value r ds * 128 + d"
  by (simp add: digits_value_def)

lemma varint_digits_value:
  "digits_value 0 (rev (map unat (varint_digits n))) = unat n \<and> list_all (\<lambda>b. unat b < 128) (varint_digits n)"
proof (induction n rule: varint_digits.induct)
  case (1 n)
  show ?case
  proof (cases "n = 0")
    case True
    then show ?thesis by (simp add: varint_digits.simps digits_value_def)
  next
    case False
    have step: "varint_digits n = ucast (n AND 0x7F) # varint_digits (drop_bit 7 n)"
      using False by (subst varint_digits.simps) simp
    from 1 [OF False] show ?thesis
      unfolding step using unat_ucast_low [of n]
      by (simp only: list.map rev.simps digits_value_snoc unat_drop7 list.pred_inject) simp
  qed
qed

lemma encode_varint_flagged: "\<exists>ds. encode_varint n = flagged ds \<and> ds \<noteq> [] \<and> list_all (\<lambda>d. d < 128) ds \<and>
    digits_value 0 ds = unat n"
proof (cases "n = 0")
  case True
  then show ?thesis
    by (intro exI [of _ "[0]"]) (simp add: encode_varint_def flagged_def digits_value_def as_u8_def)
next
  case False
  define ds where "ds = rev (map unat (varint_digits n))"
  have ne: "varint_digits n \<noteq> []" using False by (subst varint_digits.simps) simp
  have lt: "list_all (\<lambda>b. unat b < 128) (varint_digits n)" using varint_digits_value by blast
  have "b OR 0x80 = as_u8 (unat b + 128)" if "b \<in> set (varint_digits n)" for b
    using lt that or_80 [of b] as_u8_unat [of "b OR 0x80"] by (simp add: list_all_iff)
  moreover obtain l t where lt': "varint_digits n = l # t" using ne by (cases "varint_digits n") auto
  ultimately have "encode_varint n = flagged ds"
    using False by (simp add: encode_varint_def flagged_def ds_def Let_def rev_map [symmetric])
  moreover have "ds \<noteq> []" "list_all (\<lambda>d. d < 128) ds" using ne lt by (auto simp: ds_def list_all_iff)
  ultimately show ?thesis using varint_digits_value [of n] by (auto simp: ds_def)
qed

lemma decode_encode_varint: "decode_varint (encode_varint n @ rest) = Inr (n, rest)"
proof -
  obtain ds where ds: "encode_varint n = flagged ds" "ds \<noteq> []" "list_all (\<lambda>d. d < 128) ds" "digits_value 0 ds = unat n"
    using encode_varint_flagged by blast
  then show ?thesis using decode_flagged [of ds 0 rest] by (simp add: decode_varint_def)
qed

interpretation varint: self_delimiting encode_varint decode_varint "\<lambda>n. True"
  by unfold_locales (rule decode_encode_varint)

lemma length_varint_digits: "unat n < 128 ^ k \<Longrightarrow> length (varint_digits n) \<le> k"
proof (induction k arbitrary: n)
  case 0
  then have "n = 0" by (simp add: unat_eq_zero)
  then show ?case by (simp add: varint_digits.simps)
next
  case (Suc k)
  have "unat (drop_bit 7 n) < 128 ^ k" using Suc.prems unat_drop7 [of n] by (simp add: less_mult_imp_div_less)
  then show ?case using Suc.IH by (subst varint_digits.simps) simp
qed

lemma length_encode_varint: "1 \<le> length (encode_varint n) \<and> length (encode_varint n) \<le> 10"
proof -
  have "unat n < 2 ^ 64" using unsigned_less [of n, where 'a = nat] by simp
  also have "(2 :: nat) ^ 64 \<le> 128 ^ 10" by simp
  finally have "length (varint_digits n) \<le> 10" by (rule length_varint_digits)
  moreover have "n \<noteq> 0 \<Longrightarrow> varint_digits n \<noteq> []" by (subst varint_digits.simps) simp
  ultimately show ?thesis by (auto simp: encode_varint_def Let_def Suc_le_eq)
qed

lemma get_bytes_append: "length bs = n \<Longrightarrow> get_bytes (bs @ rest) n = Inr (bs, rest)"
  by (simp add: get_bytes_def)

lemma decode_varint_shorter: "decode_varint bs = Inr (n, rest) \<Longrightarrow> length rest < length bs"
proof -
  have "decode_varint_loop res bs = Inr (n, rest) \<Longrightarrow> length rest < length bs" for res
    by (induction res bs rule: decode_varint_loop.induct) (auto simp: Let_def split: if_splits)
  then show "decode_varint bs = Inr (n, rest) \<Longrightarrow> length rest < length bs" by (simp add: decode_varint_def)
qed

section \<open>Properties\<close>

text \<open>C22: every 64-bit number survives its varint: decoding the encoding, with anything after it,
  returns the number and exactly the bytes after it; the encoding takes between one and ten bytes; and
  no encoding is a prefix of another number's.\<close>

theorem varint_roundtrip:
  "decode_varint (encode_varint n @ rest) = Inr (n, rest) \<and>
   1 \<le> length (encode_varint n) \<and> length (encode_varint n) \<le> 10 \<and>
   (encode_varint n @ rest = encode_varint m @ rest' \<longleftrightarrow> n = m \<and> rest = rest')"
  using decode_encode_varint length_encode_varint varint.enc_unambiguous [where x = n and y = m] by auto

end
