(* ===== verification/Neg_Types.thy ===== *)
theory Neg_Types
  imports Neg_Encoding Event_Kinds "HOL-Library.Multiset"
begin

text \<open>
  Items, bounds and the set accumulator of \<open>wok-negentropy/src/types.rs\<close>. An id and the
  accumulator's buffer are byte lists of 32 bytes; the accumulator is read as a number
  modulo \<open>2 ^ 256\<close>, little-endian.
\<close>

definition ID_SIZE :: nat where "ID_SIZE = 32"

definition FINGERPRINT_SIZE :: nat where "FINGERPRINT_SIZE = 16"

definition PROTOCOL_VERSION :: u8 where "PROTOCOL_VERSION = 0x61"

datatype Mode = Skip | Fingerprint | IdList

definition mode_try_from :: "u64 \<Rightarrow> neg_error + Mode" where
  "mode_try_from v =
     (if v = 0 then Inr Skip else if v = 1 then Inr Fingerprint else if v = 2 then Inr IdList
      else Inl (NegMessage ''unexpected mode''))"

definition mode_as_u64 :: "Mode \<Rightarrow> u64" where
  "mode_as_u64 m = (case m of Skip \<Rightarrow> 0 | Fingerprint \<Rightarrow> 1 | IdList \<Rightarrow> 2)"

datatype item = Item (timestamp: u64) (item_id: bytes)

definition item_default :: item where
  "item_default = Item 0 (replicate 32 0)"

definition item_new :: "u64 \<Rightarrow> bytes \<Rightarrow> neg_error + item" where
  "item_new ts i = (if length i \<noteq> ID_SIZE then Inl (NegMessage ''bad id size for Item'') else Inr (Item ts i))"

definition item_less :: "item \<Rightarrow> item \<Rightarrow> bool" where
  "item_less a b \<longleftrightarrow> timestamp a < timestamp b \<or> (timestamp a = timestamp b \<and> item_id a < item_id b)"

instantiation item :: linorder
begin

definition less_eq_item :: "item \<Rightarrow> item \<Rightarrow> bool" where
  "a \<le> b \<longleftrightarrow> timestamp a < timestamp b \<or> (timestamp a = timestamp b \<and> item_id a \<le> item_id b)"

definition less_item :: "item \<Rightarrow> item \<Rightarrow> bool" where
  "a < b \<longleftrightarrow> item_less a b"

instance
  by standard (auto simp: less_eq_item_def less_item_def item_less_def item.expand)

end

lemma item_le: "a \<le> b \<longleftrightarrow> timestamp a < timestamp b \<or> (timestamp a = timestamp b \<and> item_id a \<le> item_id b)"
  by (rule less_eq_item_def)

record bound =
  b_item :: item
  id_len :: nat

definition bound_timestamp :: "u64 \<Rightarrow> bound" where
  "bound_timestamp ts = \<lparr> b_item = Item ts (replicate 32 0), id_len = 0 \<rparr>"

definition bound_with_id_prefix :: "u64 \<Rightarrow> bytes \<Rightarrow> neg_error + bound" where
  "bound_with_id_prefix ts i =
     (if ID_SIZE < length i then Inl (NegMessage ''bad id size for Bound'')
      else Inr \<lparr> b_item = Item ts (i @ replicate (32 - length i) 0), id_len = length i \<rparr>)"

definition bound_from_item :: "item \<Rightarrow> bound" where
  "bound_from_item it = \<lparr> b_item = it, id_len = ID_SIZE \<rparr>"

definition bound_default :: bound where
  "bound_default = bound_timestamp 0"

definition bound_less :: "bound \<Rightarrow> bound \<Rightarrow> bool" where
  "bound_less a b \<longleftrightarrow> b_item a < b_item b"

section \<open>Accumulator\<close>

definition acc_zero :: bytes where
  "acc_zero = replicate 32 0"

definition overflowing_add :: "u64 \<Rightarrow> u64 \<Rightarrow> u64 \<times> bool" where
  "overflowing_add a b = (a + b, 2 ^ 64 \<le> unat a + unat b)"

definition add_limb :: "bytes \<Rightarrow> bytes \<times> u64 \<Rightarrow> nat \<Rightarrow> bytes \<times> u64" where
  "add_limb other = (\<lambda>(buf, curr_carry) i.
     let orig = u64_from_ne (slice (i * 8) (i * 8 + 8) buf);
         other_v = u64_from_ne (slice (i * 8) (i * 8 + 8) other);
         (n1, c1) = overflowing_add orig curr_carry;
         (n2, c2) = overflowing_add n1 other_v in
     (take (i * 8) buf @ u64_to_ne n2 @ drop (i * 8 + 8) buf, if c1 \<or> c2 then 1 else 0))"

definition add_bytes :: "bytes \<Rightarrow> bytes \<Rightarrow> bytes" where
  "add_bytes buf other = fst (foldl (add_limb other) (buf, 0) [0 ..< 4])"

definition acc_add_item :: "bytes \<Rightarrow> item \<Rightarrow> bytes" where
  "acc_add_item buf it = add_bytes buf (item_id it)"

definition acc_add_acc :: "bytes \<Rightarrow> bytes \<Rightarrow> bytes" where
  "acc_add_acc buf other = add_bytes buf other"

definition acc_negate :: "bytes \<Rightarrow> bytes" where
  "acc_negate buf = add_bytes (map (\<lambda>b. NOT b) buf) (1 # replicate 31 0)"

definition sub_bytes :: "bytes \<Rightarrow> bytes \<Rightarrow> bytes" where
  "sub_bytes buf other = add_bytes buf (acc_negate other)"

definition acc_sub_item :: "bytes \<Rightarrow> item \<Rightarrow> bytes" where
  "acc_sub_item buf it = sub_bytes buf (item_id it)"

definition acc_sub_acc :: "bytes \<Rightarrow> bytes \<Rightarrow> bytes" where
  "acc_sub_acc buf other = sub_bytes buf other"

definition get_fingerprint :: "ext \<Rightarrow> bytes \<Rightarrow> u64 \<Rightarrow> bytes" where
  "get_fingerprint X buf n = take FINGERPRINT_SIZE (sha256 X (buf @ encode_varint n))"

section \<open>Addition modulo \<open>2 ^ 256\<close>\<close>

lemma overflowing_add_val:
  "overflowing_add a b = (s, c) \<Longrightarrow> unat a + unat b = unat s + (if c then 2 ^ 64 else 0)"
proof -
  assume "overflowing_add a b = (s, c)"
  then have s: "s = a + b" and c: "c \<longleftrightarrow> 2 ^ 64 \<le> unat a + unat b" by (auto simp: overflowing_add_def)
  have "unat a < 2 ^ 64" "unat b < 2 ^ 64"
    using unsigned_less [of a, where 'a = nat] unsigned_less [of b, where 'a = nat] by simp_all
  then show ?thesis by (auto simp: s c unat_word_ariths mod_if)
qed

text \<open>One limb: the sum with the carry in is the new limb plus \<open>2 ^ 64\<close> times the carry out.\<close>

lemma limb_sum:
  assumes "overflowing_add a c = (n1, c1)" "overflowing_add n1 b = (n2, c2)" "unat c \<le> 1"
  shows "unat a + unat b + unat c = unat n2 + 2 ^ 64 * (if c1 \<or> c2 then 1 else 0)"
proof -
  have v: "unat a + unat c = unat n1 + (if c1 then 2 ^ 64 else 0)"
      "unat n1 + unat b = unat n2 + (if c2 then 2 ^ 64 else 0)"
    using assms(1,2) overflowing_add_val by blast+
  have "\<not> (c1 \<and> c2)"
  proof
    assume "c1 \<and> c2"
    with v have "unat a + unat b + unat c \<ge> 2 * 2 ^ 64" by simp
    moreover have "unat a < 2 ^ 64" "unat b < 2 ^ 64"
      using unsigned_less [of a, where 'a = nat] unsigned_less [of b, where 'a = nat] by simp_all
    ultimately show False using assms(3) by simp
  qed
  with v show ?thesis by (auto split: if_splits)
qed

lemma le_nat_take_Suc:
  assumes "length xs = 32" "k < 4"
  shows "le_nat (take (8 * Suc k) xs) =
    le_nat (take (8 * k) xs) + 2 ^ (64 * k) * unat (u64_from_ne (slice (k * 8) (k * 8 + 8) xs))"
proof -
  let ?m = "slice (k * 8) (k * 8 + 8) xs"
  have len: "length ?m = 8" using assms by (simp add: slice_def)
  have "take (8 * Suc k) xs = take (8 * k) xs @ ?m"
    using take_add [of "8 * k" 8 xs] by (simp add: slice_def mult.commute add.commute)
  moreover have "unat (u64_from_ne ?m) = le_nat ?m"
    using le_nat_bound [of ?m] len by (simp add: u64_from_ne_def unat_of_nat)
  moreover have "length (take (8 * k) xs) = 8 * k" using assms by simp
  moreover have "(256 :: nat) ^ (8 * k) = 2 ^ (64 * k)"
    using power_mult [of "2 :: nat" 8 "8 * k"] by (simp add: mult.assoc)
  ultimately show ?thesis by (simp add: le_nat_append)
qed

lemma add_limbs:
  assumes "length a = 32" "length b = 32" "k \<le> 4"
  shows "case foldl (add_limb b) (a, 0) [0 ..< k] of (buf, carry) \<Rightarrow>
    length buf = 32 \<and> unat carry \<le> 1 \<and> drop (8 * k) buf = drop (8 * k) a \<and>
    le_nat (take (8 * k) buf) + 2 ^ (64 * k) * unat carry = le_nat (take (8 * k) a) + le_nat (take (8 * k) b)"
  using assms(3)
proof (induction k)
  case (Suc k)
  obtain buf c where st: "foldl (add_limb b) (a, 0) [0 ..< k] = (buf, c)" by fastforce
  with Suc have I: "length buf = 32" "unat c \<le> 1" "drop (8 * k) buf = drop (8 * k) a"
      "le_nat (take (8 * k) buf) + 2 ^ (64 * k) * unat c = le_nat (take (8 * k) a) + le_nat (take (8 * k) b)"
    by auto
  have k: "k < 4" using Suc.prems by simp
  let ?s = "slice (k * 8) (k * 8 + 8)"
  have same: "?s buf = ?s a" using I(3) by (simp add: slice_def mult.commute)
  obtain n1 c1 n2 c2 where o1: "overflowing_add (u64_from_ne (?s a)) c = (n1, c1)"
    and o2: "overflowing_add n1 (u64_from_ne (?s b)) = (n2, c2)" by fastforce
  define buf' c' where "buf' = take (k * 8) buf @ u64_to_ne n2 @ drop (k * 8 + 8) buf"
    and "c' = (if c1 \<or> c2 then 1 else 0 :: u64)"
  have "add_limb b (buf, c) k = (buf', c')"
    by (simp add: add_limb_def Let_def same o1 o2 buf'_def c'_def)
  then have step: "foldl (add_limb b) (a, 0) [0 ..< Suc k] = (buf', c')"
    by (simp add: st)
  have len: "length buf' = 32" using I(1) k by (simp add: buf'_def)
  have tk: "take (8 * k) buf' = take (8 * k) buf" "?s buf' = u64_to_ne n2"
    using I(1) k by (simp_all add: buf'_def slice_def mult.commute)
  have dr: "drop (8 * Suc k) buf' = drop (8 * Suc k) a"
  proof -
    have "drop (8 * Suc k) buf' = drop (k * 8 + 8) buf" using I(1) k by (simp add: buf'_def mult.commute)
    also have "\<dots> = drop 8 (drop (8 * k) a)" using I(3) by (metis drop_drop add.commute mult.commute)
    finally show ?thesis by (simp add: mult.commute add.commute)
  qed
  have "unat (u64_from_ne (?s a)) + unat (u64_from_ne (?s b)) + unat c = unat n2 + 2 ^ 64 * unat c'"
    using limb_sum [OF o1 o2 I(2)] by (simp add: c'_def)
  then have "2 ^ (64 * k) * unat (u64_from_ne (?s a)) + 2 ^ (64 * k) * unat (u64_from_ne (?s b)) + 2 ^ (64 * k) * unat c =
      2 ^ (64 * k) * unat n2 + 2 ^ (64 * Suc k) * unat c'"
    by (simp add: power_add distrib_left [symmetric] mult.assoc [symmetric] mult.commute [of "2 ^ 64"])
      (simp add: distrib_left mult.assoc power_add)
  then have "le_nat (take (8 * Suc k) buf') + 2 ^ (64 * Suc k) * unat c' =
      le_nat (take (8 * Suc k) a) + le_nat (take (8 * Suc k) b)"
    using I(4) unfolding le_nat_take_Suc [OF len k] le_nat_take_Suc [OF assms(1) k] le_nat_take_Suc [OF assms(2) k] tk
    by simp
  then show ?case using step len dr by (simp add: c'_def)
qed (use assms in simp)

lemma add_bytes_val:
  assumes "length a = 32" "length b = 32"
  shows "length (add_bytes a b) = 32" "le_nat (add_bytes a b) = (le_nat a + le_nat b) mod 2 ^ 256"
proof -
  obtain buf c where st: "foldl (add_limb b) (a, 0) [0 ..< 4] = (buf, c)" by fastforce
  with add_limbs [OF assms, of 4] assms have len: "length buf = 32"
    and v: "le_nat buf + 2 ^ 256 * unat c = le_nat a + le_nat b" by auto
  have "le_nat buf < 256 ^ 32" using le_nat_bound [of buf] len by simp
  also have "(256 :: nat) ^ 32 = 2 ^ 256" by simp
  finally have "le_nat buf = (le_nat a + le_nat b) mod 2 ^ 256" using v [symmetric] by simp
  then show "length (add_bytes a b) = 32" "le_nat (add_bytes a b) = (le_nat a + le_nat b) mod 2 ^ 256"
    using len by (simp_all add: add_bytes_def st)
qed

lemma le_nat_lt: "length a = 32 \<Longrightarrow> le_nat a < 2 ^ 256"
  using le_nat_bound [of a] power_mult [of "2 :: nat" 8 32] by simp

lemma le_nat_zero: "le_nat (replicate n 0) = 0"
  by (induction n) simp_all

lemma le_nat_not: "le_nat (map (\<lambda>b. NOT b) bs) + le_nat bs + 1 = 256 ^ length bs"
proof (induction bs)
  case (Cons b bs)
  have "unat (NOT b) + unat b = 255"
  proof -
    have "NOT b = (- 1) - b" by (simp add: not_eq_complement)
    then have "unat (NOT b) = 255 - unat b"
      using unat_sub [of b "- 1"] unat_minus_one_word [where 'a = 8] by (simp add: word_order.extremum)
    then show ?thesis using unsigned_less [of b, where 'a = nat] by simp
  qed
  with Cons show ?case by simp
qed simp

lemma acc_negate_val:
  assumes "length a = 32"
  shows "length (acc_negate a) = 32" "le_nat (acc_negate a) = (2 ^ 256 - le_nat a) mod 2 ^ 256"
proof -
  have "le_nat (map (\<lambda>b. NOT b) a) + le_nat a + 1 = 2 ^ 256"
    using le_nat_not [of a] assms power_mult [of "2 :: nat" 8 32] by simp
  then have "le_nat (map (\<lambda>b. NOT b) a) + 1 = 2 ^ 256 - le_nat a" by linarith
  moreover have "le_nat (1 # replicate 31 0) = 1" by (simp only: le_nat.simps le_nat_zero) simp
  ultimately show "length (acc_negate a) = 32" "le_nat (acc_negate a) = (2 ^ 256 - le_nat a) mod 2 ^ 256"
    unfolding acc_negate_def using assms by (simp_all add: add_bytes_val)
qed

lemma sub_bytes_val:
  assumes "length a = 32" "length b = 32"
  shows "length (sub_bytes a b) = 32"
    "int (le_nat (sub_bytes a b)) = (int (le_nat a) - int (le_nat b)) mod 2 ^ 256"
proof -
  show "length (sub_bytes a b) = 32" by (simp add: sub_bytes_def add_bytes_val acc_negate_val assms)
  have "le_nat (sub_bytes a b) = (le_nat a + (2 ^ 256 - le_nat b)) mod 2 ^ 256"
    unfolding sub_bytes_def using assms by (simp only: add_bytes_val acc_negate_val mod_add_right_eq)
  then have "int (le_nat (sub_bytes a b)) = (int (le_nat a) + (2 ^ 256 - int (le_nat b))) mod 2 ^ 256"
    using le_nat_lt [OF assms(2)] by (simp only: zmod_int of_nat_add of_nat_diff less_imp_le of_nat_power of_nat_numeral)
  also have "\<dots> = (int (le_nat a) - int (le_nat b) + 1 * 2 ^ 256) mod 2 ^ 256"
    by (simp only: mult_1_left add_diff_eq diff_add_eq)
  finally show "int (le_nat (sub_bytes a b)) = (int (le_nat a) - int (le_nat b)) mod 2 ^ 256"
    by (simp only: mod_mult_self1)
qed

lemma add_bytes_ac:
  assumes "length a = 32" "length b = 32" "length c = 32"
  shows "add_bytes a b = add_bytes b a" "add_bytes (add_bytes a b) c = add_bytes (add_bytes a c) b"
proof -
  have "le_nat (add_bytes a b) = le_nat (add_bytes b a)"
    using assms by (simp only: add_bytes_val add.commute)
  then show "add_bytes a b = add_bytes b a" using assms add_bytes_val(1) le_nat_inject by metis
  have "le_nat (add_bytes (add_bytes a b) c) = le_nat (add_bytes (add_bytes a c) b)"
    using assms by (simp only: add_bytes_val mod_add_left_eq add.assoc add.commute [of "le_nat b"])
  then show "add_bytes (add_bytes a b) c = add_bytes (add_bytes a c) b"
    using assms add_bytes_val(1) le_nat_inject by metis
qed

lemma sub_add_bytes:
  assumes "length a = 32" "length b = 32"
  shows "sub_bytes (add_bytes a b) b = a"
proof -
  have "int (le_nat (sub_bytes (add_bytes a b) b)) = (int (le_nat a + le_nat b) mod 2 ^ 256 - int (le_nat b)) mod 2 ^ 256"
    using assms by (simp only: sub_bytes_val add_bytes_val zmod_int of_nat_power of_nat_numeral)
  also have "\<dots> = int (le_nat a) mod 2 ^ 256"
    by (simp only: mod_diff_left_eq of_nat_add add_diff_cancel_right')
  also have "\<dots> = int (le_nat a)" using le_nat_lt [OF assms(1)] by simp
  finally show ?thesis using assms le_nat_inject sub_bytes_val(1) add_bytes_val(1) by (metis of_nat_eq_iff)
qed

section \<open>Sums of sets of items\<close>

definition ids_ok :: "item list \<Rightarrow> bool" where
  "ids_ok xs \<longleftrightarrow> list_all (\<lambda>it. length (item_id it) = 32) xs"

definition acc_sum :: "bytes \<Rightarrow> item list \<Rightarrow> bytes" where
  "acc_sum = foldl acc_add_item"

lemma acc_sum_simps [simp]:
  "acc_sum a [] = a" "acc_sum a (x # xs) = acc_sum (acc_add_item a x) xs"
  "acc_sum a (xs @ ys) = acc_sum (acc_sum a xs) ys"
  by (simp_all add: acc_sum_def)

lemma ids_ok_simps [simp]:
  "ids_ok []" "ids_ok (x # xs) \<longleftrightarrow> length (item_id x) = 32 \<and> ids_ok xs"
  "ids_ok (xs @ ys) \<longleftrightarrow> ids_ok xs \<and> ids_ok ys"
  by (simp_all add: ids_ok_def)

lemma acc_sum_val:
  "length a = 32 \<Longrightarrow> ids_ok xs \<Longrightarrow> length (acc_sum a xs) = 32 \<and>
    le_nat (acc_sum a xs) = (le_nat a + sum_list (map (\<lambda>it. le_nat (item_id it)) xs)) mod 2 ^ 256"
proof (induction xs arbitrary: a)
  case Nil
  with le_nat_lt show ?case by simp
next
  case (Cons x xs)
  then have "length (acc_add_item a x) = 32" by (simp add: acc_add_item_def add_bytes_val)
  with Cons show ?case
    by (simp only: acc_sum_simps ids_ok_simps acc_add_item_def add_bytes_val mod_add_left_eq add.assoc list.map sum_list.Cons)
qed

lemma acc_sum_perm:
  assumes "length a = 32" "ids_ok xs" "mset xs = mset ys"
  shows "acc_sum a xs = acc_sum a ys"
proof -
  have "set xs = set ys" using assms(3) by (metis set_mset_mset)
  then have ys: "ids_ok ys" using assms(2) by (simp add: ids_ok_def list_all_iff)
  have "sum_list (map f xs) = sum_list (map f ys)" for f :: "item \<Rightarrow> nat"
    using assms(3) by (metis mset_map sum_mset_sum_list)
  then have "le_nat (acc_sum a xs) = le_nat (acc_sum a ys)"
    using acc_sum_val [OF assms(1,2)] acc_sum_val [OF assms(1) ys] by metis
  then show ?thesis using acc_sum_val [OF assms(1,2)] acc_sum_val [OF assms(1) ys] le_nat_inject by metis
qed

text \<open>C21: The set accumulator does not depend on the order in which items are added, and
  removing an item restores the accumulator of the others: for ids of 32 bytes, two
  sequences with the same items give the same fingerprint, and subtracting an item that was
  added anywhere in the sequence gives the accumulator of the sequence without it.\<close>

theorem accumulator_of_set:
  assumes "ids_ok xs" "mset xs = mset ys" "mset xs = add_mset x (mset zs)"
  shows "get_fingerprint X (foldl acc_add_item acc_zero xs) n = get_fingerprint X (foldl acc_add_item acc_zero ys) n \<and>
    acc_sub_item (foldl acc_add_item acc_zero ys) x = foldl acc_add_item acc_zero zs"
proof -
  have z: "length acc_zero = 32" by (simp add: acc_zero_def)
  have p: "acc_sum acc_zero xs = acc_sum acc_zero ys" "acc_sum acc_zero xs = acc_sum acc_zero (zs @ [x])"
    using assms z acc_sum_perm by (blast, metis mset_append mset.simps add_mset_add_single)
  have "set xs = set (x # zs)" using assms(3) by (metis mset.simps(2) set_mset_mset)
  then have "ids_ok (x # zs)" using assms(1) by (simp add: ids_ok_def list_all_iff)
  then have "acc_sub_item (acc_sum acc_zero (zs @ [x])) x = acc_sum acc_zero zs"
    using acc_sum_val [OF z, of zs] by (simp add: acc_sub_item_def acc_add_item_def sub_add_bytes)
  with p show ?thesis by (simp add: acc_sum_def)
qed

theorem accumulator_of_set_witness:
  "acc_sub_item (foldl acc_add_item acc_zero [Item 9 (replicate 32 0xEE), Item 5 (replicate 32 0xFF)]) (Item 5 (replicate 32 0xFF))
    = foldl acc_add_item acc_zero [Item 9 (replicate 32 0xEE)]"
  using accumulator_of_set [of "[Item 5 (replicate 32 0xFF), Item 9 (replicate 32 0xEE)]"
      "[Item 9 (replicate 32 0xEE), Item 5 (replicate 32 0xFF)]" "Item 5 (replicate 32 0xFF)" "[Item 9 (replicate 32 0xEE)]" sample_ext 2]
  by simp

end
