(* ===== verification/Neg_Vector.thy ===== *)
theory Neg_Vector
  imports Neg_Types Wok_Collections
begin

text \<open>
  The storage interface of \<open>wok-negentropy/src/storage.rs\<close> and the two storages of
  \<open>wok-negentropy/src/vector.rs\<close>: the sealed vector and the range of another storage.
  A storage is the record of its operations. \<open>iterate\<close> is given by the sequence of
  items and indices it hands to its callback.
\<close>

record storage =
  st_size :: "neg_error + u64"
  st_get_item :: "nat \<Rightarrow> neg_error + item"
  st_visits :: "nat \<Rightarrow> nat \<Rightarrow> neg_error + (item \<times> nat) list"
  st_find_lower_bound :: "nat \<Rightarrow> nat \<Rightarrow> bound \<Rightarrow> neg_error + nat"
  st_fingerprint :: "nat \<Rightarrow> nat \<Rightarrow> neg_error + bytes"

text \<open>The callback of \<open>iterate\<close> updates what it captured and says whether to go on.\<close>

fun run_visits :: "('s \<Rightarrow> item \<Rightarrow> nat \<Rightarrow> 's \<times> bool) \<Rightarrow> 's \<Rightarrow> (item \<times> nat) list \<Rightarrow> 's" where
  "run_visits cb s [] = s"
| "run_visits cb s ((it, i) # vs) = (case cb s it i of (s', go) \<Rightarrow> if go then run_visits cb s' vs else s')"

definition st_iterate :: "storage \<Rightarrow> nat \<Rightarrow> nat \<Rightarrow> ('s \<Rightarrow> item \<Rightarrow> nat \<Rightarrow> 's \<times> bool) \<Rightarrow> 's \<Rightarrow> neg_error + 's" where
  "st_iterate S b e cb s = rbind (st_visits S b e) (\<lambda>vs. Inr (run_visits cb s vs))"

section \<open>The vector\<close>

record vector =
  v_items :: "item list"
  v_sealed :: bool

definition vector_new :: vector where
  "vector_new = \<lparr> v_items = [], v_sealed = False \<rparr>"

definition vector_insert :: "vector \<Rightarrow> u64 \<Rightarrow> bytes \<Rightarrow> neg_error + vector" where
  "vector_insert v created_at i =
     (if v_sealed v then Inl (NegMessage ''already sealed'')
      else if length i \<noteq> ID_SIZE then Inl (NegMessage ''bad id size for added item'')
      else rbind (item_new created_at i) (\<lambda>it. Inr (v\<lparr> v_items := v_items v @ [it] \<rparr>)))"

text \<open>Sealing marks and sorts the vector before it looks for duplicates, so a failed seal leaves
  a sealed vector.\<close>

definition vector_seal :: "vector \<Rightarrow> vector \<times> (neg_error + unit)" where
  "vector_seal v =
     (if v_sealed v then (v, Inl (NegMessage ''already sealed''))
      else let items = sort (v_items v) in
        (\<lparr> v_items = items, v_sealed = True \<rparr>,
         if list_ex (\<lambda>i. items ! (i - 1) = items ! i) [1 ..< length items]
         then Inl (NegMessage ''duplicate item inserted'') else Inr ()))"

definition vector_unseal :: "vector \<Rightarrow> vector" where
  "vector_unseal v = v\<lparr> v_sealed := False \<rparr>"

definition check_sealed :: "vector \<Rightarrow> neg_error + unit" where
  "check_sealed v = (if v_sealed v then Inr () else Inl (NegMessage ''not sealed''))"

definition check_bounds :: "vector \<Rightarrow> nat \<Rightarrow> nat \<Rightarrow> neg_error + unit" where
  "check_bounds v b e = (if e < b \<or> length (v_items v) < e then Inl (NegMessage ''bad range'') else Inr ())"

definition vector_size :: "vector \<Rightarrow> neg_error + u64" where
  "vector_size v = rbind (check_sealed v) (\<lambda>_. Inr (of_nat (length (v_items v))))"

definition vector_get_item :: "vector \<Rightarrow> nat \<Rightarrow> neg_error + item" where
  "vector_get_item v i =
     rbind (check_sealed v) (\<lambda>_. rbind (check_bounds v i (i + 1)) (\<lambda>_. Inr (v_items v ! i)))"

definition vector_visits :: "vector \<Rightarrow> nat \<Rightarrow> nat \<Rightarrow> neg_error + (item \<times> nat) list" where
  "vector_visits v b e =
     rbind (check_sealed v) (\<lambda>_. rbind (check_bounds v b e) (\<lambda>_. Inr (map (\<lambda>i. (v_items v ! i, i)) [b ..< e])))"

definition vector_find_lower_bound :: "vector \<Rightarrow> nat \<Rightarrow> nat \<Rightarrow> bound \<Rightarrow> neg_error + nat" where
  "vector_find_lower_bound v b e bd =
     rbind (check_sealed v) (\<lambda>_. rbind (check_bounds v b e) (\<lambda>_.
       Inr (b + partition_point (\<lambda>it. it < b_item bd) (slice b e (v_items v)))))"

definition vector_fingerprint :: "ext \<Rightarrow> vector \<Rightarrow> nat \<Rightarrow> nat \<Rightarrow> neg_error + bytes" where
  "vector_fingerprint X v b e =
     rbind (check_sealed v) (\<lambda>_. rbind (check_bounds v b e) (\<lambda>_.
       Inr (get_fingerprint X (foldl acc_add_item acc_zero (slice b e (v_items v))) (of_nat (e - b)))))"

definition vector_storage :: "ext \<Rightarrow> vector \<Rightarrow> storage" where
  "vector_storage X v = \<lparr> st_size = vector_size v, st_get_item = vector_get_item v, st_visits = vector_visits v,
     st_find_lower_bound = vector_find_lower_bound v, st_fingerprint = vector_fingerprint X v \<rparr>"

section \<open>A range of a storage\<close>

record sub_range =
  sub_base :: storage
  sub_begin :: nat
  sub_size :: nat

definition sub_range_new :: "storage \<Rightarrow> bound \<Rightarrow> bound \<Rightarrow> neg_error + sub_range" where
  "sub_range_new base lower upper =
     rbind (st_size base) (\<lambda>size64. let base_size = unat size64 in
     rbind (if lower = bound_timestamp 0 then Inr 0 else st_find_lower_bound base 0 base_size lower) (\<lambda>b.
     rbind (if upper = bound_timestamp (- 1) then Inr base_size else st_find_lower_bound base b base_size upper) (\<lambda>e.
     rbind (if e \<noteq> base_size
            then rbind (st_get_item base e) (\<lambda>it. Inr (if bound_from_item it = upper then e + 1 else e))
            else Inr e) (\<lambda>e'.
     Inr \<lparr> sub_base = base, sub_begin = b, sub_size = e' - b \<rparr>))))"

definition sub_find_lower_bound :: "sub_range \<Rightarrow> nat \<Rightarrow> nat \<Rightarrow> bound \<Rightarrow> neg_error + nat" where
  "sub_find_lower_bound r b e bd =
     rbind (st_find_lower_bound (sub_base r) (sub_begin r + b) (sub_begin r + e) bd) (\<lambda>i.
       Inr (min (i - sub_begin r) (sub_size r)))"

definition sub_visits :: "sub_range \<Rightarrow> nat \<Rightarrow> nat \<Rightarrow> neg_error + (item \<times> nat) list" where
  "sub_visits r b e =
     rbind (st_visits (sub_base r) (sub_begin r + b) (sub_begin r + e)) (\<lambda>vs.
       Inr (map (\<lambda>(it, i). (it, i - sub_begin r)) vs))"

definition sub_storage :: "sub_range \<Rightarrow> storage" where
  "sub_storage r = \<lparr> st_size = Inr (of_nat (sub_size r)),
     st_get_item = (\<lambda>i. st_get_item (sub_base r) (sub_begin r + i)),
     st_visits = sub_visits r,
     st_find_lower_bound = sub_find_lower_bound r,
     st_fingerprint = (\<lambda>b e. st_fingerprint (sub_base r) (sub_begin r + b) (sub_begin r + e)) \<rparr>"

section \<open>What a storage promises\<close>

text \<open>
  \<open>contents\<close> is the strictly sorted list of items a usable storage (\<open>ok\<close>) holds. Every
  operation on a range \<open>[b, e)\<close> inside it succeeds and answers for that slice.
\<close>

locale storage_contract =
  fixes mk :: "ext \<Rightarrow> 'v \<Rightarrow> storage" and ok :: "ext \<Rightarrow> 'v \<Rightarrow> bool" and contents :: "'v \<Rightarrow> item list"
  assumes contents_sorted: "ok X v \<Longrightarrow> sorted_wrt (<) (contents v)"
    and contents_ids: "ok X v \<Longrightarrow> ids_ok (contents v)"
    and contents_small: "ok X v \<Longrightarrow> length (contents v) < 2 ^ 64"
    and size_contents: "ok X v \<Longrightarrow> st_size (mk X v) = Inr (of_nat (length (contents v)))"
    and get_item_contents: "ok X v \<Longrightarrow> i < length (contents v) \<Longrightarrow> st_get_item (mk X v) i = Inr (contents v ! i)"
    and visits_contents: "ok X v \<Longrightarrow> b \<le> e \<Longrightarrow> e \<le> length (contents v) \<Longrightarrow>
      st_visits (mk X v) b e = Inr (map (\<lambda>i. (contents v ! i, i)) [b ..< e])"
    and lower_bound_contents: "ok X v \<Longrightarrow> b \<le> e \<Longrightarrow> e \<le> length (contents v) \<Longrightarrow>
      st_find_lower_bound (mk X v) b e bd =
        Inr (b + length (takeWhile (\<lambda>it. it < b_item bd) (slice b e (contents v))))"
    and fingerprint_contents: "ok X v \<Longrightarrow> b \<le> e \<Longrightarrow> e \<le> length (contents v) \<Longrightarrow>
      st_fingerprint (mk X v) b e =
        Inr (get_fingerprint X (foldl acc_add_item acc_zero (slice b e (contents v))) (of_nat (e - b)))"
begin

text \<open>The index a search returns splits the searched slice at the bound.\<close>

lemma lower_bound_splits:
  assumes "ok X v" "b \<le> e" "e \<le> length (contents v)" "st_find_lower_bound (mk X v) b e bd = Inr i"
  shows "b \<le> i \<and> i \<le> e \<and> (\<forall>j. b \<le> j \<and> j < i \<longrightarrow> contents v ! j < b_item bd) \<and>
    (\<forall>j. i \<le> j \<and> j < e \<longrightarrow> \<not> contents v ! j < b_item bd)"
proof -
  let ?xs = "slice b e (contents v)" and ?p = "\<lambda>it. it < b_item bd"
  have i: "i = b + length (takeWhile ?p ?xs)" using assms lower_bound_contents by simp
  have len: "length ?xs = e - b" using assms(3) by (simp add: length_slice)
  have nth: "?xs ! k = contents v ! (b + k)" if "k < e - b" for k
    using that assms(2,3) by (simp add: slice_def)
  have le: "i \<le> e" using i len length_takeWhile_le [of ?p ?xs] assms(2) by simp
  have "contents v ! j < b_item bd" if "b \<le> j" "j < i" for j
  proof -
    have k: "j - b < length (takeWhile ?p ?xs)" using that i by simp
    then have "?p (?xs ! (j - b))" using takeWhile_nth [of "j - b" ?p ?xs] nth_mem [OF k] by (metis set_takeWhileD)
    then show ?thesis using nth [of "j - b"] that le by simp
  qed
  moreover have "\<not> contents v ! j < b_item bd" if "i \<le> j" "j < e" for j
  proof -
    have "length (takeWhile ?p ?xs) < length ?xs" using that i len by simp
    then have "\<not> ?p (?xs ! length (takeWhile ?p ?xs))" by (rule nth_length_takeWhile)
    then have n: "\<not> contents v ! i < b_item bd" using nth [of "i - b"] i that by simp
    have "contents v ! i \<le> contents v ! j"
      using contents_sorted [OF assms(1)] that assms(3) by (cases "i = j") (auto simp: sorted_wrt_iff_nth_less less_imp_le)
    with n show ?thesis by auto
  qed
  ultimately show ?thesis using le i by simp
qed

text \<open>Equal sets give equal fingerprints whatever storage holds them.\<close>

lemma fingerprint_of_slice:
  assumes "ok X v" "b \<le> e" "e \<le> length (contents v)" "mset xs = mset (slice b e (contents v))"
  shows "st_fingerprint (mk X v) b e = Inr (get_fingerprint X (foldl acc_add_item acc_zero xs) (of_nat (length xs)))"
proof -
  have "length xs = e - b" using assms(3,4) by (metis length_slice mset_eq_length)
  moreover have "ids_ok (slice b e (contents v))"
    using contents_ids [OF assms(1)] set_slice_subset [of b e "contents v"] by (auto simp: ids_ok_def list_all_iff)
  then have "acc_sum acc_zero (slice b e (contents v)) = acc_sum acc_zero xs"
    using assms(4) by (intro acc_sum_perm) (simp_all add: acc_zero_def)
  ultimately show ?thesis using fingerprint_contents [OF assms(1-3)] by (simp add: acc_sum_def)
qed

text \<open>A range of a storage answers for its part of the contents.\<close>

lemma sub_storage_laws:
  fixes bd
  assumes "ok X v" "k + n \<le> length (contents v)"
  defines "r \<equiv> \<lparr> sub_base = mk X v, sub_begin = k, sub_size = n \<rparr>"
    and "xs \<equiv> slice k (k + n) (contents v)"
  shows "length xs = n" "sorted_wrt (<) xs" "ids_ok xs" "length xs < 2 ^ 64"
    "i < n \<Longrightarrow> st_get_item (sub_storage r) i = Inr (xs ! i)"
    "b \<le> e \<Longrightarrow> e \<le> n \<Longrightarrow> st_visits (sub_storage r) b e = Inr (map (\<lambda>i. (xs ! i, i)) [b ..< e])"
    "b \<le> e \<Longrightarrow> e \<le> n \<Longrightarrow> st_find_lower_bound (sub_storage r) b e bd =
      Inr (b + length (takeWhile (\<lambda>it. it < b_item bd) (slice b e xs)))"
    "b \<le> e \<Longrightarrow> e \<le> n \<Longrightarrow> st_fingerprint (sub_storage r) b e =
      Inr (get_fingerprint X (foldl acc_add_item acc_zero (slice b e xs)) (of_nat (e - b)))"
proof -
  show len: "length xs = n" using assms(2) by (simp add: xs_def length_slice)
  show "sorted_wrt (<) xs" using contents_sorted [OF assms(1)] by (simp add: xs_def slice_def sorted_wrt_take sorted_wrt_drop)
  show "ids_ok xs" using contents_ids [OF assms(1)] set_slice_subset [of k "k + n" "contents v"]
    by (auto simp: xs_def ids_ok_def list_all_iff)
  show "length xs < 2 ^ 64" using len contents_small [OF assms(1)] assms(2) by simp
  have nth: "xs ! j = contents v ! (k + j)" if "j < n" for j using that assms(2) by (simp add: xs_def slice_def)
  show "i < n \<Longrightarrow> st_get_item (sub_storage r) i = Inr (xs ! i)"
    using get_item_contents [OF assms(1)] assms(2) nth by (simp add: sub_storage_def r_def)
  have sl: "slice (k + b) (k + e) (contents v) = slice b e xs" if "e \<le> n"
    using that by (simp add: xs_def slice_def drop_take add.commute)
  {
    assume be: "b \<le> e" "e \<le> n"
    have in_base: "k + b \<le> k + e" "k + e \<le> length (contents v)" using be assms(2) by simp_all
    have "[k + b ..< k + e] = map (\<lambda>i. k + i) [b ..< e]" by (intro nth_equalityI) simp_all
    then show "st_visits (sub_storage r) b e = Inr (map (\<lambda>i. (xs ! i, i)) [b ..< e])"
      using visits_contents [OF assms(1) in_base] be nth by (simp add: sub_storage_def sub_visits_def r_def)
    have "length (takeWhile (\<lambda>it. it < b_item bd) (slice b e xs)) \<le> e - b"
      using length_takeWhile_le [of _ "slice b e xs"] be len by (metis length_slice)
    then show "st_find_lower_bound (sub_storage r) b e bd =
        Inr (b + length (takeWhile (\<lambda>it. it < b_item bd) (slice b e xs)))"
      using lower_bound_contents [OF assms(1) in_base] sl be
      by (simp add: sub_storage_def sub_find_lower_bound_def r_def)
    show "st_fingerprint (sub_storage r) b e =
        Inr (get_fingerprint X (foldl acc_add_item acc_zero (slice b e xs)) (of_nat (e - b)))"
      using fingerprint_contents [OF assms(1) in_base] sl be by (simp add: sub_storage_def r_def)
  }
qed

end

section \<open>The vector keeps the contract\<close>

definition vector_ok :: "ext \<Rightarrow> vector \<Rightarrow> bool" where
  "vector_ok X v \<longleftrightarrow> v_sealed v \<and> sorted_wrt (<) (v_items v) \<and> ids_ok (v_items v) \<and> length (v_items v) < 2 ^ 64"

lemma sorted_partition_point:
  "sorted_wrt (<) xs \<Longrightarrow> partition_point (\<lambda>it. it < y) xs = length (takeWhile (\<lambda>it. it < y) xs)"
  for xs :: "'a::linorder list"
  by (rule partition_point_correct) (metis le_less_trans sorted_nth_mono strict_sorted_imp_sorted)

lemma sorted_slice: "sorted_wrt P xs \<Longrightarrow> sorted_wrt P (slice b e xs)"
  by (simp add: slice_def sorted_wrt_take sorted_wrt_drop)

interpretation vec: storage_contract vector_storage vector_ok v_items
  by unfold_locales
    (auto simp: vector_ok_def vector_storage_def vector_size_def vector_get_item_def vector_visits_def
      vector_find_lower_bound_def vector_fingerprint_def check_sealed_def check_bounds_def
      sorted_partition_point sorted_slice)

lemma adjacent_distinct:
  "sorted xs \<Longrightarrow> \<not> list_ex (\<lambda>i. xs ! (i - 1) = xs ! i) [1 ..< length xs] \<longleftrightarrow> sorted_wrt (<) xs"
  for xs :: "'a::linorder list"
proof -
  assume s: "sorted xs"
  have "\<not> list_ex (\<lambda>i. xs ! (i - 1) = xs ! i) [1 ..< length xs] \<longleftrightarrow> (\<forall>i. Suc i < length xs \<longrightarrow> xs ! i \<noteq> xs ! Suc i)"
  proof
    assume *: "\<not> list_ex (\<lambda>i. xs ! (i - 1) = xs ! i) [1 ..< length xs]"
    show "\<forall>i. Suc i < length xs \<longrightarrow> xs ! i \<noteq> xs ! Suc i"
    proof (intro allI impI)
      fix i assume "Suc i < length xs"
      then have "Suc i \<in> set [1 ..< length xs]" by simp
      with * have "xs ! (Suc i - 1) \<noteq> xs ! Suc i" unfolding list_ex_iff by blast
      then show "xs ! i \<noteq> xs ! Suc i" by simp
    qed
  next
    assume *: "\<forall>i. Suc i < length xs \<longrightarrow> xs ! i \<noteq> xs ! Suc i"
    show "\<not> list_ex (\<lambda>i. xs ! (i - 1) = xs ! i) [1 ..< length xs]"
    proof
      assume "list_ex (\<lambda>i. xs ! (i - 1) = xs ! i) [1 ..< length xs]"
      then obtain i where "i \<in> set [1 ..< length xs]" "xs ! (i - 1) = xs ! i" unfolding list_ex_iff by blast
      then have "Suc (i - 1) < length xs" "xs ! (i - 1) = xs ! Suc (i - 1)" by simp_all
      with * show False by blast
    qed
  qed
  also have "\<dots> \<longleftrightarrow> (\<forall>i. Suc i < length xs \<longrightarrow> xs ! i < xs ! Suc i)"
  proof -
    have "xs ! i \<le> xs ! Suc i" if "Suc i < length xs" for i using s that by (simp add: sorted_iff_nth_Suc)
    then have "xs ! i \<noteq> xs ! Suc i \<longleftrightarrow> xs ! i < xs ! Suc i" if "Suc i < length xs" for i
      using that by (simp add: order.strict_iff_order)
    then show ?thesis by blast
  qed
  also have "\<dots> \<longleftrightarrow> sorted_wrt (<) xs"
    by (rule sorted_wrt_iff_nth_Suc_transp [symmetric]) (simp add: transp_on_less)
  finally show ?thesis .
qed

text \<open>Sealing succeeds exactly when no item was inserted twice.\<close>

lemma vector_seal_iff:
  assumes "\<not> v_sealed v"
  shows "snd (vector_seal v) = Inr () \<longleftrightarrow> distinct (v_items v)"
    and "v_sealed (fst (vector_seal v))" and "v_items (fst (vector_seal v)) = sort (v_items v)"
proof -
  have "snd (vector_seal v) = Inr () \<longleftrightarrow> \<not> list_ex (\<lambda>i. sort (v_items v) ! (i - 1) = sort (v_items v) ! i) [1 ..< length (sort (v_items v))]"
    using assms by (simp add: vector_seal_def Let_def)
  also have "\<dots> \<longleftrightarrow> sorted_wrt (<) (sort (v_items v))" by (rule adjacent_distinct) simp
  also have "\<dots> \<longleftrightarrow> distinct (v_items v)" by (simp add: strict_sorted_iff)
  finally show "snd (vector_seal v) = Inr () \<longleftrightarrow> distinct (v_items v)" .
  show "v_sealed (fst (vector_seal v))" "v_items (fst (vector_seal v)) = sort (v_items v)"
    using assms by (simp_all add: vector_seal_def Let_def)
qed

lemma vector_seal_ok:
  assumes "\<not> v_sealed v" "ids_ok (v_items v)" "length (v_items v) < 2 ^ 64" "distinct (v_items v)"
  shows "vector_ok X (fst (vector_seal v))"
  using assms by (simp add: vector_ok_def vector_seal_iff strict_sorted_iff ids_ok_def list_all_iff)

section \<open>A range of a vector\<close>

definition sub_vector_storage :: "ext \<Rightarrow> vector \<times> nat \<times> nat \<Rightarrow> storage" where
  "sub_vector_storage X = (\<lambda>(v, k, n). sub_storage \<lparr> sub_base = vector_storage X v, sub_begin = k, sub_size = n \<rparr>)"

definition sub_vector_ok :: "ext \<Rightarrow> vector \<times> nat \<times> nat \<Rightarrow> bool" where
  "sub_vector_ok X = (\<lambda>(v, k, n). vector_ok X v \<and> k + n \<le> length (v_items v))"

definition sub_vector_items :: "vector \<times> nat \<times> nat \<Rightarrow> item list" where
  "sub_vector_items = (\<lambda>(v, k, n). slice k (k + n) (v_items v))"

interpretation subvec: storage_contract sub_vector_storage sub_vector_ok sub_vector_items
proof unfold_locales
  fix X and t :: "vector \<times> nat \<times> nat"
  assume ok: "sub_vector_ok X t"
  obtain v k n where t: "t = (v, k, n)" by (metis surj_pair)
  with ok have v: "vector_ok X v" "k + n \<le> length (v_items v)" by (simp_all add: sub_vector_ok_def)
  note laws = vec.sub_storage_laws [OF v]
  show "sorted_wrt (<) (sub_vector_items t)" "ids_ok (sub_vector_items t)" "length (sub_vector_items t) < 2 ^ 64"
    using laws(2-4) by (simp_all add: t sub_vector_items_def)
  show "st_size (sub_vector_storage X t) = Inr (of_nat (length (sub_vector_items t)))"
    using laws(1) by (simp add: t sub_vector_items_def sub_vector_storage_def sub_storage_def)
  show "i < length (sub_vector_items t) \<Longrightarrow> st_get_item (sub_vector_storage X t) i = Inr (sub_vector_items t ! i)" for i
    using laws(1,5) by (simp add: t sub_vector_items_def sub_vector_storage_def)
  fix b e :: nat
  assume "b \<le> e" "e \<le> length (sub_vector_items t)"
  then have be: "b \<le> e" "e \<le> n" using laws(1) by (simp_all add: t sub_vector_items_def)
  show "st_visits (sub_vector_storage X t) b e = Inr (map (\<lambda>i. (sub_vector_items t ! i, i)) [b ..< e])"
    using laws(6) [OF be] by (simp add: t sub_vector_items_def sub_vector_storage_def)
  show "st_find_lower_bound (sub_vector_storage X t) b e bd =
      Inr (b + length (takeWhile (\<lambda>it. it < b_item bd) (slice b e (sub_vector_items t))))" for bd
    using laws(7) [OF be] by (simp add: t sub_vector_items_def sub_vector_storage_def)
  show "st_fingerprint (sub_vector_storage X t) b e =
      Inr (get_fingerprint X (foldl acc_add_item acc_zero (slice b e (sub_vector_items t))) (of_nat (e - b)))"
    using laws(8) [OF be] by (simp add: t sub_vector_items_def sub_vector_storage_def)
qed

lemma takeWhile_less_filter:
  "sorted_wrt (<) xs \<Longrightarrow> takeWhile (\<lambda>x. x < y) xs = filter (\<lambda>x. x < y) xs \<and>
    dropWhile (\<lambda>x. x < y) xs = filter (\<lambda>x. \<not> x < y) xs"
  for xs :: "'a::linorder list"
proof (induction xs)
  case (Cons x xs)
  have "filter (\<lambda>x. x < y) xs = [] \<and> filter (\<lambda>x. \<not> x < y) xs = xs" if "\<not> x < y"
    using Cons.prems that by (auto simp: filter_empty_conv filter_id_conv)
  with Cons show ?case by auto
qed simp

lemma zero_id_least: "length i = 32 \<Longrightarrow> \<not> Item ts i < Item 0 (replicate 32 0)"
proof -
  have "\<not> xs < replicate (length xs) (0 :: u8)" for xs :: bytes
    by (induction xs) auto
  then show "length i = 32 \<Longrightarrow> \<not> Item ts i < Item 0 (replicate 32 0)"
    by (metis item.sel item_less_def less_item_def word_not_simps(1))
qed

lemma filter_up_to:
  fixes y :: "'a::linorder"
  assumes "sorted_wrt (<) xs" "\<And>x. P x \<Longrightarrow> x = y"
  shows "filter (\<lambda>x. x < y \<or> P x) xs = takeWhile (\<lambda>x. x < y) xs @
    (case dropWhile (\<lambda>x. x < y) xs of [] \<Rightarrow> [] | d # _ \<Rightarrow> if P d then [d] else [])"
  using assms(1)
proof (induction xs)
  case (Cons x xs)
  have rest: "filter (\<lambda>x. x < y \<or> P x) xs = []" if "\<not> x < y"
    using Cons.prems that assms(2) by (fastforce simp: filter_empty_conv)
  show ?case using Cons rest by auto
qed simp

lemma sub_lower_index:
  assumes "vector_ok X v"
  shows "\<exists>k. (if lower = bound_timestamp 0 then Inr 0
      else st_find_lower_bound (vector_storage X v) 0 (length (v_items v)) lower) = Inr k \<and>
    k \<le> length (v_items v) \<and> drop k (v_items v) = filter (\<lambda>it. \<not> it < b_item lower) (v_items v)"
proof (cases "lower = bound_timestamp 0")
  case True
  have "\<not> it < b_item lower" if "it \<in> set (v_items v)" for it
    using that assms zero_id_least [of "item_id it" "timestamp it"] True
    by (auto simp: vector_ok_def bound_timestamp_def ids_ok_def list_all_iff)
  then show ?thesis using True by (intro exI [of _ 0]) (simp add: filter_id_conv)
next
  case False
  have "drop (length (takeWhile (\<lambda>it. it < b_item lower) (v_items v))) (v_items v) =
      filter (\<lambda>it. \<not> it < b_item lower) (v_items v)"
    using takeWhile_less_filter [of "v_items v"] assms by (metis vector_ok_def dropWhile_eq_drop)
  moreover have "length (takeWhile (\<lambda>it. it < b_item lower) (v_items v)) \<le> length (v_items v)"
    by (rule length_takeWhile_le)
  ultimately show ?thesis
    using False vec.lower_bound_contents [OF assms, of 0 "length (v_items v)" lower] by (simp add: slice_all)
qed

lemma sub_upper_index:
  assumes "vector_ok X v" "k \<le> length (v_items v)"
  shows "\<exists>e e'. st_find_lower_bound (vector_storage X v) k (length (v_items v)) upper = Inr e \<and>
    (if e \<noteq> length (v_items v)
     then rbind (st_get_item (vector_storage X v) e) (\<lambda>it. Inr (if bound_from_item it = upper then e + 1 else e))
     else Inr e) = Inr e' \<and> k \<le> e' \<and> e' \<le> length (v_items v) \<and>
    take (e' - k) (drop k (v_items v)) =
      filter (\<lambda>it. it < b_item upper \<or> bound_from_item it = upper) (drop k (v_items v))"
proof -
  let ?xs = "v_items v" and ?p = "\<lambda>it. it < b_item upper"
  define T D where "T = takeWhile ?p (drop k ?xs)" and "D = dropWhile ?p (drop k ?xs)"
  define e where "e = k + length T"
  have TD: "T @ D = drop k ?xs" by (simp add: T_def D_def)
  then have lens: "length T + length D = length ?xs - k" by (metis length_append length_drop)
  have D: "D = drop e ?xs" using TD by (metis append_eq_conv_conj drop_drop e_def add.commute)
  have srt: "sorted_wrt (<) (drop k ?xs)" using assms(1) by (simp add: vector_ok_def sorted_wrt_drop)
  have f: "filter (\<lambda>it. it < b_item upper \<or> bound_from_item it = upper) (drop k ?xs) =
      T @ (case D of [] \<Rightarrow> [] | d # _ \<Rightarrow> if bound_from_item d = upper then [d] else [])"
    unfolding T_def D_def by (rule filter_up_to [OF srt]) (auto simp: bound_from_item_def)
  have find: "st_find_lower_bound (vector_storage X v) k (length ?xs) upper = Inr e"
    using vec.lower_bound_contents [OF assms order_refl] by (simp add: slice_def e_def T_def)
  show ?thesis
  proof (cases D)
    case Nil
    then have "e = length ?xs" using lens assms(2) by (simp add: e_def)
    with Nil find f TD assms(2) show ?thesis by (intro exI [of _ e] exI [of _ e]) (auto simp: e_def)
  next
    case (Cons d ds)
    then have lt: "e < length ?xs" using lens assms(2) by (simp add: e_def)
    then have d: "?xs ! e = d" using D Cons by (metis hd_drop_conv_nth list.sel(1))
    show ?thesis
      using lt find f TD [symmetric] Cons d vec.get_item_contents [OF assms(1) lt]
      by (intro exI [of _ e] exI [of _ "if bound_from_item d = upper then e + 1 else e"]) (auto simp: e_def)
  qed
qed

text \<open>C32: the range \<open>SubRange::new\<close> selects from a sealed vector holds exactly the items that
  are not below the lower bound and are below the upper bound, the item that is the upper bound
  itself included, and every item from the lower bound on when the upper bound is the maximal time.\<close>

theorem sub_range_new_items:
  assumes "vector_ok X v"
  shows "\<exists>k n. sub_range_new (vector_storage X v) lower upper =
      Inr \<lparr> sub_base = vector_storage X v, sub_begin = k, sub_size = n \<rparr> \<and> sub_vector_ok X (v, k, n) \<and>
    sub_vector_items (v, k, n) = filter (\<lambda>it. \<not> it < b_item lower \<and>
      (upper = bound_timestamp (- 1) \<or> it < b_item upper \<or> bound_from_item it = upper)) (v_items v)"
proof -
  define xs where "xs = v_items v"
  have size: "st_size (vector_storage X v) = Inr (of_nat (length xs))" "unat (of_nat (length xs) :: u64) = length xs"
    using vec.size_contents [OF assms] vec.contents_small [OF assms] by (simp_all add: xs_def unat_of_nat)
  obtain k where k: "(if lower = bound_timestamp 0 then Inr 0
      else st_find_lower_bound (vector_storage X v) 0 (length xs) lower) = Inr k" "k \<le> length xs"
      "drop k xs = filter (\<lambda>it. \<not> it < b_item lower) xs"
    using sub_lower_index [OF assms] unfolding xs_def by blast
  show ?thesis
  proof (cases "upper = bound_timestamp (- 1)")
    case True
    have "sub_range_new (vector_storage X v) lower upper =
        Inr \<lparr> sub_base = vector_storage X v, sub_begin = k, sub_size = length xs - k \<rparr>"
      using size k(1) True by (simp add: sub_range_new_def)
    moreover have "sub_vector_items (v, k, length xs - k) = drop k xs" by (simp add: sub_vector_items_def slice_def xs_def)
    ultimately show ?thesis using True k assms
      by (intro exI [of _ k] exI [of _ "length xs - k"]) (simp add: sub_vector_ok_def xs_def)
  next
    case False
    obtain e e' where e: "st_find_lower_bound (vector_storage X v) k (length xs) upper = Inr e"
        "(if e \<noteq> length xs
          then rbind (st_get_item (vector_storage X v) e) (\<lambda>it. Inr (if bound_from_item it = upper then e + 1 else e))
          else Inr e) = Inr e'" "k \<le> e'" "e' \<le> length xs"
        "take (e' - k) (drop k xs) = filter (\<lambda>it. it < b_item upper \<or> bound_from_item it = upper) (drop k xs)"
      using sub_upper_index [OF assms, of k upper] k(2) unfolding xs_def by blast
    have "sub_range_new (vector_storage X v) lower upper =
        Inr \<lparr> sub_base = vector_storage X v, sub_begin = k, sub_size = e' - k \<rparr>"
      using size k(1) False e(1,2) by (simp add: sub_range_new_def)
    moreover have "sub_vector_items (v, k, e' - k) = filter (\<lambda>it. it < b_item upper \<or> bound_from_item it = upper) (drop k xs)"
      using e(5) by (simp add: sub_vector_items_def slice_def xs_def)
    ultimately show ?thesis using False e(3,4) assms k(3)
      by (intro exI [of _ k] exI [of _ "e' - k"]) (simp add: sub_vector_ok_def xs_def conj_commute)
  qed
qed

definition sample_vector :: vector where
  "sample_vector = \<lparr> v_items = [Item 3 (replicate 32 7), Item 3 (replicate 32 9), Item 8 (replicate 32 1)], v_sealed = True \<rparr>"

lemma replicate_less: "replicate n a < replicate n b \<longleftrightarrow> 0 < n \<and> a < b" for a :: "'a::linorder"
  by (induction n) auto

lemma sample_vector_ok: "vector_ok X sample_vector"
  by (simp add: vector_ok_def sample_vector_def less_item_def item_less_def replicate_less)

theorem sub_range_new_items_witness:
  "\<exists>k n. sub_range_new (vector_storage sample_ext sample_vector) (bound_timestamp 3) (bound_timestamp 8) =
      Inr \<lparr> sub_base = vector_storage sample_ext sample_vector, sub_begin = k, sub_size = n \<rparr> \<and>
    sub_vector_items (sample_vector, k, n) = [Item 3 (replicate 32 7), Item 3 (replicate 32 9)]"
proof -
  have "filter (\<lambda>it. \<not> it < b_item (bound_timestamp 3) \<and>
      (bound_timestamp 8 = bound_timestamp (- 1) \<or> it < b_item (bound_timestamp 8) \<or> bound_from_item it = bound_timestamp 8))
      (v_items sample_vector) = [Item 3 (replicate 32 7), Item 3 (replicate 32 9)]"
    by (simp add: sample_vector_def bound_timestamp_def bound_from_item_def less_item_def item_less_def ID_SIZE_def replicate_less)
  then show ?thesis
    using sub_range_new_items [OF sample_vector_ok [of sample_ext], of "bound_timestamp 3" "bound_timestamp 8"] by metis
qed

text \<open>C33: sealing an open vector succeeds exactly when no item was inserted twice, it always leaves
  the sorted items behind a seal, and a vector sealed with 32-byte ids answers every operation for
  the sorted items: its size, the item at an index, and the first index not below a bound.\<close>

theorem vector_seal_contents:
  assumes "\<not> v_sealed v" "ids_ok (v_items v)" "length (v_items v) < 2 ^ 64"
  shows "(snd (vector_seal v) = Inr () \<longleftrightarrow> distinct (v_items v)) \<and>
    v_items (fst (vector_seal v)) = sort (v_items v) \<and>
    (distinct (v_items v) \<longrightarrow>
      vector_size (fst (vector_seal v)) = Inr (of_nat (length (v_items v))) \<and>
      (\<forall>i < length (v_items v). vector_get_item (fst (vector_seal v)) i = Inr (sort (v_items v) ! i)) \<and>
      vector_find_lower_bound (fst (vector_seal v)) 0 (length (v_items v)) bd =
        Inr (length (filter (\<lambda>it. it < b_item bd) (v_items v))))"
proof -
  define w where "w = fst (vector_seal v)"
  have w: "v_items w = sort (v_items v)" using vector_seal_iff(3) [OF assms(1)] by (simp add: w_def)
  have "vector_size w = Inr (of_nat (length (v_items v))) \<and>
      (\<forall>i < length (v_items v). vector_get_item w i = Inr (sort (v_items v) ! i)) \<and>
      vector_find_lower_bound w 0 (length (v_items v)) bd = Inr (length (filter (\<lambda>it. it < b_item bd) (v_items v)))"
    if "distinct (v_items v)"
  proof -
    have ok: "vector_ok sample_ext w" using vector_seal_ok [OF assms that] by (simp add: w_def)
    have "length (takeWhile (\<lambda>it. it < b_item bd) (sort (v_items v))) = length (filter (\<lambda>it. it < b_item bd) (v_items v))"
      using takeWhile_less_filter [of "sort (v_items v)" "b_item bd"] that
      by (simp add: strict_sorted_iff filter_sort)
    then show ?thesis
      using vec.size_contents [OF ok] vec.get_item_contents [OF ok] vec.lower_bound_contents [OF ok, of 0 "length (v_items v)" bd]
      by (simp add: w vector_storage_def slice_def)
  qed
  then show ?thesis using vector_seal_iff [OF assms(1)] w_def by auto
qed

theorem vector_seal_contents_witness:
  "vector_find_lower_bound (fst (vector_seal \<lparr> v_items = [Item 8 (replicate 32 1), Item 3 (replicate 32 7)], v_sealed = False \<rparr>))
     0 2 (bound_timestamp 8) = Inr 1"
proof -
  let ?v = "\<lparr> v_items = [Item 8 (replicate 32 1), Item 3 (replicate 32 7)], v_sealed = False \<rparr>"
  have "\<not> v_sealed ?v" "ids_ok (v_items ?v)" "length (v_items ?v) < 2 ^ 64" "distinct (v_items ?v)" by simp_all
  moreover have "length (filter (\<lambda>it. it < b_item (bound_timestamp 8)) (v_items ?v)) = 1" "length (v_items ?v) = 2"
    by (simp_all add: bound_timestamp_def less_item_def item_less_def replicate_less)
  ultimately show ?thesis using vector_seal_contents [of ?v "bound_timestamp 8"] by metis
qed

end
