(* ===== verification/Neg_Protocol.thy ===== *)
theory Neg_Protocol
  imports Neg_Vector
begin

text \<open>
  The range-based set reconciliation of \<open>wok-negentropy/src/protocol.rs\<close>: the bound codec with its
  timestamp deltas, the split of a range, and the reconcile loop with its frame-size and work limits.
  An operation returns its output with the new session, or an error; the session after an error is
  not described, since callers drop it. The order in which a \<open>HashSet\<close> gives its elements is the
  parameter \<open>ord\<close>.
\<close>

definition MAX_RECONCILE_INPUT_BYTES :: nat where "MAX_RECONCILE_INPUT_BYTES = 1024 * 1024"

definition MAX_RECONCILE_WORK :: nat where "MAX_RECONCILE_WORK = 65536"

record negentropy =
  ng_storage :: storage
  frame_size_limit :: u64
  is_initiator :: bool
  last_timestamp_in :: u64
  last_timestamp_out :: u64
  work :: nat
  work_limit :: nat

definition neg_new :: "storage \<Rightarrow> u64 \<Rightarrow> neg_error + negentropy" where
  "neg_new S limit =
     (if limit \<noteq> 0 \<and> limit < 4096 then Inl (NegMessage ''frameSizeLimit too small'')
      else Inr \<lparr> ng_storage = S, frame_size_limit = limit, is_initiator = False, last_timestamp_in = 0,
        last_timestamp_out = 0, work = 0, work_limit = MAX_RECONCILE_WORK \<rparr>)"

definition set_initiator :: "negentropy \<Rightarrow> negentropy" where
  "set_initiator g = g\<lparr> is_initiator := True \<rparr>"

definition exceeded_frame_size_limit :: "negentropy \<Rightarrow> nat \<Rightarrow> bool" where
  "exceeded_frame_size_limit g n \<longleftrightarrow> frame_size_limit g \<noteq> 0 \<and> unat (sat_sub (frame_size_limit g) 200) < n"

section \<open>Bounds\<close>

definition decode_timestamp_in :: "negentropy \<Rightarrow> bytes \<Rightarrow> neg_error + u64 \<times> negentropy \<times> bytes" where
  "decode_timestamp_in g encoded = rbind (decode_varint encoded) (\<lambda>(t, rest).
     let t1 = if t = 0 then - 1 else t - 1;
         t2 = sat_add t1 (last_timestamp_in g);
         t3 = if t2 < last_timestamp_in g then - 1 else t2 in
     Inr (t3, g\<lparr> last_timestamp_in := t3 \<rparr>, rest))"

definition decode_bound :: "negentropy \<Rightarrow> bytes \<Rightarrow> neg_error + bound \<times> negentropy \<times> bytes" where
  "decode_bound g encoded = rbind (decode_timestamp_in g encoded) (\<lambda>(t, g', r1).
     rbind (decode_varint r1) (\<lambda>(len, r2). rbind (get_bytes r2 (unat len)) (\<lambda>(i, r3).
     rbind (bound_with_id_prefix t i) (\<lambda>b. Inr (b, g', r3)))))"

definition encode_timestamp_out :: "negentropy \<Rightarrow> u64 \<Rightarrow> bytes \<times> negentropy" where
  "encode_timestamp_out g t =
     (if t = - 1 then (encode_varint 0, g\<lparr> last_timestamp_out := - 1 \<rparr>)
      else (encode_varint (sat_sub t (last_timestamp_out g) + 1), g\<lparr> last_timestamp_out := t \<rparr>))"

definition encode_bound :: "negentropy \<Rightarrow> bound \<Rightarrow> bytes \<times> negentropy" where
  "encode_bound g b =
     (let (output, g') = encode_timestamp_out g (timestamp (b_item b)) in
      (output @ encode_varint (of_nat (id_len b)) @ take (id_len b) (item_id (b_item b)), g'))"

function shared_loop :: "bytes \<Rightarrow> bytes \<Rightarrow> nat \<Rightarrow> nat" where
  "shared_loop curr_id prev_id shared =
     (if shared < ID_SIZE \<and> curr_id ! shared = prev_id ! shared then shared_loop curr_id prev_id (shared + 1)
      else shared)"
  by pat_completeness auto
termination
  by (relation "measure (\<lambda>(c, p, s). ID_SIZE - s)") auto

declare shared_loop.simps [simp del]

definition get_minimal_bound :: "item \<Rightarrow> item \<Rightarrow> bound" where
  "get_minimal_bound prev cur =
     (if timestamp cur \<noteq> timestamp prev then bound_timestamp (timestamp cur)
      else let shared = shared_loop (item_id cur) (item_id prev) 0 in
        case bound_with_id_prefix (timestamp cur) (take (min (shared + 1) ID_SIZE) (item_id cur)) of
          Inr b \<Rightarrow> b | Inl _ \<Rightarrow> bound_timestamp (timestamp cur))"

section \<open>Splitting a range\<close>

definition BUCKETS :: nat where "BUCKETS = 16"

definition boundary_cb :: "nat \<Rightarrow> item \<times> item \<Rightarrow> item \<Rightarrow> nat \<Rightarrow> (item \<times> item) \<times> bool" where
  "boundary_cb cur = (\<lambda>(prev_item, curr_item) it index.
     if index = cur - 1 then ((it, curr_item), True) else ((prev_item, it), True))"

definition split_bucket :: "nat \<Rightarrow> bound \<Rightarrow> nat \<Rightarrow> negentropy \<times> nat \<times> bytes \<Rightarrow> nat \<Rightarrow> neg_error + negentropy \<times> nat \<times> bytes" where
  "split_bucket upper upper_bound num_elems = (\<lambda>(g, start, o') i.
     let bucket_size = num_elems div BUCKETS + (if i < num_elems mod BUCKETS then 1 else 0);
         g1 = g\<lparr> work := work g + 2 \<rparr>;
         cur = start + bucket_size in
     rbind (st_fingerprint (ng_storage g) start cur) (\<lambda>our_fp.
     rbind (if cur = upper then Inr (upper_bound, g1)
            else rbind (st_iterate (ng_storage g) (cur - 1) (cur + 1) (boundary_cb cur) (item_default, item_default))
              (\<lambda>(prev_item, curr_item). Inr (get_minimal_bound prev_item curr_item, g1\<lparr> work := work g1 + 1 \<rparr>)))
       (\<lambda>(next_bound, g2).
     let (eb, g3) = encode_bound g2 next_bound in
     Inr (g3, cur, o' @ eb @ encode_varint (mode_as_u64 Fingerprint) @ our_fp))))"

definition split_range :: "negentropy \<Rightarrow> nat \<Rightarrow> nat \<Rightarrow> bound \<Rightarrow> neg_error + bytes \<times> negentropy" where
  "split_range g lower upper upper_bound =
     (if upper < lower then Inl (NegMessage ''negentropy bounds out of order'')
      else let num_elems = upper - lower in
        if num_elems < BUCKETS * 2 then
          let (eb, g1) = encode_bound g upper_bound in
          rbind (st_iterate (ng_storage g) lower upper (\<lambda>o' it i. (o' @ item_id it, True))
              (eb @ encode_varint (mode_as_u64 IdList) @ encode_varint (of_nat num_elems)))
            (\<lambda>o'. Inr (o', g1\<lparr> work := work g1 + 1 \<rparr>))
        else rbind (try_fold (split_bucket upper upper_bound num_elems) (g, lower, []) [0 ..< BUCKETS])
            (\<lambda>(g1, cur, o'). Inr (o', g1)))"

definition initiate :: "negentropy \<Rightarrow> neg_error + bytes \<times> negentropy" where
  "initiate g =
     (if is_initiator g then Inl (NegMessage ''already initiated'')
      else let g1 = g\<lparr> is_initiator := True \<rparr> in
        rbind (st_size (ng_storage g1)) (\<lambda>size64.
        rbind (split_range g1 0 (unat size64) (bound_timestamp (- 1))) (\<lambda>(o', g2).
        Inr (PROTOCOL_VERSION # o', g2))))"

section \<open>Reconciling\<close>

text \<open>The local variables of the loop of \<open>reconcile_aux\<close>.\<close>

record recon =
  rc_neg :: negentropy
  rc_query :: bytes
  full_output :: bytes
  prev_bound :: bound
  prev_index :: nat
  rc_skip :: bool
  have_ids :: "bytes list"
  need_ids :: "bytes list"

text \<open>One fingerprint for everything from an index on, and the skip still owed.\<close>

definition answer_rest :: "nat \<Rightarrow> negentropy \<Rightarrow> nat \<Rightarrow> neg_error + bytes \<times> negentropy" where
  "answer_rest storage_size g from =
     rbind (st_fingerprint (ng_storage g) from storage_size) (\<lambda>remaining.
       let (eb, g') = encode_bound g (bound_timestamp (- 1)) in
       Inr (eb @ encode_varint (mode_as_u64 Fingerprint) @ remaining, g'))"

definition owed_skip :: "negentropy \<Rightarrow> bool \<Rightarrow> bound \<Rightarrow> bytes \<times> negentropy" where
  "owed_skip g skip b =
     (if skip then let (eb, g') = encode_bound g b in (eb @ encode_varint (mode_as_u64 Skip), g') else ([], g))"

definition add_work :: "nat \<Rightarrow> recon \<Rightarrow> recon" where
  "add_work n s = s\<lparr> rc_neg := (rc_neg s)\<lparr> work := work (rc_neg s) + n \<rparr> \<rparr>"

text \<open>Each mode returns the updated variables, the output \<open>o\<close> not yet appended, and \<open>upper\<close>.\<close>

definition fingerprint_mode :: "recon \<Rightarrow> nat \<Rightarrow> nat \<Rightarrow> bound \<Rightarrow> neg_error + recon \<times> bytes \<times> nat" where
  "fingerprint_mode s lower upper curr_bound =
     rbind (get_bytes (rc_query s) FINGERPRINT_SIZE) (\<lambda>(their_fp, q).
     let s1 = add_work 2 (s\<lparr> rc_query := q \<rparr>) in
     rbind (st_fingerprint (ng_storage (rc_neg s1)) lower upper) (\<lambda>our_fp.
     if their_fp \<noteq> our_fp then
       let (sk, g1) = owed_skip (rc_neg s1) (rc_skip s1) (prev_bound s1) in
       rbind (split_range g1 lower upper curr_bound) (\<lambda>(o', g2).
       Inr (s1\<lparr> rc_neg := g2, rc_skip := False \<rparr>, sk @ o', upper))
     else Inr (s1\<lparr> rc_skip := True \<rparr>, [], upper)))"

fun read_ids :: "nat \<Rightarrow> bool \<Rightarrow> bytes list \<Rightarrow> bytes \<Rightarrow> neg_error + bytes list \<times> bytes" where
  "read_ids 0 keep elems q = Inr (elems, q)"
| "read_ids (Suc n) keep elems q =
     rbind (get_bytes q ID_SIZE) (\<lambda>(e, q'). read_ids n keep (if keep then List.insert e elems else elems) q')"

definition have_cb :: "bytes list \<times> bytes list \<Rightarrow> item \<Rightarrow> nat \<Rightarrow> (bytes list \<times> bytes list) \<times> bool" where
  "have_cb = (\<lambda>(their_elems, have) it index.
     if item_id it \<in> set their_elems then ((remove1 (item_id it) their_elems, have), True)
     else ((their_elems, have @ [item_id it]), True))"

text \<open>The callback that collects ids for the reply stops at the frame limit and moves the upper end there.\<close>

definition response_cb :: "u64 \<Rightarrow> nat \<Rightarrow> bytes \<times> u64 \<times> bound \<times> nat \<Rightarrow> item \<Rightarrow> nat \<Rightarrow> (bytes \<times> u64 \<times> bound \<times> nat) \<times> bool" where
  "response_cb frame_limit full_len = (\<lambda>(response_ids, num_response_ids, end_bound, upper) it index.
     if frame_limit \<noteq> 0 \<and> unat (sat_sub frame_limit 200) < full_len + length response_ids
     then ((response_ids, num_response_ids, bound_from_item it, index), False)
     else ((response_ids @ item_id it, num_response_ids + 1, end_bound, upper), True))"

definition idlist_mode :: "(bytes list \<Rightarrow> bytes list) \<Rightarrow> recon \<Rightarrow> nat \<Rightarrow> nat \<Rightarrow> bound \<Rightarrow> neg_error + recon \<times> bytes \<times> nat" where
  "idlist_mode ord s lower upper curr_bound =
     rbind (decode_varint (rc_query s)) (\<lambda>(num_ids, q).
     rbind (read_ids (unat num_ids) (is_initiator (rc_neg s)) [] q) (\<lambda>(their_elems, q').
     let s1 = add_work 1 (s\<lparr> rc_query := q' \<rparr>); S = ng_storage (rc_neg s1) in
     if is_initiator (rc_neg s1) then
       rbind (st_iterate S lower upper have_cb (their_elems, have_ids s1)) (\<lambda>(their_elems', have).
       Inr (s1\<lparr> rc_skip := True, have_ids := have, need_ids := need_ids s1 @ ord their_elems' \<rparr>, [], upper))
     else
       let (sk, g1) = owed_skip (rc_neg s1) (rc_skip s1) (prev_bound s1) in
       rbind (st_iterate S lower upper (response_cb (frame_size_limit g1) (length (full_output s1))) ([], 0, curr_bound, upper))
         (\<lambda>(response_ids, num_response_ids, end_bound, upper').
       let (eb, g2) = encode_bound g1 end_bound in
       Inr (s1\<lparr> rc_neg := g2, rc_skip := False,
           full_output := full_output s1 @ sk @ eb @ encode_varint (mode_as_u64 IdList) @
             encode_varint num_response_ids @ response_ids \<rparr>, [], upper'))))"

definition mode_range :: "(bytes list \<Rightarrow> bytes list) \<Rightarrow> Mode \<Rightarrow> recon \<Rightarrow> nat \<Rightarrow> nat \<Rightarrow> bound \<Rightarrow> neg_error + recon \<times> bytes \<times> nat" where
  "mode_range ord mode s lower upper curr_bound =
     (case mode of
        Skip \<Rightarrow> Inr (s\<lparr> rc_skip := True \<rparr>, [], upper)
      | Fingerprint \<Rightarrow> fingerprint_mode s lower upper curr_bound
      | IdList \<Rightarrow> idlist_mode ord s lower upper curr_bound)"

text \<open>After a range, the reply either takes the output of the range or ends with one fingerprint.\<close>

definition finish_range :: "nat \<Rightarrow> recon \<Rightarrow> bytes \<Rightarrow> nat \<Rightarrow> bound \<Rightarrow> neg_error + bool \<times> recon" where
  "finish_range storage_size s o' upper curr_bound =
     (if exceeded_frame_size_limit (rc_neg s) (length (full_output s) + length o') then
        rbind (answer_rest storage_size (rc_neg s) upper) (\<lambda>(rest, g).
        Inr (False, s\<lparr> rc_neg := g, full_output := full_output s @ rest \<rparr>))
      else Inr (True, s\<lparr> full_output := full_output s @ o', prev_index := upper, prev_bound := curr_bound \<rparr>))"

text \<open>One pass of the loop; the flag says whether the loop goes on.\<close>

definition reconcile_step :: "(bytes list \<Rightarrow> bytes list) \<Rightarrow> nat \<Rightarrow> recon \<Rightarrow> neg_error + bool \<times> recon" where
  "reconcile_step ord storage_size s =
     (if work_limit (rc_neg s) \<le> work (rc_neg s) then
        let (sk, g1) = owed_skip (rc_neg s) (rc_skip s) (prev_bound s) in
        rbind (answer_rest storage_size g1 (prev_index s)) (\<lambda>(rest, g2).
        Inr (False, s\<lparr> rc_neg := g2, full_output := full_output s @ sk @ rest \<rparr>))
      else
        rbind (decode_bound (rc_neg s) (rc_query s)) (\<lambda>(curr_bound, g1, q1).
        rbind (decode_varint q1) (\<lambda>(m, q2).
        rbind (mode_try_from m) (\<lambda>mode.
        let lower = prev_index s;
            s1 = add_work 1 (s\<lparr> rc_neg := g1, rc_query := q2 \<rparr>) in
        rbind (st_find_lower_bound (ng_storage g1) (prev_index s) storage_size curr_bound) (\<lambda>upper.
        if upper < prev_index s then Inl (NegMessage ''negentropy bounds out of order'')
        else rbind (mode_range ord mode s1 lower upper curr_bound) (\<lambda>(s2, o', upper').
          finish_range storage_size s2 o' upper' curr_bound))))))"

lemma get_bytes_Inr: "get_bytes q n = Inr (a, r) \<longleftrightarrow> q = a @ r \<and> length a = n"
  by (auto simp: get_bytes_def split: if_splits)

lemma decode_bound_shorter: "decode_bound g q = Inr (b, g', r) \<Longrightarrow> length r < length q"
  by (auto simp: decode_bound_def decode_timestamp_in_def rbind_eq_Inr Let_def get_bytes_Inr
      dest!: decode_varint_shorter)

lemma read_ids_Inr: "read_ids n k es q = Inr (es', r) \<Longrightarrow> \<exists>a. q = a @ r \<and> length a = n * ID_SIZE"
proof (induction n k es q rule: read_ids.induct)
  case (2 n k es q)
  then show ?case by (force simp: rbind_eq_Inr get_bytes_Inr)
qed simp

lemma add_work_simps [simp]:
  "rc_query (add_work n s) = rc_query s" "full_output (add_work n s) = full_output s"
  "prev_bound (add_work n s) = prev_bound s" "prev_index (add_work n s) = prev_index s"
  "rc_skip (add_work n s) = rc_skip s" "have_ids (add_work n s) = have_ids s" "need_ids (add_work n s) = need_ids s"
  "ng_storage (rc_neg (add_work n s)) = ng_storage (rc_neg s)"
  "frame_size_limit (rc_neg (add_work n s)) = frame_size_limit (rc_neg s)"
  "is_initiator (rc_neg (add_work n s)) = is_initiator (rc_neg s)"
  "last_timestamp_in (rc_neg (add_work n s)) = last_timestamp_in (rc_neg s)"
  "last_timestamp_out (rc_neg (add_work n s)) = last_timestamp_out (rc_neg s)"
  "work_limit (rc_neg (add_work n s)) = work_limit (rc_neg s)"
  "work (rc_neg (add_work n s)) = work (rc_neg s) + n"
  by (simp_all add: add_work_def)

lemma fingerprint_mode_query: "fingerprint_mode s l u b = Inr (s', o', u') \<Longrightarrow> length (rc_query s') \<le> length (rc_query s)"
  by (auto simp: fingerprint_mode_def rbind_eq_Inr Let_def get_bytes_Inr split_beta split: if_splits)

lemma idlist_mode_query: "idlist_mode ord s l u b = Inr (s', o', u') \<Longrightarrow> length (rc_query s') \<le> length (rc_query s)"
  by (auto simp: idlist_mode_def rbind_eq_Inr Let_def split_beta split: if_splits
      dest!: decode_varint_shorter read_ids_Inr)

lemma mode_range_query: "mode_range ord m s l u b = Inr (s', o', u') \<Longrightarrow> length (rc_query s') \<le> length (rc_query s)"
  using fingerprint_mode_query idlist_mode_query by (cases m) (fastforce simp: mode_range_def)+

lemma if_error_Inr [res_simps]: "(if c then Inl e else x) = Inr y \<longleftrightarrow> \<not> c \<and> x = Inr y"
  by simp

lemma reconcile_step_Inr:
  assumes "reconcile_step ord n s = Inr (go, s')" "work (rc_neg s) < work_limit (rc_neg s)"
  shows "\<exists>b g1 q1 m q2 mode upper s2 o2 upper2.
    decode_bound (rc_neg s) (rc_query s) = Inr (b, g1, q1) \<and> decode_varint q1 = Inr (m, q2) \<and>
    mode_try_from m = Inr mode \<and> st_find_lower_bound (ng_storage g1) (prev_index s) n b = Inr upper \<and> prev_index s \<le> upper \<and>
    mode_range ord mode (add_work 1 (s\<lparr> rc_neg := g1, rc_query := q2 \<rparr>)) (prev_index s) upper b = Inr (s2, o2, upper2) \<and>
    finish_range n s2 o2 upper2 b = Inr (go, s')"
proof -
  have "\<not> work_limit (rc_neg s) \<le> work (rc_neg s)" using assms(2) by simp
  with assms(1) show ?thesis
    unfolding reconcile_step_def Let_def
    by (simp only: if_False rbind_eq_Inr if_error_Inr split_paired_Ex prod.case not_less) blast
qed

lemma finish_range_go:
  "finish_range n s o' u b = Inr (True, s') \<Longrightarrow>
    \<not> exceeded_frame_size_limit (rc_neg s) (length (full_output s) + length o') \<and>
    s' = s\<lparr> full_output := full_output s @ o', prev_index := u, prev_bound := b \<rparr>"
  by (auto simp: finish_range_def rbind_eq_Inr split: if_splits)

lemma reconcile_step_shorter:
  assumes "reconcile_step ord n s = Inr (True, s')"
  shows "length (rc_query s') < length (rc_query s)"
proof -
  have "work (rc_neg s) < work_limit (rc_neg s)"
    using assms by (auto simp: reconcile_step_def rbind_eq_Inr split: if_splits prod.splits)
  then obtain b g1 q1 m q2 mode upper s2 o2 upper2
    where "decode_bound (rc_neg s) (rc_query s) = Inr (b, g1, q1)" "decode_varint q1 = Inr (m, q2)"
      "mode_range ord mode (add_work 1 (s\<lparr> rc_neg := g1, rc_query := q2 \<rparr>)) (prev_index s) upper b = Inr (s2, o2, upper2)"
      "finish_range n s2 o2 upper2 b = Inr (True, s')"
    using reconcile_step_Inr [OF assms] by blast
  then show ?thesis using decode_bound_shorter decode_varint_shorter mode_range_query finish_range_go by fastforce
qed

function reconcile_loop :: "(bytes list \<Rightarrow> bytes list) \<Rightarrow> nat \<Rightarrow> recon \<Rightarrow> neg_error + recon" where
  "reconcile_loop ord storage_size s =
     (if rc_query s = [] then Inr s
      else rbind (reconcile_step ord storage_size s) (\<lambda>(go, s'). if go then reconcile_loop ord storage_size s' else Inr s'))"
  by pat_completeness auto
termination
  by (relation "measure (\<lambda>(ord, n, s). length (rc_query s))") (auto dest: reconcile_step_shorter)

declare reconcile_loop.simps [simp del]

definition reconcile_aux :: "(bytes list \<Rightarrow> bytes list) \<Rightarrow> negentropy \<Rightarrow> bytes \<Rightarrow> bytes list \<Rightarrow> bytes list \<Rightarrow>
    neg_error + bytes \<times> negentropy \<times> bytes list \<times> bytes list" where
  "reconcile_aux ord g query have need =
     (if MAX_RECONCILE_INPUT_BYTES < length query then Inl (NegMessage ''negentropy message too large'')
      else let g1 = g\<lparr> last_timestamp_in := 0, last_timestamp_out := 0, work := 0 \<rparr> in
        rbind (get_byte query) (\<lambda>(protocol_version, q).
        if \<not> (0x60 \<le> protocol_version \<and> protocol_version \<le> 0x6F)
        then Inl (NegMessage ''invalid negentropy protocol version byte'')
        else if protocol_version \<noteq> PROTOCOL_VERSION then
          if is_initiator g1
          then Inl (NegMessage (''unsupported negentropy protocol version requested'' @
            map (\<lambda>b. char_of (unat b)) (to_decimal (unat (protocol_version - 0x60)))))
          else Inr ([PROTOCOL_VERSION], g1, have, need)
        else rbind (st_size (ng_storage g1)) (\<lambda>size64.
          rbind (reconcile_loop ord (unat size64) \<lparr> rc_neg = g1, rc_query = q, full_output = [PROTOCOL_VERSION],
              prev_bound = bound_default, prev_index = 0, rc_skip = False, have_ids = have, need_ids = need \<rparr>)
            (\<lambda>s. Inr (full_output s, rc_neg s, have_ids s, need_ids s)))))"

definition reconcile :: "(bytes list \<Rightarrow> bytes list) \<Rightarrow> negentropy \<Rightarrow> bytes \<Rightarrow> neg_error + bytes \<times> negentropy" where
  "reconcile ord g query =
     (if is_initiator g then Inl (NegMessage ''initiator not asking for have/need IDs'')
      else rbind (reconcile_aux ord g query [] []) (\<lambda>(out, g', have, need). Inr (out, g')))"

definition reconcile_with_ids :: "(bytes list \<Rightarrow> bytes list) \<Rightarrow> negentropy \<Rightarrow> bytes \<Rightarrow> bytes list \<Rightarrow> bytes list \<Rightarrow>
    neg_error + bytes option \<times> negentropy \<times> bytes list \<times> bytes list" where
  "reconcile_with_ids ord g query have need =
     (if \<not> is_initiator g then Inl (NegMessage ''non-initiator asking for have/need IDs'')
      else rbind (reconcile_aux ord g query have need) (\<lambda>(out, g', have', need').
        Inr (if length out = 1 then None else Some out, g', have', need')))"

section \<open>Bounds survive the wire\<close>

definition bound_ok :: "bound \<Rightarrow> bool" where
  "bound_ok b \<longleftrightarrow> id_len b \<le> 32 \<and> length (item_id (b_item b)) = 32 \<and>
     drop (id_len b) (item_id (b_item b)) = replicate (32 - id_len b) 0"

lemma bound_ok_timestamp [simp]: "bound_ok (bound_timestamp t)"
  by (simp add: bound_ok_def bound_timestamp_def)

lemma bound_ok_from_item: "length (item_id it) = 32 \<Longrightarrow> bound_ok (bound_from_item it)"
  by (simp add: bound_ok_def bound_from_item_def ID_SIZE_def)

lemma bound_ok_prefix: "bound_with_id_prefix t i = Inr b \<Longrightarrow> bound_ok b \<and> b_item b = Item t (i @ replicate (32 - length i) 0) \<and> id_len b = length i"
  by (auto simp: bound_with_id_prefix_def bound_ok_def ID_SIZE_def split: if_splits)

lemma decode_encode_timestamp:
  assumes "last_timestamp_out g = last_timestamp_in h" "last_timestamp_out g \<le> t"
  shows "decode_timestamp_in h (fst (encode_timestamp_out g t) @ rest) = Inr (t, h\<lparr> last_timestamp_in := t \<rparr>, rest)"
    "snd (encode_timestamp_out g t) = g\<lparr> last_timestamp_out := t \<rparr>"
proof -
  show "snd (encode_timestamp_out g t) = g\<lparr> last_timestamp_out := t \<rparr>" by (simp add: encode_timestamp_out_def)
  let ?l = "last_timestamp_in h"
  show "decode_timestamp_in h (fst (encode_timestamp_out g t) @ rest) = Inr (t, h\<lparr> last_timestamp_in := t \<rparr>, rest)"
  proof (cases "t = - 1")
    case True
    have "unat (sat_add (- 1) ?l) = unat (- 1 :: u64)"
      unfolding unat_sat_add unat_minus_one_word by simp
    then have "sat_add (- 1) ?l = - 1" by (simp only: word_unat_eq_iff)
    then show ?thesis using True
      by (simp add: encode_timestamp_out_def decode_timestamp_in_def decode_encode_varint Let_def)
  next
    case False
    have d: "sat_sub t ?l = t - ?l" using assms by (simp add: sat_sub_def)
    have nz: "t - ?l + 1 \<noteq> 0"
    proof
      assume "t - ?l + 1 = 0"
      then have "t - ?l = - 1" by (simp add: eq_neg_iff_add_eq_0)
      moreover have "t - ?l \<le> t" using assms by (simp add: word_sub_le)
      ultimately show False using False by (simp add: word_order.extremum_unique)
    qed
    have "unat (sat_add (t - ?l) ?l) = unat t"
      unfolding unat_sat_add using assms unat_le_max [of t] by (simp add: unat_sub word_le_nat_alt)
    then have "sat_add (t - ?l) ?l = t" by (simp only: word_unat_eq_iff)
    then show ?thesis using False d nz assms
      by (simp add: encode_timestamp_out_def decode_timestamp_in_def decode_encode_varint Let_def)
  qed
qed

lemma decode_encode_bound:
  assumes "bound_ok b" "last_timestamp_out g = last_timestamp_in h" "last_timestamp_out g \<le> timestamp (b_item b)"
    "encode_bound g b = (eb, g')"
  shows "decode_bound h (eb @ rest) = Inr (b, h\<lparr> last_timestamp_in := timestamp (b_item b) \<rparr>, rest)"
    "g' = g\<lparr> last_timestamp_out := timestamp (b_item b) \<rparr>"
proof -
  note ts = decode_encode_timestamp [OF assms(2,3)]
  have eb: "eb = fst (encode_timestamp_out g (timestamp (b_item b))) @ encode_varint (of_nat (id_len b)) @ take (id_len b) (item_id (b_item b))"
    and g': "g' = snd (encode_timestamp_out g (timestamp (b_item b)))"
    using assms(4) by (auto simp: encode_bound_def Let_def split_beta)
  show "g' = g\<lparr> last_timestamp_out := timestamp (b_item b) \<rparr>" using g' ts(2) by simp
  have len: "unat (of_nat (id_len b) :: u64) = id_len b" "length (take (id_len b) (item_id (b_item b))) = id_len b"
    using assms(1) by (simp_all add: bound_ok_def unat_of_nat)
  have pre: "bound_with_id_prefix (timestamp (b_item b)) (take (id_len b) (item_id (b_item b))) = Inr b"
  proof -
    have "take (id_len b) (item_id (b_item b)) @ replicate (32 - id_len b) 0 = item_id (b_item b)"
      using assms(1) by (metis bound_ok_def append_take_drop_id)
    then show ?thesis using len assms(1)
      by (cases b; cases "b_item b") (simp add: bound_with_id_prefix_def bound_ok_def ID_SIZE_def)
  qed
  show "decode_bound h (eb @ rest) = Inr (b, h\<lparr> last_timestamp_in := timestamp (b_item b) \<rparr>, rest)"
    using get_bytes_append [OF len(2)] by (simp add: decode_bound_def eb ts(1) decode_encode_varint len(1) pre)
qed

lemma length_encode_bound:
  assumes "bound_ok b"
  shows "length (fst (encode_bound g b)) \<le> 43"
proof -
  have "unat (of_nat (id_len b) :: u64) < 128 ^ 1" using assms by (simp add: bound_ok_def unat_of_nat)
  then have "length (varint_digits (of_nat (id_len b))) \<le> 1" by (rule length_varint_digits)
  then have "length (encode_varint (of_nat (id_len b))) \<le> 1" by (auto simp: encode_varint_def Let_def)
  moreover have "length (fst (encode_timestamp_out g (timestamp (b_item b)))) \<le> 10"
    using length_encode_varint by (simp add: encode_timestamp_out_def)
  moreover have "length (take (id_len b) (item_id (b_item b))) \<le> 32" using assms by (simp add: bound_ok_def)
  moreover have "length (fst (encode_bound g b)) = length (fst (encode_timestamp_out g (timestamp (b_item b)))) +
      length (encode_varint (of_nat (id_len b))) + length (take (id_len b) (item_id (b_item b)))"
    by (simp only: encode_bound_def Let_def split_beta fst_conv length_append add.assoc)
  ultimately show ?thesis by linarith
qed

text \<open>The bounds of a message, one after the other, as the two sides write and read them.\<close>

fun encode_bounds :: "negentropy \<Rightarrow> bound list \<Rightarrow> bytes" where
  "encode_bounds g [] = []"
| "encode_bounds g (b # bs) = fst (encode_bound g b) @ encode_bounds (snd (encode_bound g b)) bs"

fun decode_bounds :: "nat \<Rightarrow> negentropy \<Rightarrow> bytes \<Rightarrow> neg_error + bound list \<times> bytes" where
  "decode_bounds 0 h q = Inr ([], q)"
| "decode_bounds (Suc n) h q = rbind (decode_bound h q) (\<lambda>(b, h', q').
     rbind (decode_bounds n h' q') (\<lambda>(bs, q''). Inr (b # bs, q'')))"

lemma decode_encode_bounds:
  "list_all bound_ok bs \<Longrightarrow> sorted (map (timestamp \<circ> b_item) bs) \<Longrightarrow> last_timestamp_out g = last_timestamp_in h \<Longrightarrow>
    (\<forall>b \<in> set bs. last_timestamp_out g \<le> timestamp (b_item b)) \<Longrightarrow>
    decode_bounds (length bs) h (encode_bounds g bs @ rest) = Inr (bs, rest)"
proof (induction bs arbitrary: g h)
  case (Cons b bs)
  have d: "decode_bound h (fst (encode_bound g b) @ r) = Inr (b, h\<lparr> last_timestamp_in := timestamp (b_item b) \<rparr>, r)" for r
    by (rule decode_encode_bound(1) [where g' = "snd (encode_bound g b)"]) (use Cons.prems in auto)
  have e: "snd (encode_bound g b) = g\<lparr> last_timestamp_out := timestamp (b_item b) \<rparr>"
    by (rule decode_encode_bound(2) [where h = h and eb = "fst (encode_bound g b)"]) (use Cons.prems in auto)
  show ?case using Cons.IH [of "snd (encode_bound g b)" "h\<lparr> last_timestamp_in := timestamp (b_item b) \<rparr>"] Cons.prems d e
    by simp
qed simp

section \<open>Minimal bounds separate\<close>

lemma append_less: "xs @ ys < xs @ zs \<longleftrightarrow> ys < zs" for ys :: "'a::linorder list"
  by (induction xs) auto

lemma zeros_least: "\<not> ys < replicate (length ys) 0" for ys :: bytes
  by (induction ys) auto

lemma shared_loop_prefix:
  assumes "shared \<le> 32" "take shared c = take shared p" "length c = 32" "length p = 32" "p < c"
  shows "shared_loop c p shared < 32 \<and> take (shared_loop c p shared) c = take (shared_loop c p shared) p \<and>
    c ! shared_loop c p shared \<noteq> p ! shared_loop c p shared"
  using assms
proof (induction c p shared rule: shared_loop.induct)
  case (1 c p shared)
  have lt: "shared < 32" using "1.prems" by (cases "shared = 32") auto
  show ?case
  proof (cases "c ! shared = p ! shared")
    case True
    have "take (shared + 1) c = take (shared + 1) p"
      using "1.prems" True lt by (simp add: take_Suc_conv_app_nth)
    then show ?thesis using 1 True lt by (subst (1 2 3 4 5) shared_loop.simps) (simp add: ID_SIZE_def)
  next
    case False
    then show ?thesis using "1.prems" by (subst (1 2 3 4 5) shared_loop.simps) (simp add: lt)
  qed
qed

lemma get_minimal_bound_separates:
  assumes "prev < cur" "length (item_id prev) = 32" "length (item_id cur) = 32"
  shows "bound_ok (get_minimal_bound prev cur)" "prev < b_item (get_minimal_bound prev cur)"
    "\<not> cur < b_item (get_minimal_bound prev cur)" "timestamp (b_item (get_minimal_bound prev cur)) = timestamp cur"
proof -
  let ?b = "get_minimal_bound prev cur"
  have "bound_ok ?b \<and> prev < b_item ?b \<and> \<not> cur < b_item ?b \<and> timestamp (b_item ?b) = timestamp cur"
  proof (cases "timestamp cur = timestamp prev")
    case False
    then have "?b = bound_timestamp (timestamp cur)" by (simp add: get_minimal_bound_def)
    then show ?thesis using assms False zeros_least [of "item_id cur"]
      by (auto simp: bound_timestamp_def bound_ok_def less_item_def item_less_def)
  next
    case True
    let ?c = "item_id cur" and ?p = "item_id prev"
    have less: "?p < ?c" using assms(1) True by (simp add: less_item_def item_less_def)
    define k where "k = shared_loop ?c ?p 0"
    have k: "k < 32" "take k ?c = take k ?p" "?c ! k \<noteq> ?p ! k"
      using shared_loop_prefix [of 0 ?c ?p] less assms by (simp_all add: k_def)
    have "min (k + 1) ID_SIZE = Suc k" using k(1) by (simp add: ID_SIZE_def)
    then have b: "bound_with_id_prefix (timestamp cur) (take (Suc k) ?c) = Inr ?b"
      using True k(1) assms by (simp add: get_minimal_bound_def k_def [symmetric] Let_def bound_with_id_prefix_def ID_SIZE_def)
    have bi: "b_item ?b = Item (timestamp cur) (take k ?c @ ?c ! k # replicate (31 - k) 0)" "bound_ok ?b"
      using bound_ok_prefix [OF b] k(1) assms(3) by (simp_all add: take_Suc_conv_app_nth)
    have c: "?c = take k ?c @ ?c ! k # drop (Suc k) ?c" and p: "?p = take k ?c @ ?p ! k # drop (Suc k) ?p"
      using k assms by (metis id_take_nth_drop)+
    have "?p ! k < ?c ! k" using less k(3) by (metis append_less c p Cons_less_Cons)
    then have "?p < take k ?c @ ?c ! k # replicate (31 - k) 0" by (metis append_less p Cons_less_Cons)
    moreover have "\<not> ?c < take k ?c @ ?c ! k # replicate (31 - k) 0"
      using zeros_least [of "drop (Suc k) ?c"] assms(3) by (subst (1) c) (simp add: append_less)
    ultimately show ?thesis using bi True by (simp add: less_item_def item_less_def)
  qed
  then show "bound_ok ?b" "prev < b_item ?b" "\<not> cur < b_item ?b" "timestamp (b_item ?b) = timestamp cur" by auto
qed

section \<open>What the operations leave alone\<close>

definition same_session :: "negentropy \<Rightarrow> negentropy \<Rightarrow> bool" where
  "same_session g g' \<longleftrightarrow> ng_storage g' = ng_storage g \<and> frame_size_limit g' = frame_size_limit g \<and>
     is_initiator g' = is_initiator g \<and> work_limit g' = work_limit g"

lemma same_session_refl [simp]: "same_session g g"
  by (simp add: same_session_def)

lemma same_session_trans: "same_session f g \<Longrightarrow> same_session g h \<Longrightarrow> same_session f h"
  by (simp add: same_session_def)

lemma snd_encode_bound [simp]: "snd (encode_bound g b) = g\<lparr> last_timestamp_out := timestamp (b_item b) \<rparr>"
  by (simp add: encode_bound_def encode_timestamp_out_def split_beta Let_def)

lemma snd_owed_skip: "snd (owed_skip g skip b) = (if skip then g\<lparr> last_timestamp_out := timestamp (b_item b) \<rparr> else g)"
  by (simp add: owed_skip_def split_beta Let_def)

lemma length_mode_varint: "length (encode_varint (mode_as_u64 m)) = 1"
proof -
  have "unat (mode_as_u64 m) < 128 ^ 1" by (cases m) (simp_all add: mode_as_u64_def)
  then have "length (varint_digits (mode_as_u64 m)) \<le> 1" by (rule length_varint_digits)
  then show ?thesis using length_encode_varint [of "mode_as_u64 m"] by (auto simp: encode_varint_def Let_def)
qed

lemma length_owed_skip: "bound_ok b \<Longrightarrow> length (fst (owed_skip g skip b)) \<le> 44"
  using length_encode_bound [of b g] length_mode_varint [of Skip] by (simp add: owed_skip_def split_beta Let_def)

lemma decode_bound_session:
  "decode_bound g q = Inr (b, g', r) \<Longrightarrow> bound_ok b \<and> g' = g\<lparr> last_timestamp_in := last_timestamp_in g' \<rparr>"
  by (auto simp: decode_bound_def decode_timestamp_in_def rbind_eq_Inr Let_def bound_ok_prefix)

lemma split_bucket_session:
  "split_bucket u b n (g, c, o') i = Inr (g', c', o'') \<Longrightarrow> same_session g g'"
  by (auto simp: split_bucket_def rbind_eq_Inr Let_def split_beta same_session_def split: if_splits)

lemma split_range_session: "split_range g l u b = Inr (o', g') \<Longrightarrow> same_session g g'"
proof (cases "u - l < BUCKETS * 2")
  case True
  moreover assume "split_range g l u b = Inr (o', g')"
  ultimately show ?thesis
    by (auto simp: split_range_def rbind_eq_Inr Let_def split_beta same_session_def split: if_splits)
next
  case False
  assume "split_range g l u b = Inr (o', g')"
  with False obtain c where "try_fold (split_bucket u b (u - l)) (g, l, []) [0 ..< BUCKETS] = Inr (g', c, o')"
    by (auto simp: split_range_def rbind_eq_Inr Let_def split: if_splits)
  then have "case (g', c, o') of (h, _, _) \<Rightarrow> same_session g h"
    by (rule try_fold_invariant) (auto dest: split_bucket_session intro: same_session_trans)
  then show ?thesis by simp
qed

lemma answer_rest_session:
  "answer_rest n g i = Inr (r, g') \<Longrightarrow> same_session g g'"
  by (auto simp: answer_rest_def rbind_eq_Inr Let_def split_beta same_session_def)

section \<open>The reply stays within the frame limit\<close>

text \<open>A range answered with ids may pass the soft limit, 200 bytes below the hard one, by the last
  id, the owed skip and its own header, less than 130 bytes, before the rest is answered in at
  most 60 more.\<close>

definition soft_limit :: "negentropy \<Rightarrow> nat" where
  "soft_limit g = unat (frame_size_limit g) - 200"

lemma exceeded_soft: "exceeded_frame_size_limit g n \<longleftrightarrow> frame_size_limit g \<noteq> 0 \<and> soft_limit g < n"
  by (simp add: exceeded_frame_size_limit_def soft_limit_def unat_sat_sub)

lemma response_cb_run:
  assumes "\<forall>(it, i) \<in> set vs. length (item_id it) = 32 \<and> i < N" "fl \<noteq> 0" "n + length r \<le> unat fl - 200 + 32"
    "bound_ok eb" "u \<le> N" "run_visits (response_cb fl n) (r, c, eb, u) vs = (r', c', eb', u')"
  shows "n + length r' \<le> unat fl - 200 + 32 \<and> bound_ok eb' \<and> u' \<le> N"
  using assms
proof (induction vs arbitrary: r c eb u)
  case (Cons p vs)
  obtain it i where p: "p = (it, i)" by fastforce
  have it: "length (item_id it) = 32" "i < N" using Cons.prems(1) by (auto simp: p)
  show ?case
  proof (cases "unat fl - 200 < n + length r")
    case True
    then have "response_cb fl n (r, c, eb, u) it i = ((r, c, bound_from_item it, i), False)"
      using Cons.prems(2) by (simp add: response_cb_def unat_sat_sub)
    with Cons.prems(6) have "r' = r" "eb' = bound_from_item it" "u' = i" by (simp_all add: p)
    then show ?thesis using it Cons.prems(3) by (simp add: bound_ok_from_item less_imp_le)
  next
    case False
    then have st: "response_cb fl n (r, c, eb, u) it i = ((r @ item_id it, c + 1, eb, u), True)"
      by (simp add: response_cb_def unat_sat_sub)
    show ?thesis
    proof (rule Cons.IH)
      show "\<forall>(it, i) \<in> set vs. length (item_id it) = 32 \<and> i < N" using Cons.prems(1) by simp
      show "n + length (r @ item_id it) \<le> unat fl - 200 + 32" using False it(1) by simp
      show "run_visits (response_cb fl n) (r @ item_id it, c + 1, eb, u) vs = (r', c', eb', u')"
        using Cons.prems(6) st by (simp add: p)
    qed (use Cons.prems in auto)
  qed
qed auto

lemma fingerprint_mode_keeps:
  "fingerprint_mode s l u b = Inr (s', o', u') \<Longrightarrow> same_session (rc_neg s) (rc_neg s') \<and>
    full_output s' = full_output s \<and> u' = u"
proof -
  assume "fingerprint_mode s l u b = Inr (s', o', u')"
  then show ?thesis
    by (auto simp: fingerprint_mode_def rbind_eq_Inr Let_def split_beta snd_owed_skip split: if_splits
        dest!: split_range_session) (auto simp: same_session_def add_work_def)
qed

definition within_limit :: "storage \<Rightarrow> nat \<Rightarrow> u64 \<Rightarrow> recon \<Rightarrow> bool" where
  "within_limit S n fl s \<longleftrightarrow> ng_storage (rc_neg s) = S \<and> frame_size_limit (rc_neg s) = fl \<and>
     length (full_output s) \<le> unat fl - 200 \<and> prev_index s \<le> n \<and> bound_ok (prev_bound s)"

lemma within_limit_work [simp]: "within_limit S n fl (add_work k s) = within_limit S n fl s"
  by (simp add: within_limit_def)

context storage_contract
begin

lemma visits_ids:
  assumes "ok X v" "b \<le> e" "e \<le> length (contents v)" "st_visits (mk X v) b e = Inr vs"
  shows "\<forall>(it, i) \<in> set vs. length (item_id it) = 32 \<and> i < length (contents v)"
proof -
  have "length (item_id (contents v ! i)) = 32" if "i < length (contents v)" for i
    using contents_ids [OF assms(1)] that by (simp add: ids_ok_def list_all_iff)
  then show ?thesis using visits_contents [OF assms(1-3)] assms(3,4) by auto
qed

lemma answer_rest_length:
  assumes "ok X v" "sha256_ok X" "ng_storage g = mk X v" "i \<le> length (contents v)"
    "answer_rest (length (contents v)) g i = Inr (r, g')"
  shows "length r \<le> 60"
proof -
  have "st_fingerprint (ng_storage g) i (length (contents v)) =
      Inr (get_fingerprint X (foldl acc_add_item acc_zero (slice i (length (contents v)) (contents v))) (of_nat (length (contents v) - i)))"
    using fingerprint_contents [OF assms(1,4) order_refl] assms(3) by simp
  then have "length r = length (fst (encode_bound g (bound_timestamp (- 1)))) + 1 + 16"
    using assms(2,5) by (auto simp: answer_rest_def split_beta Let_def length_mode_varint get_fingerprint_def FINGERPRINT_SIZE_def sha256_ok_def)
  then show ?thesis using length_encode_bound [of "bound_timestamp (- 1)" g] by simp
qed

lemma idlist_mode_length:
  assumes "ok X v" "within_limit (mk X v) (length (contents v)) fl s" "fl \<noteq> 0" "l \<le> u" "u \<le> length (contents v)" "bound_ok b"
    "idlist_mode ord s l u b = Inr (s', o', u')"
  shows "same_session (rc_neg s) (rc_neg s') \<and> length (full_output s') \<le> unat fl - 200 + 130 \<and> o' = [] \<and> u' \<le> length (contents v)"
proof -
  from assms(7) obtain num q es q' where q: "decode_varint (rc_query s) = Inr (num, q)"
      "read_ids (unat num) (is_initiator (rc_neg s)) [] q = Inr (es, q')"
    by (auto simp: idlist_mode_def rbind_eq_Inr)
  define s1 where "s1 = add_work 1 (s\<lparr> rc_query := q' \<rparr>)"
  have inv: "ng_storage (rc_neg s1) = mk X v" "frame_size_limit (rc_neg s1) = fl" "length (full_output s1) \<le> unat fl - 200"
      "bound_ok (prev_bound s1)" "same_session (rc_neg s) (rc_neg s1)" "is_initiator (rc_neg s1) = is_initiator (rc_neg s)"
    using assms(2) by (simp_all add: within_limit_def s1_def same_session_def)
  show ?thesis
  proof (cases "is_initiator (rc_neg s)")
    case True
    have "idlist_mode ord s l u b = rbind (st_iterate (mk X v) l u have_cb (es, have_ids s1)) (\<lambda>(es', have).
        Inr (s1\<lparr> rc_skip := True, have_ids := have, need_ids := need_ids s1 @ ord es' \<rparr>, [], u))"
      unfolding idlist_mode_def q rbind_Inr prod.case Let_def s1_def [symmetric] inv(1,6) using True by simp
    from assms(7) [unfolded this] show ?thesis using assms(5) inv by (auto simp: rbind_eq_Inr)
  next
    case False
    define g1 where "g1 = snd (owed_skip (rc_neg s1) (rc_skip s1) (prev_bound s1))"
    have g1: "same_session (rc_neg s1) g1" "frame_size_limit g1 = fl"
      using inv(2) by (simp_all add: g1_def snd_owed_skip same_session_def)
    have "idlist_mode ord s l u b =
        rbind (st_iterate (mk X v) l u (response_cb fl (length (full_output s1))) ([], 0, b, u)) (\<lambda>(r, c, eb, u').
          Inr (s1\<lparr> rc_neg := snd (encode_bound g1 eb), rc_skip := False,
           full_output := full_output s1 @ fst (owed_skip (rc_neg s1) (rc_skip s1) (prev_bound s1)) @
             fst (encode_bound g1 eb) @ encode_varint (mode_as_u64 IdList) @ encode_varint c @ r \<rparr>, [], u'))"
      unfolding idlist_mode_def q rbind_Inr prod.case Let_def s1_def [symmetric] inv(1,6)
      using False by (simp only: if_False split_beta g1_def [symmetric] g1(2))
    from assms(7) [unfolded this] obtain vs r c eb where vs: "st_visits (mk X v) l u = Inr vs"
      and run: "run_visits (response_cb fl (length (full_output s1))) ([], 0, b, u) vs = (r, c, eb, u')"
      and s': "s' = s1\<lparr> rc_neg := snd (encode_bound g1 eb), rc_skip := False,
           full_output := full_output s1 @ fst (owed_skip (rc_neg s1) (rc_skip s1) (prev_bound s1)) @
             fst (encode_bound g1 eb) @ encode_varint (mode_as_u64 IdList) @ encode_varint c @ r \<rparr>" "o' = []"
      by (auto simp: rbind_eq_Inr st_iterate_def simp del: snd_encode_bound)
    have R: "length (full_output s1) + length r \<le> unat fl - 200 + 32 \<and> bound_ok eb \<and> u' \<le> length (contents v)"
      using inv(3) assms(5,6) by (intro response_cb_run [OF visits_ids [OF assms(1,4,5) vs] assms(3) _ _ _ run]) simp_all
    have "length (full_output s') = length (full_output s1) + length r +
        length (fst (owed_skip (rc_neg s1) (rc_skip s1) (prev_bound s1))) + length (fst (encode_bound g1 eb)) + 1 + length (encode_varint c)"
      by (simp add: s' length_mode_varint)
    also have "\<dots> \<le> unat fl - 200 + 32 + 44 + 43 + 1 + 10"
      using R length_owed_skip [OF inv(4), of "rc_neg s1" "rc_skip s1"] length_encode_bound [of eb g1] length_encode_varint [of c]
      by linarith
    finally show ?thesis using R s' inv(5) g1(1) by (auto simp: same_session_def)
  qed
qed

lemma mode_range_length:
  assumes "ok X v" "within_limit (mk X v) (length (contents v)) fl s" "fl \<noteq> 0" "l \<le> u" "u \<le> length (contents v)" "bound_ok b"
    "mode_range ord m s l u b = Inr (s', o', u')"
  shows "same_session (rc_neg s) (rc_neg s') \<and> length (full_output s') \<le> unat fl - 200 + 130 \<and> u' \<le> length (contents v)"
proof (cases m)
  case Skip
  then show ?thesis using assms by (auto simp: mode_range_def within_limit_def)
next
  case Fingerprint
  then show ?thesis using assms fingerprint_mode_keeps [of s l u b s' o' u'] by (auto simp: mode_range_def within_limit_def)
next
  case IdList
  then show ?thesis using idlist_mode_length [OF assms(1-6)] assms(7) by (auto simp: mode_range_def)
qed

lemma reconcile_step_length:
  assumes "ok X v" "sha256_ok X" "within_limit (mk X v) (length (contents v)) fl s" "fl \<noteq> 0"
    "reconcile_step ord (length (contents v)) s = Inr (go, s')"
  shows "if go then within_limit (mk X v) (length (contents v)) fl s' else length (full_output s') \<le> unat fl - 200 + 190"
proof (cases "work_limit (rc_neg s) \<le> work (rc_neg s)")
  case True
  define sk where "sk = owed_skip (rc_neg s) (rc_skip s) (prev_bound s)"
  obtain rest g2 where r: "answer_rest (length (contents v)) (snd sk) (prev_index s) = Inr (rest, g2)"
      "s' = s\<lparr> rc_neg := g2, full_output := full_output s @ fst sk @ rest \<rparr>" "\<not> go"
    using True assms(5) by (auto simp: reconcile_step_def rbind_eq_Inr split_beta sk_def Let_def)
  have "length rest \<le> 60"
    using answer_rest_length [OF assms(1,2) _ _ r(1)] assms(3) by (simp add: within_limit_def sk_def snd_owed_skip)
  moreover have "length (fst sk) \<le> 44" using assms(3) by (simp add: sk_def length_owed_skip within_limit_def)
  moreover have "length (full_output s) \<le> unat fl - 200" using assms(3) by (simp add: within_limit_def)
  ultimately show ?thesis using r(2,3) by simp
next
  case False
  then obtain b g1 q1 m q2 mode upper s2 o2 upper2 where
    d: "decode_bound (rc_neg s) (rc_query s) = Inr (b, g1, q1)"
      "st_find_lower_bound (ng_storage g1) (prev_index s) (length (contents v)) b = Inr upper" "prev_index s \<le> upper"
      "mode_range ord mode (add_work 1 (s\<lparr> rc_neg := g1, rc_query := q2 \<rparr>)) (prev_index s) upper b = Inr (s2, o2, upper2)"
      "finish_range (length (contents v)) s2 o2 upper2 b = Inr (go, s')"
    using reconcile_step_Inr [OF assms(5)] by auto
  have g1: "g1 = (rc_neg s)\<lparr> last_timestamp_in := last_timestamp_in g1 \<rparr>" "bound_ok b"
    using decode_bound_session [OF d(1)] by blast+
  have S: "ng_storage g1 = mk X v" "frame_size_limit g1 = fl" "prev_index s \<le> length (contents v)"
    using assms(3) arg_cong [OF g1(1), of ng_storage] arg_cong [OF g1(1), of frame_size_limit]
    by (simp_all add: within_limit_def)
  have up: "upper \<le> length (contents v)"
    using lower_bound_splits [OF assms(1) S(3) order_refl] d(2) S(1) by simp
  have w: "within_limit (mk X v) (length (contents v)) fl (add_work 1 (s\<lparr> rc_neg := g1, rc_query := q2 \<rparr>))"
    using assms(3) S by (simp add: within_limit_def)
  have M: "same_session g1 (rc_neg s2)" "length (full_output s2) \<le> unat fl - 200 + 130" "upper2 \<le> length (contents v)"
    using mode_range_length [OF assms(1) w assms(4) d(3) up g1(2) d(4)] by (auto simp: same_session_def)
  show ?thesis
  proof (cases go)
    case True
    then show ?thesis
      using finish_range_go d(5) M(1,3) S g1(2) assms(4) by (fastforce simp: within_limit_def same_session_def exceeded_soft soft_limit_def)
  next
    case False
    then obtain rest g3 where r: "answer_rest (length (contents v)) (rc_neg s2) upper2 = Inr (rest, g3)"
        "s' = s2\<lparr> rc_neg := g3, full_output := full_output s2 @ rest \<rparr>"
      using d(5) by (auto simp: finish_range_def rbind_eq_Inr split: if_splits)
    have "length rest \<le> 60"
      using answer_rest_length [OF assms(1,2) _ M(3) r(1)] M(1) S(1) by (simp add: same_session_def)
    then show ?thesis using r(2) M(2) False by simp
  qed
qed

lemma reconcile_loop_length:
  assumes "ok X v" "sha256_ok X" "fl \<noteq> 0"
  shows "within_limit (mk X v) (length (contents v)) fl s \<Longrightarrow>
    reconcile_loop ord (length (contents v)) s = Inr s' \<Longrightarrow> length (full_output s') \<le> unat fl - 200 + 190"
proof (induction ord "length (contents v)" s rule: reconcile_loop.induct)
  case (1 ord s)
  show ?case
  proof (cases "rc_query s = []")
    case True
    then show ?thesis using "1.prems" by (simp add: reconcile_loop.simps [of _ _ s] within_limit_def)
  next
    case False
    then obtain go s1 where st: "reconcile_step ord (length (contents v)) s = Inr (go, s1)"
        "(if go then reconcile_loop ord (length (contents v)) s1 else Inr s1) = Inr s'"
      using "1.prems"(2) by (subst (asm) reconcile_loop.simps) (auto simp: rbind_eq_Inr)
    note inv = reconcile_step_length [OF assms(1,2) "1.prems"(1) assms(3) st(1)]
    show ?thesis using "1.hyps" [OF False st(1)] st inv by (cases go) auto
  qed
qed

lemma reconcile_aux_length:
  assumes "ok X v" "sha256_ok X" "ng_storage g = mk X v" "4096 \<le> frame_size_limit g"
    "reconcile_aux ord g q have need = Inr (out, g', have', need')"
  shows "length out \<le> unat (frame_size_limit g)"
proof -
  have fl: "4096 \<le> unat (frame_size_limit g)" "frame_size_limit g \<noteq> 0" using assms(4) by (auto simp: word_le_nat_alt)
  have N: "unat (of_nat (length (contents v)) :: u64) = length (contents v)"
    using contents_small [OF assms(1)] by (simp add: unat_of_nat)
  from assms(5) consider "out = [PROTOCOL_VERSION]"
    | s q' where "reconcile_loop ord (length (contents v)) \<lparr> rc_neg = g\<lparr> last_timestamp_in := 0, last_timestamp_out := 0, work := 0 \<rparr>,
          rc_query = q', full_output = [PROTOCOL_VERSION], prev_bound = bound_default, prev_index = 0, rc_skip = False,
          have_ids = have, need_ids = need \<rparr> = Inr s" "out = full_output s"
    using size_contents [OF assms(1)] assms(3) N
    by (auto simp: reconcile_aux_def rbind_eq_Inr Let_def split: if_splits)
  then show ?thesis
  proof cases
    case 1
    then show ?thesis using fl by simp
  next
    case 2
    have "length (full_output s) \<le> unat (frame_size_limit g) - 200 + 190"
      by (rule reconcile_loop_length [OF assms(1,2) fl(2) _ 2(1)]) (use assms(3) fl in \<open>simp add: within_limit_def bound_default_def\<close>)
    then show ?thesis using 2(2) fl(1) by simp
  qed
qed

end

section \<open>One round for a small set\<close>

text \<open>A message of one range over everything, with the ids of \<open>xs\<close>.\<close>

definition ids_message :: "item list \<Rightarrow> bytes" where
  "ids_message xs = encode_varint 0 @ encode_varint 0 @ encode_varint (mode_as_u64 IdList) @
     encode_varint (of_nat (length xs)) @ concat (map item_id xs)"

lemma encode_bound_max: "fst (encode_bound g (bound_timestamp (- 1))) = encode_varint 0 @ encode_varint 0"
  by (simp add: encode_bound_def encode_timestamp_out_def bound_timestamp_def)

lemma decode_bound_max:
  "decode_bound h (encode_varint 0 @ encode_varint 0 @ rest) = Inr (bound_timestamp (- 1), h\<lparr> last_timestamp_in := - 1 \<rparr>, rest)"
proof -
  let ?g = "h\<lparr> last_timestamp_out := last_timestamp_in h \<rparr>"
  have "decode_bound h (fst (encode_bound ?g (bound_timestamp (- 1))) @ rest) =
      Inr (bound_timestamp (- 1), h\<lparr> last_timestamp_in := timestamp (b_item (bound_timestamp (- 1))) \<rparr>, rest)"
    by (rule decode_encode_bound(1) [OF bound_ok_timestamp, where g = ?g])
      (simp_all add: prod_eq_iff word_order.extremum, simp add: bound_timestamp_def)
  then show ?thesis by (simp add: encode_bound_max) (simp add: bound_timestamp_def)
qed

lemma length_ids_message: "ids_ok xs \<Longrightarrow> length xs \<le> 32000 \<Longrightarrow> length (ids_message xs) \<le> 32 * length xs + 40"
proof -
  assume "ids_ok xs"
  then have "length (concat (map item_id xs)) = 32 * length xs"
    by (induction xs) auto
  then show ?thesis
    using length_encode_varint [of 0] length_encode_varint [of "of_nat (length xs)"] length_mode_varint [of IdList]
    by (simp add: ids_message_def)
qed

lemma run_visits_concat: "run_visits (\<lambda>o' it i. (o' @ item_id it, True)) acc vs = acc @ concat (map (item_id \<circ> fst) vs)"
  by (induction vs arbitrary: acc) auto

lemma read_ids_concat:
  "ids_ok xs \<Longrightarrow> read_ids (length xs) keep es (concat (map item_id xs) @ rest) =
    Inr (if keep then fold List.insert (map item_id xs) es else es, rest)"
  by (induction xs arbitrary: es) (simp_all add: get_bytes_append ID_SIZE_def)

lemma fold_insert_ids: "distinct es \<Longrightarrow> distinct (fold List.insert xs es) \<and> set (fold List.insert xs es) = set es \<union> set xs"
  by (induction xs arbitrary: es) (auto simp: distinct_insert)

lemma run_have_cb:
  "distinct T \<Longrightarrow> distinct (map (item_id \<circ> fst) vs) \<Longrightarrow> run_visits have_cb (T, H) vs =
    (filter (\<lambda>e. e \<notin> set (map (item_id \<circ> fst) vs)) T, H @ filter (\<lambda>e. e \<notin> set T) (map (item_id \<circ> fst) vs))"
proof (induction vs arbitrary: T H)
  case (Cons p vs)
  obtain it i where p: "p = (it, i)" by fastforce
  have rest: "filter (\<lambda>e. e \<notin> set (remove1 (item_id it) T)) (map (item_id \<circ> fst) vs) = filter (\<lambda>e. e \<notin> set T) (map (item_id \<circ> fst) vs)"
    using Cons.prems by (intro filter_cong) (auto simp: p image_iff)
  show ?case using Cons rest
    by (simp add: p have_cb_def distinct_remove1_removeAll removeAll_filter_not_eq conj_commute) (auto intro: filter_cong)
qed simp

lemma run_response_all:
  assumes "ids_ok (map fst vs)" "fl = 0 \<or> n + length r + 32 * length vs \<le> unat fl - 200"
  shows "run_visits (response_cb fl n) (r, c, eb, u) vs = (r @ concat (map (item_id \<circ> fst) vs), c + of_nat (length vs), eb, u)"
  using assms
proof (induction vs arbitrary: r c)
  case (Cons p vs)
  obtain it i where p: "p = (it, i)" by fastforce
  have st: "response_cb fl n (r, c, eb, u) it i = ((r @ item_id it, c + 1, eb, u), True)"
    using Cons.prems(2) by (auto simp: response_cb_def unat_sat_sub)
  have "run_visits (response_cb fl n) (r @ item_id it, c + 1, eb, u) vs =
      ((r @ item_id it) @ concat (map (item_id \<circ> fst) vs), (c + 1) + of_nat (length vs), eb, u)"
    by (rule Cons.IH) (use Cons.prems in \<open>auto simp: p\<close>)
  then show ?case using st by (simp add: p add.assoc add.commute [of 1] comp_def)
qed simp

text \<open>The variables of the loop once it has read the header of such a range.\<close>

definition ids_state :: "item list \<Rightarrow> recon \<Rightarrow> recon" where
  "ids_state xs s = add_work 1 (s\<lparr> rc_neg := (rc_neg s)\<lparr> last_timestamp_in := - 1 \<rparr>,
     rc_query := encode_varint (of_nat (length xs)) @ concat (map item_id xs) \<rparr>)"

lemma mode_roundtrip [simp]: "mode_try_from (mode_as_u64 m) = Inr m"
  by (cases m) (simp_all add: mode_try_from_def mode_as_u64_def)

context storage_contract
begin

lemma visits_all:
  assumes "ok X v"
  shows "\<exists>vs. st_visits (mk X v) 0 (length (contents v)) = Inr vs \<and> map fst vs = contents v \<and>
    map (item_id \<circ> fst) vs = map item_id (contents v)"
proof -
  define vs where "vs = map (\<lambda>i. (contents v ! i, i)) [0 ..< length (contents v)]"
  have "map fst vs = contents v" by (simp add: vs_def comp_def map_nth)
  moreover from this have "map (item_id \<circ> fst) vs = map item_id (contents v)" by (metis map_map)
  ultimately show ?thesis using visits_contents [OF assms, of 0 "length (contents v)"] vs_def by blast
qed

lemma max_bound_above:
  assumes "ok X v" "\<forall>it \<in> set (contents v). timestamp it \<noteq> - 1"
  shows "st_find_lower_bound (mk X v) 0 (length (contents v)) (bound_timestamp (- 1)) = Inr (length (contents v))"
proof -
  have "it < b_item (bound_timestamp (- 1))" if "it \<in> set (contents v)" for it
    using assms(2) that by (auto simp: bound_timestamp_def less_item_def item_less_def word_order.not_eq_extremum)
  then have tw: "takeWhile (\<lambda>it. it < b_item (bound_timestamp (- 1))) (contents v) = contents v"
    by (simp add: takeWhile_eq_all_conv)
  show ?thesis using lower_bound_contents [OF assms(1), of 0 "length (contents v)" "bound_timestamp (- 1)"]
    unfolding slice_all tw by simp
qed

lemma initiate_small:
  assumes "ok X v" "length (contents v) < 32" "ng_storage g = mk X v" "\<not> is_initiator g"
  shows "\<exists>g'. initiate g = Inr (PROTOCOL_VERSION # ids_message (contents v), g') \<and> same_session (g\<lparr> is_initiator := True \<rparr>) g'"
proof -
  obtain vs where vs: "st_visits (mk X v) 0 (length (contents v)) = Inr vs"
      "map (item_id \<circ> fst) vs = map item_id (contents v)" using visits_all [OF assms(1)] by blast
  have N: "unat (of_nat (length (contents v)) :: u64) = length (contents v)"
    using contents_small [OF assms(1)] by (simp add: unat_of_nat)
  define h where "h = g\<lparr> is_initiator := True \<rparr>"
  have h: "ng_storage h = mk X v" using assms(3) by (simp add: h_def)
  have it: "st_iterate (mk X v) 0 (length (contents v)) (\<lambda>o' it i. (o' @ item_id it, True)) acc =
      Inr (acc @ concat (map item_id (contents v)))" for acc
    by (simp only: st_iterate_def vs(1) rbind_Inr run_visits_concat vs(2))
  have "split_range h 0 (length (contents v)) (bound_timestamp (- 1)) =
      Inr (ids_message (contents v), (snd (encode_bound h (bound_timestamp (- 1))))\<lparr> work := work h + 1 \<rparr>)"
    using assms(2)
    by (simp add: split_range_def BUCKETS_def split_beta Let_def it h encode_bound_max ids_message_def)
  then have "initiate g = Inr (PROTOCOL_VERSION # ids_message (contents v), (snd (encode_bound h (bound_timestamp (- 1))))\<lparr> work := work h + 1 \<rparr>)"
    using assms(4) size_contents [OF assms(1)] N h by (simp add: initiate_def h_def [symmetric])
  moreover have "same_session h ((snd (encode_bound h (bound_timestamp (- 1))))\<lparr> work := work h + 1 \<rparr>)"
    by (simp add: same_session_def)
  ultimately show ?thesis unfolding h_def by blast
qed

lemma single_ids_range:
  assumes "ok X w" "\<forall>it \<in> set (contents w). timestamp it \<noteq> - 1"
    "ng_storage (rc_neg s) = mk X w" "work (rc_neg s) < work_limit (rc_neg s)" "rc_query s = ids_message xs" "prev_index s = 0"
    and mode: "idlist_mode ord (ids_state xs s) 0 (length (contents w)) (bound_timestamp (- 1)) = Inr (s3, [], length (contents w))"
    and s3: "rc_query s3 = []" "\<not> exceeded_frame_size_limit (rc_neg s3) (length (full_output s3))"
  shows "reconcile_loop ord (length (contents w)) s =
    Inr (s3\<lparr> prev_index := length (contents w), prev_bound := bound_timestamp (- 1) \<rparr>)" (is "_ = Inr ?s'")
proof -
  let ?n = "length (contents w)" and ?b = "bound_timestamp (- 1)"
  have d: "decode_bound (rc_neg s) (rc_query s) = Inr (?b, (rc_neg s)\<lparr> last_timestamp_in := - 1 \<rparr>,
      encode_varint (mode_as_u64 IdList) @ encode_varint (of_nat (length xs)) @ concat (map item_id xs))"
    using assms(5) by (simp add: ids_message_def decode_bound_max)
  have fin: "finish_range ?n s3 [] ?n ?b = Inr (True, ?s')" using s3(2) by (simp add: finish_range_def)
  have step: "reconcile_step ord ?n s = Inr (True, ?s')"
    unfolding reconcile_step_def assms(6) d rbind_Inr prod.case decode_encode_varint mode_roundtrip Let_def ids_state_def [symmetric]
    using assms(3,4) max_bound_above [OF assms(1,2)] by (simp add: mode_range_def mode fin)
  have "rc_query s \<noteq> []" using assms(5) length_encode_varint [of 0] by (auto simp: ids_message_def)
  then show ?thesis using step s3(1) by (simp add: reconcile_loop.simps [of _ _ s] reconcile_loop.simps [of _ _ ?s'])
qed

lemma ids_state_read:
  assumes "ids_ok xs" "length xs < 2 ^ 64"
  shows "decode_varint (rc_query (ids_state xs s)) = Inr (of_nat (length xs), concat (map item_id xs))"
    "read_ids (unat (of_nat (length xs) :: u64)) keep [] (concat (map item_id xs)) =
      Inr (if keep then fold List.insert (map item_id xs) [] else [], [])"
  using read_ids_concat [OF assms(1), of keep "[]" "[]"] assms(2)
  by (simp_all add: ids_state_def decode_encode_varint unat_of_nat)

lemma respond_ids:
  assumes "ok X w" "\<forall>it \<in> set (contents w). timestamp it \<noteq> - 1" "ids_ok xs" "length xs < 2 ^ 64"
    and small: "length (contents w) \<le> 32000"
    and fits: "frame_size_limit (rc_neg s) = 0 \<or> 32 * length (contents w) + 300 \<le> unat (frame_size_limit (rc_neg s))"
    and g: "ng_storage (rc_neg s) = mk X w" "\<not> is_initiator (rc_neg s)" "work (rc_neg s) < work_limit (rc_neg s)"
    and s: "rc_query s = ids_message xs" "full_output s = [PROTOCOL_VERSION]" "prev_index s = 0" "\<not> rc_skip s"
  shows "\<exists>s'. reconcile_loop ord (length (contents w)) s = Inr s' \<and> full_output s' = PROTOCOL_VERSION # ids_message (contents w)"
proof -
  let ?n = "length (contents w)" and ?b = "bound_timestamp (- 1)" and ?fl = "frame_size_limit (rc_neg s)"
  obtain vs where vs: "st_visits (mk X w) 0 ?n = Inr vs" "map fst vs = contents w"
      "map (item_id \<circ> fst) vs = map item_id (contents w)" using visits_all [OF assms(1)] by blast
  define s2 where "s2 = add_work 1 ((ids_state xs s)\<lparr> rc_query := [] \<rparr>)"
  have s2: "ng_storage (rc_neg s2) = mk X w" "frame_size_limit (rc_neg s2) = ?fl" "\<not> is_initiator (rc_neg s2)"
      "full_output s2 = [PROTOCOL_VERSION]" "\<not> rc_skip s2"
    using g s by (simp_all add: s2_def ids_state_def)
  have len: "length vs = ?n" using vs(2) by (metis length_map)
  have run: "run_visits (response_cb ?fl 1) ([], 0, ?b, ?n) vs = (concat (map item_id (contents w)), of_nat ?n, ?b, ?n)"
    using run_response_all [of vs ?fl 1 "[]" 0 ?b ?n] contents_ids [OF assms(1)] vs len fits by fastforce
  then have it: "st_iterate (mk X w) 0 ?n (response_cb ?fl (Suc 0)) ([], 0, ?b, ?n) =
      Inr (concat (map item_id (contents w)), of_nat ?n, ?b, ?n)"
    by (simp add: st_iterate_def vs(1))
  define s3 where "s3 = s2\<lparr> rc_neg := snd (encode_bound (rc_neg s2) ?b), rc_skip := False,
      full_output := PROTOCOL_VERSION # ids_message (contents w) \<rparr>"
  have sk: "owed_skip (rc_neg s2) (rc_skip s2) (prev_bound s2) = ([], rc_neg s2)" using s2(5) by (simp add: owed_skip_def)
  have "idlist_mode ord (ids_state xs s) 0 ?n ?b = Inr (s3, [], ?n)"
    unfolding idlist_mode_def ids_state_read [OF assms(3,4)] rbind_Inr prod.case Let_def s2_def [symmetric] s2(1) sk
    using s2(3) by (simp add: s2(2) it split_beta encode_bound_max s2(4) s3_def ids_message_def)
  moreover have "\<not> exceeded_frame_size_limit (rc_neg s3) (length (full_output s3))"
    using fits s2(2) length_ids_message [OF contents_ids [OF assms(1)] small]
    by (auto simp: exceeded_soft soft_limit_def s3_def)
  ultimately show ?thesis
    using single_ids_range [OF assms(1,2) g(1,3) s(1,3)] by (fastforce simp: s3_def s2_def)
qed

lemma take_ids:
  assumes "ok X v" "\<forall>it \<in> set (contents v). timestamp it \<noteq> - 1" "ids_ok xs" "length xs < 2 ^ 64"
    and dist: "distinct (map item_id (contents v))"
    and fits: "frame_size_limit (rc_neg s) = 0 \<or> 4096 \<le> unat (frame_size_limit (rc_neg s))"
    and g: "ng_storage (rc_neg s) = mk X v" "is_initiator (rc_neg s)" "work (rc_neg s) < work_limit (rc_neg s)"
    and s: "rc_query s = ids_message xs" "full_output s = [PROTOCOL_VERSION]" "prev_index s = 0"
  shows "\<exists>s'. reconcile_loop ord (length (contents v)) s = Inr s' \<and> full_output s' = [PROTOCOL_VERSION] \<and>
    have_ids s' = have_ids s @ filter (\<lambda>i. i \<notin> item_id ` set xs) (map item_id (contents v)) \<and>
    need_ids s' = need_ids s @ ord (filter (\<lambda>i. i \<notin> item_id ` set (contents v)) (fold List.insert (map item_id xs) []))"
proof -
  let ?n = "length (contents v)" and ?b = "bound_timestamp (- 1)" and ?T = "fold List.insert (map item_id xs) []"
  obtain vs where vs: "st_visits (mk X v) 0 ?n = Inr vs" "map (item_id \<circ> fst) vs = map item_id (contents v)"
    using visits_all [OF assms(1)] by blast
  define s2 where "s2 = add_work 1 ((ids_state xs s)\<lparr> rc_query := [] \<rparr>)"
  have s2: "ng_storage (rc_neg s2) = mk X v" "is_initiator (rc_neg s2)" "is_initiator (rc_neg (ids_state xs s))"
      "have_ids s2 = have_ids s" "need_ids s2 = need_ids s" "full_output s2 = [PROTOCOL_VERSION]"
      "frame_size_limit (rc_neg s2) = frame_size_limit (rc_neg s)"
    using g s by (simp_all add: s2_def ids_state_def)
  have T: "distinct ?T" "set ?T = item_id ` set xs" using fold_insert_ids [of "[]" "map item_id xs"] by simp_all
  have it: "st_iterate (mk X v) 0 ?n have_cb (?T, have_ids s) =
      Inr (filter (\<lambda>i. i \<notin> item_id ` set (contents v)) ?T, have_ids s @ filter (\<lambda>i. i \<notin> item_id ` set xs) (map item_id (contents v)))"
    using run_have_cb [OF T(1), of vs "have_ids s"] dist unfolding vs(2) T(2)
    by (simp add: st_iterate_def vs(1))
  define s3 where "s3 = s2\<lparr> rc_skip := True,
      have_ids := have_ids s @ filter (\<lambda>i. i \<notin> item_id ` set xs) (map item_id (contents v)),
      need_ids := need_ids s @ ord (filter (\<lambda>i. i \<notin> item_id ` set (contents v)) ?T) \<rparr>"
  have "idlist_mode ord (ids_state xs s) 0 ?n ?b = Inr (s3, [], ?n)"
    unfolding idlist_mode_def ids_state_read [OF assms(3,4)] rbind_Inr prod.case Let_def s2_def [symmetric] s2(1)
    using s2 by (simp add: it s3_def)
  moreover have "\<not> exceeded_frame_size_limit (rc_neg s3) (length (full_output s3))"
    using fits s2 by (auto simp: exceeded_soft soft_limit_def s3_def)
  moreover have "rc_query s3 = []" by (simp add: s3_def s2_def)
  ultimately have "reconcile_loop ord ?n s = Inr (s3\<lparr> prev_index := ?n, prev_bound := ?b \<rparr>)"
    using single_ids_range [OF assms(1,2) g(1,3) s(1,3)] by simp
  then show ?thesis using s2(6) by (simp add: s3_def)
qed

lemma reconcile_aux_ids:
  assumes "ok X v" "ng_storage g = mk X v" "ids_ok xs" "length xs \<le> 32000"
    "reconcile_loop ord (length (contents v)) \<lparr> rc_neg = g\<lparr> last_timestamp_in := 0, last_timestamp_out := 0, work := 0 \<rparr>,
      rc_query = ids_message xs, full_output = [PROTOCOL_VERSION], prev_bound = bound_default, prev_index = 0,
      rc_skip = False, have_ids = have, need_ids = need \<rparr> = Inr s"
  shows "reconcile_aux ord g (PROTOCOL_VERSION # ids_message xs) have need = Inr (full_output s, rc_neg s, have_ids s, need_ids s)"
proof -
  have "unat (of_nat (length (contents v)) :: u64) = length (contents v)"
    using contents_small [OF assms(1)] by (simp add: unat_of_nat)
  moreover have "length (PROTOCOL_VERSION # ids_message xs) \<le> MAX_RECONCILE_INPUT_BYTES"
    using length_ids_message [OF assms(3,4)] assms(4) by (simp add: MAX_RECONCILE_INPUT_BYTES_def)
  ultimately show ?thesis using size_contents [OF assms(1)] assms(2,5)
    by (simp add: reconcile_aux_def get_byte_def) (simp add: PROTOCOL_VERSION_def)
qed

lemma one_round:
  assumes v: "ok X v" "\<forall>it \<in> set (contents v). timestamp it \<noteq> - 1" "length (contents v) < 32" "distinct (map item_id (contents v))"
    and w: "ok X w" "\<forall>it \<in> set (contents w). timestamp it \<noteq> - 1" "length (contents w) \<le> 32000"
    and c: "neg_new (mk X v) lv = Inr c" and r: "neg_new (mk X w) lw = Inr r" "lw = 0 \<or> 32 * length (contents w) + 300 \<le> unat lw"
  shows "\<exists>c1 r1 c2. initiate c = Inr (PROTOCOL_VERSION # ids_message (contents v), c1) \<and>
    reconcile ord r (PROTOCOL_VERSION # ids_message (contents v)) = Inr (PROTOCOL_VERSION # ids_message (contents w), r1) \<and>
    reconcile_with_ids ord c1 (PROTOCOL_VERSION # ids_message (contents w)) [] [] =
      Inr (None, c2, filter (\<lambda>i. i \<notin> item_id ` set (contents w)) (map item_id (contents v)),
        ord (filter (\<lambda>i. i \<notin> item_id ` set (contents v)) (fold List.insert (map item_id (contents w)) [])))"
proof -
  have c': "ng_storage c = mk X v" "\<not> is_initiator c" "work_limit c = MAX_RECONCILE_WORK" "frame_size_limit c = lv" "lv = 0 \<or> 4096 \<le> lv"
    and r': "ng_storage r = mk X w" "\<not> is_initiator r" "work_limit r = MAX_RECONCILE_WORK" "frame_size_limit r = lw"
    using c r(1) by (auto simp: neg_new_def split: if_splits)
  obtain c1 where c1: "initiate c = Inr (PROTOCOL_VERSION # ids_message (contents v), c1)" "same_session (c\<lparr> is_initiator := True \<rparr>) c1"
    using initiate_small [OF v(1,3) c'(1,2)] by blast
  have len: "length (contents v) < 2 ^ 64" "length (contents w) < 2 ^ 64" "length (contents v) \<le> 32000" using v(3) w(3) by simp_all
  define sr where "sr = \<lparr> rc_neg = r\<lparr> last_timestamp_in := 0, last_timestamp_out := 0, work := 0 \<rparr>,
      rc_query = ids_message (contents v), full_output = [PROTOCOL_VERSION], prev_bound = bound_default, prev_index = 0,
      rc_skip = False, have_ids = [], need_ids = [] \<rparr>"
  obtain s1 where "reconcile_loop ord (length (contents w)) sr = Inr s1" "full_output s1 = PROTOCOL_VERSION # ids_message (contents w)"
    using respond_ids [OF w(1,2) contents_ids [OF v(1)] len(1) w(3), of sr ord] r(2) r' by (auto simp: sr_def MAX_RECONCILE_WORK_def)
  then have "reconcile_aux ord r (PROTOCOL_VERSION # ids_message (contents v)) [] [] = Inr (PROTOCOL_VERSION # ids_message (contents w), rc_neg s1, have_ids s1, need_ids s1)"
    using reconcile_aux_ids [OF w(1) r'(1) contents_ids [OF v(1)] len(3)] by (simp add: sr_def)
  then have R: "reconcile ord r (PROTOCOL_VERSION # ids_message (contents v)) = Inr (PROTOCOL_VERSION # ids_message (contents w), rc_neg s1)"
    using r'(2) by (simp add: reconcile_def)
  have cc: "ng_storage c1 = mk X v" "is_initiator c1" "work_limit c1 = MAX_RECONCILE_WORK" "frame_size_limit c1 = lv"
    using c1(2) c' by (simp_all add: same_session_def)
  define sc where "sc = \<lparr> rc_neg = c1\<lparr> last_timestamp_in := 0, last_timestamp_out := 0, work := 0 \<rparr>,
      rc_query = ids_message (contents w), full_output = [PROTOCOL_VERSION], prev_bound = bound_default, prev_index = 0,
      rc_skip = False, have_ids = [], need_ids = [] \<rparr>"
  have "lv = 0 \<or> 4096 \<le> unat lv" using c'(5) by (auto simp: word_le_nat_alt)
  then obtain s2 where "reconcile_loop ord (length (contents v)) sc = Inr s2" "full_output s2 = [PROTOCOL_VERSION]"
      "have_ids s2 = filter (\<lambda>i. i \<notin> item_id ` set (contents w)) (map item_id (contents v))"
      "need_ids s2 = ord (filter (\<lambda>i. i \<notin> item_id ` set (contents v)) (fold List.insert (map item_id (contents w)) []))"
    using take_ids [OF v(1,2) contents_ids [OF w(1)] len(2) v(4), of sc ord] cc by (auto simp: sc_def MAX_RECONCILE_WORK_def)
  then have C: "reconcile_with_ids ord c1 (PROTOCOL_VERSION # ids_message (contents w)) [] [] = Inr (None, rc_neg s2,
        filter (\<lambda>i. i \<notin> item_id ` set (contents w)) (map item_id (contents v)),
        ord (filter (\<lambda>i. i \<notin> item_id ` set (contents v)) (fold List.insert (map item_id (contents w)) [])))"
    using reconcile_aux_ids [OF v(1) cc(1) contents_ids [OF w(1)] w(3)] cc(2) by (simp add: sc_def reconcile_with_ids_def)
  show ?thesis using c1(1) R C by blast
qed

end

section \<open>Properties\<close>

text \<open>C4: two sealed vectors reconcile in one round when the initiator holds fewer than 32 items with distinct
  ids, the other side holds at most 32000, no item of either has the timestamp \<open>u64::MAX\<close>, and the other side's
  frame has room for its ids (no limit, or at least 32 bytes for each and 300 more). The initiator's
  opening message, the reply and the initiator's reading of it all succeed; the initiator has nothing
  more to send; the ids it is told it has are exactly its own that the other side lacks, in order, and
  those it needs are exactly the other side's that it lacks, each once.\<close>

theorem one_round_sync:
  assumes "vector_ok X v" "length (v_items v) < 32" "distinct (map item_id (v_items v))"
    and "vector_ok X w" "length (v_items w) \<le> 32000"
    and "\<forall>it \<in> set (v_items v @ v_items w). timestamp it \<noteq> - 1" and "\<And>xs. mset (ord xs) = mset xs"
    and "neg_new (vector_storage X v) lv = Inr c"
    and "neg_new (vector_storage X w) lw = Inr r" "lw = 0 \<or> 32 * length (v_items w) + 300 \<le> unat lw"
  shows "\<exists>m c1 reply r1 c2 have need. initiate c = Inr (m, c1) \<and> reconcile ord r m = Inr (reply, r1) \<and>
    reconcile_with_ids ord c1 reply [] [] = Inr (None, c2, have, need) \<and>
    have = filter (\<lambda>i. i \<notin> item_id ` set (v_items w)) (map item_id (v_items v)) \<and>
    set need = item_id ` set (v_items w) - item_id ` set (v_items v) \<and> distinct need"
proof -
  let ?N = "filter (\<lambda>i. i \<notin> item_id ` set (v_items v)) (fold List.insert (map item_id (v_items w)) [])"
  have "set ?N = item_id ` set (v_items w) - item_id ` set (v_items v)" "distinct ?N"
    using fold_insert_ids [of "[]" "map item_id (v_items w)"] by auto
  moreover have "set (ord ?N) = set ?N" "distinct (ord ?N) \<longleftrightarrow> distinct ?N"
    using assms(7) [of ?N] mset_eq_setD mset_eq_imp_distinct_iff by blast+
  ultimately have "set (ord ?N) = item_id ` set (v_items w) - item_id ` set (v_items v)" "distinct (ord ?N)" by simp_all
  moreover have "\<forall>it \<in> set (v_items v). timestamp it \<noteq> - 1" "\<forall>it \<in> set (v_items w). timestamp it \<noteq> - 1" using assms(6) by auto
  ultimately show ?thesis using vec.one_round [OF assms(1) _ assms(2,3,4) _ assms(5,8,9,10), of ord] by blast
qed

theorem one_round_sync_witness:
  "\<exists>c r m c1 reply r1 c2 have need.
    neg_new (vector_storage sample_ext sample_vector) 0 = Inr c \<and>
    neg_new (vector_storage sample_ext \<lparr> v_items = [Item 3 (replicate 32 9), Item 9 (replicate 32 2)], v_sealed = True \<rparr>) 5000 = Inr r \<and>
    initiate c = Inr (m, c1) \<and> reconcile rev r m = Inr (reply, r1) \<and>
    reconcile_with_ids rev c1 reply [] [] = Inr (None, c2, have, need) \<and>
    have = [replicate 32 7, replicate 32 1] \<and> set need = {replicate 32 2}"
proof -
  define w where "w = \<lparr> v_items = [Item 3 (replicate 32 9), Item 9 (replicate 32 2)], v_sealed = True \<rparr>"
  have w: "vector_ok sample_ext w" "length (v_items w) \<le> 32000" "\<forall>it \<in> set (v_items sample_vector @ v_items w). timestamp it \<noteq> - 1"
    by (simp_all add: w_def vector_ok_def sample_vector_def less_item_def item_less_def)
  have v: "length (v_items sample_vector) < 32" "distinct (map item_id (v_items sample_vector))"
    by (simp_all add: sample_vector_def replicate_eq_replicate)
  obtain c r where c: "neg_new (vector_storage sample_ext sample_vector) 0 = Inr c" "neg_new (vector_storage sample_ext w) 5000 = Inr r"
    by (simp add: neg_new_def)
  have "(5000 :: u64) = 0 \<or> 32 * length (v_items w) + 300 \<le> unat (5000 :: u64)" by (simp add: w_def)
  from one_round_sync [OF sample_vector_ok v w(1-3) _ c this, of rev]
  obtain m c1 reply r1 c2 h n where "initiate c = Inr (m, c1)" "reconcile rev r m = Inr (reply, r1)"
      "reconcile_with_ids rev c1 reply [] [] = Inr (None, c2, h, n)"
      "h = filter (\<lambda>i. i \<notin> item_id ` set (v_items w)) (map item_id (v_items sample_vector))"
      "set n = item_id ` set (v_items w) - item_id ` set (v_items sample_vector)"
    by auto
  moreover have "filter (\<lambda>i. i \<notin> item_id ` set (v_items w)) (map item_id (v_items sample_vector)) = [replicate 32 7, replicate 32 1]"
    "item_id ` set (v_items w) - item_id ` set (v_items sample_vector) = {replicate 32 2}"
    by (auto simp: w_def sample_vector_def replicate_eq_replicate)
  ultimately show ?thesis using c unfolding w_def by metis
qed

text \<open>C10: a reply never exceeds the session's frame size limit: whatever message a new session on a sealed
  vector answers under a limit other than 0 that \<open>Negentropy::new\<close> accepts, the reply it returns has at most that
  many bytes.\<close>

theorem reply_within_frame:
  assumes "vector_ok X v" "sha256_ok X" "neg_new (vector_storage X v) limit = Inr g" "limit \<noteq> 0"
    "reconcile ord g query = Inr (reply, g')"
  shows "length reply \<le> unat limit"
proof -
  have g: "ng_storage g = vector_storage X v" "frame_size_limit g = limit" "4096 \<le> limit"
    using assms(3,4) by (auto simp: neg_new_def split: if_splits)
  obtain h n where "reconcile_aux ord g query [] [] = Inr (reply, g', h, n)"
    using assms(5) by (auto simp: reconcile_def rbind_eq_Inr split: if_splits)
  then show ?thesis using vec.reconcile_aux_length [OF assms(1,2) g(1)] g(2,3) by simp
qed

theorem reply_within_frame_witness:
  "\<exists>g g'. neg_new (vector_storage sample_ext sample_vector) 4096 = Inr g \<and>
    reconcile rev g [0x60, 0] = Inr ([0x61], g') \<and> length [0x61 :: u8] \<le> unat (4096 :: u64)"
proof -
  obtain g where g: "neg_new (vector_storage sample_ext sample_vector) 4096 = Inr g" "\<not> is_initiator g" by (simp add: neg_new_def)
  then obtain g' where "reconcile rev g [0x60, 0] = Inr ([0x61], g')"
    by (simp add: reconcile_def reconcile_aux_def MAX_RECONCILE_INPUT_BYTES_def get_byte_def PROTOCOL_VERSION_def)
  moreover from this have "length [0x61 :: u8] \<le> unat (4096 :: u64)"
    by (intro reply_within_frame [OF sample_vector_ok sample_ext_ok(2) g(1)]) simp_all
  ultimately show ?thesis using g(1) by blast
qed

text \<open>C34: the bounds of a message survive its delta coding: bounds in time order, each with an id
  prefix of at most 32 bytes, decode to themselves from a fresh reader, with anything after them.\<close>

theorem bounds_roundtrip:
  assumes "list_all bound_ok bs" "sorted (map (timestamp \<circ> b_item) bs)" "last_timestamp_out g = 0" "last_timestamp_in h = 0"
  shows "decode_bounds (length bs) h (encode_bounds g bs @ rest) = Inr (bs, rest)"
  using assms by (intro decode_encode_bounds) simp_all

theorem bounds_roundtrip_witness:
  "\<exists>g. neg_new (vector_storage sample_ext sample_vector) 0 = Inr g \<and>
    decode_bounds 2 g (encode_bounds g [bound_from_item (Item 5 (replicate 32 1)), bound_timestamp (- 1)] @ [7]) =
      Inr ([bound_from_item (Item 5 (replicate 32 1)), bound_timestamp (- 1)], [7])"
proof -
  obtain g where g: "neg_new (vector_storage sample_ext sample_vector) 0 = Inr g" "last_timestamp_out g = 0" "last_timestamp_in g = 0"
    by (simp add: neg_new_def)
  have "decode_bounds (length [bound_from_item (Item 5 (replicate 32 1)), bound_timestamp (- 1)]) g
      (encode_bounds g [bound_from_item (Item 5 (replicate 32 1)), bound_timestamp (- 1)] @ [7]) =
      Inr ([bound_from_item (Item 5 (replicate 32 1)), bound_timestamp (- 1)], [7])"
  proof (rule bounds_roundtrip)
    show "list_all bound_ok [bound_from_item (Item 5 (replicate 32 1)), bound_timestamp (- 1)]" by (simp add: bound_ok_from_item)
    show "sorted (map (timestamp \<circ> b_item) [bound_from_item (Item 5 (replicate 32 1)), bound_timestamp (- 1)])"
      by (simp add: bound_from_item_def bound_timestamp_def)
  qed (use g in auto)
  then show ?thesis using g(1) by (metis One_nat_def Suc_1 length_Cons list.size(3))
qed

text \<open>C35: the bound chosen between two neighbouring items separates them: the earlier item is below
  it and the later one is not, so every storage with both items splits exactly between them.\<close>

theorem minimal_bound_separates:
  assumes "prev < cur" "length (item_id prev) = 32" "length (item_id cur) = 32"
  shows "bound_ok (get_minimal_bound prev cur) \<and> prev < b_item (get_minimal_bound prev cur) \<and>
    \<not> cur < b_item (get_minimal_bound prev cur)"
  using get_minimal_bound_separates [OF assms] by blast

theorem minimal_bound_separates_witness:
  "Item 3 (replicate 32 7) < b_item (get_minimal_bound (Item 3 (replicate 32 7)) (Item 3 (replicate 32 9)))"
proof -
  have "Item 3 (replicate 32 7) < Item 3 (replicate 32 9)" by (simp add: less_item_def item_less_def replicate_less)
  then show ?thesis using minimal_bound_separates [of "Item 3 (replicate 32 7)" "Item 3 (replicate 32 9)"] by simp
qed

text \<open>C36: what the frame limit leaves out: when the split of the last range no longer fits the
  frame, the reply drops it and closes with the fingerprint of the empty set, whatever the storage
  holds in that range.\<close>

theorem frame_limit_drops_range:
  assumes "vector_ok X v" "ng_storage (rc_neg s) = vector_storage X v"
    and "fingerprint_mode s lower (length (v_items v)) curr_bound = Inr (s2, o2, upper2)"
    and "exceeded_frame_size_limit (rc_neg s2) (length (full_output s2) + length o2)"
  shows "\<exists>s3. finish_range (length (v_items v)) s2 o2 upper2 curr_bound = Inr (False, s3) \<and>
    full_output s3 = full_output s @ encode_varint 0 @ encode_varint 0 @ encode_varint (mode_as_u64 Fingerprint) @
      get_fingerprint X acc_zero 0"
proof -
  have k: "same_session (rc_neg s) (rc_neg s2)" "full_output s2 = full_output s" "upper2 = length (v_items v)"
    using fingerprint_mode_keeps [OF assms(3)] by auto
  have "st_fingerprint (ng_storage (rc_neg s2)) (length (v_items v)) (length (v_items v)) = Inr (get_fingerprint X acc_zero 0)"
    using vec.fingerprint_contents [OF assms(1), of "length (v_items v)" "length (v_items v)"] k(1) assms(2)
    by (simp add: same_session_def)
  then show ?thesis using assms(4) k
    by (simp add: finish_range_def answer_rest_def split_beta encode_bound_max)
qed

definition sample_recon :: recon where
  "sample_recon = \<lparr> rc_neg = \<lparr> ng_storage = vector_storage sample_ext sample_vector, frame_size_limit = 4096, is_initiator = False,
       last_timestamp_in = - 1, last_timestamp_out = 0, work = 0, work_limit = MAX_RECONCILE_WORK \<rparr>,
     rc_query = replicate 16 0, full_output = replicate 3896 0, prev_bound = bound_default, prev_index = 0,
     rc_skip = False, have_ids = [], need_ids = [] \<rparr>"

lemma sample_recon_mode:
  "\<exists>s2 o2. fingerprint_mode sample_recon 0 3 (bound_timestamp (- 1)) = Inr (s2, o2, 3) \<and>
    exceeded_frame_size_limit (rc_neg s2) (length (full_output s2) + length o2)"
proof -
  have fp: "st_fingerprint (vector_storage sample_ext sample_vector) 0 3 = Inr (replicate 16 0xAA)"
    using vec.fingerprint_contents [OF sample_vector_ok, of 0 3 sample_ext]
    by (simp add: sample_vector_def get_fingerprint_def sample_ext_def FINGERPRINT_SIZE_def)
  define g where "g = (rc_neg sample_recon)\<lparr> work := Suc (Suc 0) \<rparr>"
  obtain vs where vs: "st_visits (ng_storage g) 0 3 = Inr vs"
    using vec.visits_contents [OF sample_vector_ok, of 0 3 sample_ext] by (simp add: g_def sample_recon_def sample_vector_def)
  have "encode_varint (mode_as_u64 IdList) \<noteq> []" using length_mode_varint [of IdList] by (metis list.size(3) zero_neq_one)
  then obtain o2 g2 where sr: "split_range g 0 3 (bound_timestamp (- 1)) = Inr (o2, g2)" "o2 \<noteq> []"
    by (simp add: split_range_def BUCKETS_def split_beta Let_def st_iterate_def vs run_visits_concat)
  have "replicate 16 (0 :: u8) \<noteq> replicate 16 0xAA" by (simp add: replicate_eq_replicate)
  then have "\<exists>s2. fingerprint_mode sample_recon 0 3 (bound_timestamp (- 1)) = Inr (s2, o2, 3)"
    using fp sr(1)
    by (simp add: fingerprint_mode_def sample_recon_def get_bytes_def FINGERPRINT_SIZE_def add_work_def owed_skip_def g_def)
  then obtain s2 where m: "fingerprint_mode sample_recon 0 3 (bound_timestamp (- 1)) = Inr (s2, o2, 3)" "o2 \<noteq> []"
    using sr(2) by blast
  have "same_session (rc_neg sample_recon) (rc_neg s2)" "full_output s2 = full_output sample_recon"
    using fingerprint_mode_keeps [OF m(1)] by auto
  then have "exceeded_frame_size_limit (rc_neg s2) (length (full_output s2) + length o2)"
    using m(2) by (simp add: exceeded_soft soft_limit_def same_session_def sample_recon_def)
  with m(1) show ?thesis by blast
qed

theorem frame_limit_drops_range_witness:
  "\<exists>s2 o2 s3. fingerprint_mode sample_recon 0 3 (bound_timestamp (- 1)) = Inr (s2, o2, 3) \<and>
    finish_range 3 s2 o2 3 (bound_timestamp (- 1)) = Inr (False, s3) \<and>
    full_output s3 = replicate 3896 0 @ encode_varint 0 @ encode_varint 0 @ encode_varint (mode_as_u64 Fingerprint) @
      get_fingerprint sample_ext acc_zero 0"
proof -
  obtain s2 o2 where m: "fingerprint_mode sample_recon 0 3 (bound_timestamp (- 1)) = Inr (s2, o2, 3)"
      "exceeded_frame_size_limit (rc_neg s2) (length (full_output s2) + length o2)" using sample_recon_mode by blast
  have n: "length (v_items sample_vector) = 3" "full_output sample_recon = replicate 3896 0"
      "ng_storage (rc_neg sample_recon) = vector_storage sample_ext sample_vector"
    by (simp_all add: sample_vector_def sample_recon_def)
  show ?thesis
    using frame_limit_drops_range [OF sample_vector_ok n(3), unfolded n, OF m] m(1) by blast
qed

end
