(* ===== verification/Db_Search.thy ===== *)
theory Db_Search
  imports Event_Error Wok_Collections "HOL-Library.Sublist"
begin

text \<open>
  The search terms of \<open>wok-db/src/search.rs\<close>: word normalization, the terms of a document and the
  query parser. The Unicode tables of the standard library (white space, alphanumerics and
  lower case, by code point) are the parameter \<open>U\<close>. A message is its format string without the
  interpolated values.
\<close>

record unicode =
  uc_whitespace :: "nat \<Rightarrow> bool"
  uc_alphanumeric :: "nat \<Rightarrow> bool"
  uc_lowercase :: "nat \<Rightarrow> nat list"

datatype db_error = DbLmdb int string | DbMessage string | DbEvent event_error

definition MAX_INDEXED_TERM_BYTES :: nat where "MAX_INDEXED_TERM_BYTES = 64"

definition MAX_SEARCH_QUERY_BYTES :: nat where "MAX_SEARCH_QUERY_BYTES = 1024"

definition MAX_SEARCH_TERMS :: nat where "MAX_SEARCH_TERMS = 16"

definition MAX_INDEXED_UNIQUE_TERMS :: nat where "MAX_INDEXED_UNIQUE_TERMS = 256"

record search_query =
  sq_terms :: "bytes list"
  sq_phrase_terms :: "bytes list"
  sq_phrase :: bytes

section \<open>Terms\<close>

text \<open>A callback takes a term, or \<^term>\<open>None\<close> for a word that is too long, and its captured state; it
  returns whether to go on.\<close>

type_synonym 's term_cb = "bytes option \<Rightarrow> 's \<Rightarrow> bool \<times> 's"

definition finish_term :: "'s term_cb \<Rightarrow> bytes \<Rightarrow> 's \<Rightarrow> bool \<times> 's" where
  "finish_term f current s =
     (if current = [] then (True, s)
      else f (if length current \<le> MAX_INDEXED_TERM_BYTES then Some current else None) s)"

fun term_loop :: "unicode \<Rightarrow> 's term_cb \<Rightarrow> nat list \<Rightarrow> bytes \<Rightarrow> 's \<Rightarrow> bool \<times> 's" where
  "term_loop U f [] current s = finish_term f current s"
| "term_loop U f (ch # chs) current s =
     (if uc_alphanumeric U ch then term_loop U f chs (current @ utf8_string (uc_lowercase U ch)) s
      else case finish_term f current s of (go, s') \<Rightarrow> if go then term_loop U f chs [] s' else (False, s'))"

definition for_each_term :: "unicode \<Rightarrow> bytes \<Rightarrow> 's term_cb \<Rightarrow> 's \<Rightarrow> bool \<times> 's" where
  "for_each_term U text f s = term_loop U f (chars text) [] s"

fun for_each_document_term :: "unicode \<Rightarrow> bytes list \<Rightarrow> 's term_cb \<Rightarrow> 's \<Rightarrow> 's" where
  "for_each_document_term U [] f s = s"
| "for_each_document_term U (text # document) f s =
     (case for_each_term U text f s of (go, s1) \<Rightarrow>
        if \<not> go then s1
        else case f None s1 of (go', s2) \<Rightarrow> if \<not> go' then s2 else for_each_document_term U document f s2)"

definition normalize_search_terms_with_overflow :: "unicode \<Rightarrow> bytes \<Rightarrow> bytes list \<times> bool" where
  "normalize_search_terms_with_overflow U text =
     snd (for_each_term U text (\<lambda>t (terms, overflow). case t of Some t \<Rightarrow> (True, (terms @ [t], overflow))
        | None \<Rightarrow> (True, (terms, True))) ([], False))"

definition normalize_search_terms :: "unicode \<Rightarrow> bytes \<Rightarrow> bytes list" where
  "normalize_search_terms U text = fst (normalize_search_terms_with_overflow U text)"

definition indexed_terms_cb :: "bytes list term_cb" where
  "indexed_terms_cb t terms =
     (let terms' = (case t of Some t \<Rightarrow> List.insert t terms | None \<Rightarrow> terms) in
      (length terms' < MAX_INDEXED_UNIQUE_TERMS, terms'))"

definition indexed_terms :: "unicode \<Rightarrow> bytes list \<Rightarrow> bytes list" where
  "indexed_terms U document = for_each_document_term U document indexed_terms_cb []"

definition search_term_set :: "unicode \<Rightarrow> bytes \<Rightarrow> bytes list" where
  "search_term_set U content = indexed_terms U [content]"

text \<open>The adjacent pairs of a query in a document. The state of the callback is \<open>found\<close>, \<open>remaining\<close> and
  \<open>previous\<close>; \<open>document\<close> is what \<open>search_document\<close> extracts from the event's JSON.\<close>

fun mark_pairs :: "bytes \<Rightarrow> bytes \<Rightarrow> bool list \<Rightarrow> (bytes \<times> bytes) list \<Rightarrow> nat \<Rightarrow> bool list \<times> nat" where
  "mark_pairs previous t (seen # found) ((first, second) # pairs) remaining =
     (let hit = \<not> seen \<and> first = previous \<and> second = t;
          (found', remaining') = mark_pairs previous t found pairs (if hit then remaining - 1 else remaining)
      in ((if hit then True else seen) # found', remaining'))"
| "mark_pairs previous t found pairs remaining = (found, remaining)"

definition phrase_pair_cb :: "(bytes \<times> bytes) list \<Rightarrow> (bool list \<times> nat \<times> bytes) term_cb" where
  "phrase_pair_cb pairs t s = (case s of (found, remaining, previous) \<Rightarrow>
     case t of
       None \<Rightarrow> (True, (found, remaining, []))
     | Some t \<Rightarrow>
         let (found', remaining') = (if previous \<noteq> [] then mark_pairs previous t found pairs remaining else (found, remaining))
         in (0 < remaining', (found', remaining', t)))"

definition count_phrase_pairs :: "unicode \<Rightarrow> bytes list \<Rightarrow> (bytes \<times> bytes) list \<Rightarrow> nat" where
  "count_phrase_pairs U document pairs =
     (if pairs = [] then 0
      else case for_each_document_term U document (phrase_pair_cb pairs) (replicate (length pairs) False, length pairs, [])
        of (found, remaining, previous) \<Rightarrow> length pairs - remaining)"

section \<open>Queries\<close>

fun split_words :: "unicode \<Rightarrow> nat list \<Rightarrow> nat list \<Rightarrow> nat list list" where
  "split_words U current [] = (if current = [] then [] else [current])"
| "split_words U current (ch # chs) =
     (if uc_whitespace U ch then (if current = [] then split_words U [] chs else current # split_words U [] chs)
      else split_words U (current @ [ch]) chs)"

definition split_whitespace :: "unicode \<Rightarrow> nat list \<Rightarrow> nat list list" where
  "split_whitespace U chs = split_words U [] chs"

definition free_word :: "nat list \<Rightarrow> bool" where
  "free_word word =
     (if 0x3A \<notin> set word then True
      else takeWhile (\<lambda>c. c \<noteq> 0x3A) word = [] \<or> tl (dropWhile (\<lambda>c. c \<noteq> 0x3A) word) = [])"

fun join_space :: "bytes list \<Rightarrow> bytes" where
  "join_space [] = []"
| "join_space [w] = w"
| "join_space (w # ws) = w @ 0x20 # join_space ws"

definition free_text :: "unicode \<Rightarrow> bytes \<Rightarrow> bytes" where
  "free_text U input = join_space (map utf8_string (filter free_word (split_whitespace U (chars input))))"

definition parse_search_query :: "unicode \<Rightarrow> bytes \<Rightarrow> db_error + search_query" where
  "parse_search_query U input =
     (if MAX_SEARCH_QUERY_BYTES < length input then Inl (DbMessage ''search query exceeds bytes'')
      else let (ordered, term_overflow) = normalize_search_terms_with_overflow U (free_text U input) in
        if term_overflow then Inl (DbMessage ''search term exceeds bytes'')
        else if ordered = [] then Inl (DbMessage ''search query has no searchable terms'')
        else if MAX_SEARCH_TERMS < length ordered then Inl (DbMessage ''search query exceeds terms'')
        else Inr \<lparr> sq_terms = remdups_adj (sort ordered), sq_phrase_terms = ordered, sq_phrase = join_space ordered \<rparr>)"

section \<open>What the callbacks see\<close>

text \<open>The words of a text in order, too long ones as \<^term>\<open>None\<close>.\<close>

fun word_terms :: "unicode \<Rightarrow> nat list \<Rightarrow> bytes \<Rightarrow> bytes option list" where
  "word_terms U [] current = (if current = [] then [] else [if length current \<le> MAX_INDEXED_TERM_BYTES then Some current else None])"
| "word_terms U (ch # chs) current =
     (if uc_alphanumeric U ch then word_terms U chs (current @ utf8_string (uc_lowercase U ch))
      else word_terms U [] current @ word_terms U chs [])"

fun run_terms :: "'s term_cb \<Rightarrow> bytes option list \<Rightarrow> 's \<Rightarrow> bool \<times> 's" where
  "run_terms f [] s = (True, s)"
| "run_terms f (t # ts) s = (case f t s of (go, s') \<Rightarrow> if go then run_terms f ts s' else (False, s'))"

lemma term_loop_run: "snd (term_loop U f chs current s) = snd (run_terms f (word_terms U chs current) s) \<and>
  (fst (term_loop U f chs current s) \<longleftrightarrow> fst (run_terms f (word_terms U chs current) s))"
proof (induction U f chs current s rule: term_loop.induct)
  case (1 U f current s)
  then show ?case by (auto simp: finish_term_def split: prod.split)
next
  case (2 U f ch chs current s)
  then show ?case by (auto simp: finish_term_def split: prod.split)
qed

lemma word_terms_short: "Some t \<in> set (word_terms U chs current) \<Longrightarrow> t \<noteq> [] \<and> length t \<le> MAX_INDEXED_TERM_BYTES"
  by (induction U chs current rule: word_terms.induct) (auto split: if_splits)

lemma run_collect:
  "run_terms (\<lambda>t (terms, overflow). case t of Some t \<Rightarrow> (True, (terms @ [t], overflow)) | None \<Rightarrow> (True, (terms, True))) ts (acc, ov) =
     (True, (acc @ List.map_filter (\<lambda>t. t) ts, ov \<or> None \<in> set ts))"
  by (induction ts arbitrary: acc ov) (auto simp: List.map_filter_simps split: option.split)

lemma normalize_words:
  "normalize_search_terms_with_overflow U text =
     (List.map_filter (\<lambda>t. t) (word_terms U (chars text) []), None \<in> set (word_terms U (chars text) []))"
  using term_loop_run [of U "\<lambda>t (terms, overflow). case t of Some t \<Rightarrow> (True, (terms @ [t], overflow)) | None \<Rightarrow> (True, (terms, True))" "chars text" "[]" "([], False)"]
  by (simp add: normalize_search_terms_with_overflow_def for_each_term_def run_collect)

lemma run_index:
  "distinct acc \<Longrightarrow> length acc + length ts < MAX_INDEXED_UNIQUE_TERMS \<Longrightarrow>
    \<exists>acc'. run_terms indexed_terms_cb ts acc = (True, acc') \<and> set acc' = set acc \<union> set (List.map_filter (\<lambda>t. t) ts) \<and>
      distinct acc' \<and> length acc' \<le> length acc + length ts"
proof (induction ts arbitrary: acc)
  case (Cons t ts)
  define acc1 where "acc1 = (case t of Some t \<Rightarrow> List.insert t acc | None \<Rightarrow> acc)"
  have acc1: "distinct acc1" "length acc1 \<le> Suc (length acc)" "set acc1 = set acc \<union> set (List.map_filter (\<lambda>t. t) [t])"
    using Cons.prems by (auto simp: acc1_def List.insert_def List.map_filter_simps split: option.split)
  then obtain acc' where "run_terms indexed_terms_cb ts acc1 = (True, acc')" "set acc' = set acc1 \<union> set (List.map_filter (\<lambda>t. t) ts)"
      "distinct acc'" "length acc' \<le> length acc1 + length ts"
    using Cons.IH [of acc1] Cons.prems by auto
  moreover have "indexed_terms_cb t acc = (True, acc1)"
    using acc1(2) Cons.prems(2) by (simp add: indexed_terms_cb_def acc1_def Let_def)
  ultimately show ?case using acc1 by (auto simp: List.map_filter_simps split: option.splits)
qed (simp add: List.map_filter_simps)

lemma set_map_filter_id: "set (List.map_filter (\<lambda>t. t) ts) = {t. Some t \<in> set ts}"
  by (induction ts) (auto simp: List.map_filter_simps split: option.split)

lemma map_filter_all: "None \<notin> set ts \<Longrightarrow> ts = map Some (List.map_filter (\<lambda>t. t) ts)"
  by (induction ts) (auto simp: List.map_filter_simps neq_commute [of None])

lemma search_term_set_all:
  assumes "length (word_terms U (chars text) []) < MAX_INDEXED_UNIQUE_TERMS"
  shows "set (search_term_set U text) = set (List.map_filter (\<lambda>t. t) (word_terms U (chars text) []))"
proof -
  let ?ws = "word_terms U (chars text) []"
  obtain acc where acc: "run_terms indexed_terms_cb ?ws [] = (True, acc)" "set acc = set (List.map_filter (\<lambda>t. t) ?ws)"
    using run_index [of "[]" ?ws] assms by auto
  then have "term_loop U indexed_terms_cb (chars text) [] [] = (True, acc)"
    using term_loop_run [of U indexed_terms_cb "chars text" "[]" "[]"] by (simp add: prod_eq_iff)
  then have "search_term_set U text = acc"
    by (simp add: search_term_set_def indexed_terms_def for_each_term_def indexed_terms_cb_def Let_def)
  with acc show ?thesis by simp
qed

text \<open>The words of a document in order, with a \<^term>\<open>None\<close> after each piece.\<close>

definition document_terms :: "unicode \<Rightarrow> bytes list \<Rightarrow> bytes option list" where
  "document_terms U document = concat (map (\<lambda>text. word_terms U (chars text) [] @ [None]) document)"

lemma run_terms_append:
  "run_terms f (ts @ us) s = (case run_terms f ts s of (go, s') \<Rightarrow> if go then run_terms f us s' else (False, s'))"
  by (induction ts arbitrary: s) (auto split: prod.split)

lemma for_each_document_term_run: "for_each_document_term U document f s = snd (run_terms f (document_terms U document) s)"
proof (induction U document f s rule: for_each_document_term.induct)
  case (2 U piece document f s)
  have loop: "for_each_term U piece f s = run_terms f (word_terms U (chars piece) []) s"
    using term_loop_run [of U f "chars piece" "[]" s] by (simp add: for_each_term_def prod_eq_iff)
  show ?case using 2 by (auto simp: loop document_terms_def run_terms_append split: prod.split)
qed (simp add: document_terms_def)

lemma document_terms_nonempty: "Some [] \<notin> set (document_terms U document)"
  by (auto simp: document_terms_def dest: word_terms_short)

text \<open>\<open>adjacent prev ts p\<close>: the words of the pair \<open>p\<close> follow one another in \<open>prev # ts\<close>.\<close>

fun adjacent :: "bytes option \<Rightarrow> bytes option list \<Rightarrow> bytes \<times> bytes \<Rightarrow> bool" where
  "adjacent prev [] p \<longleftrightarrow> False"
| "adjacent prev (t # ts) p \<longleftrightarrow> prev = Some (fst p) \<and> t = Some (snd p) \<or> adjacent t ts p"

lemma adjacent_sublist: "adjacent prev ts p \<longleftrightarrow> sublist [Some (fst p), Some (snd p)] (prev # ts)"
  by (induction prev ts p rule: adjacent.induct) (auto simp: sublist_Cons_right)

definition unseen :: "bool list \<Rightarrow> nat" where
  "unseen found = length (filter Not found)"

lemma unseen_simps [simp]: "unseen [] = 0" "unseen (b # bs) = (if b then unseen bs else Suc (unseen bs))"
  by (simp_all add: unseen_def)

lemma mark_pairs_found:
  fixes previous t :: bytes
  assumes "length found = length pairs" "unseen found \<le> r"
  defines "found' \<equiv> map2 (\<lambda>seen p. seen \<or> previous = fst p \<and> t = snd p) found pairs"
  shows "mark_pairs previous t found pairs r = (found', r + unseen found' - unseen found) \<and> unseen found' \<le> unseen found"
  using assms(1,2) unfolding found'_def
proof (induction found pairs arbitrary: r rule: list_induct2')
  case (4 seen found p pairs)
  obtain a b where p: "p = (a, b)" by (cases p)
  let ?r = "if \<not> seen \<and> a = previous \<and> b = t then r - 1 else r"
  have "unseen found \<le> ?r" "length found = length pairs" using 4 by (auto split: if_splits)
  with 4(1) [of ?r] 4(3) show ?case by (auto simp: p Let_def)
qed simp_all

lemma map2_fst: "length xs = length ys \<Longrightarrow> map2 (\<lambda>x y. x) xs ys = xs"
  by (induction xs ys rule: list_induct2) auto

lemma map2_or_or:
  "map2 (\<lambda>seen p. seen \<or> Q p) (map2 (\<lambda>seen p. seen \<or> P p) found ps) ps = map2 (\<lambda>seen p. seen \<or> P p \<or> Q p) found ps"
  by (induction found ps rule: list_induct2') auto

lemma unseen_zero: "unseen found = 0 \<Longrightarrow> unseen (map2 (\<lambda>seen p. seen \<or> P p) found ps) = 0"
  by (induction found ps rule: list_induct2') (auto split: if_splits)

definition prev_word :: "bytes option \<Rightarrow> bytes" where
  "prev_word prev = (case prev of None \<Rightarrow> [] | Some t \<Rightarrow> t)"

lemma phrase_pair_cb_step:
  assumes "length found = length pairs" "prev \<noteq> Some []" "t \<noteq> Some []"
  shows "\<exists>go. phrase_pair_cb pairs t (found, unseen found, prev_word prev) =
    (let found' = map2 (\<lambda>seen p. seen \<or> prev = Some (fst p) \<and> t = Some (snd p)) found pairs
     in (go, (found', unseen found', prev_word t))) \<and>
    (\<not> go \<longrightarrow> unseen (map2 (\<lambda>seen p. seen \<or> prev = Some (fst p) \<and> t = Some (snd p)) found pairs) = 0)"
proof -
  show ?thesis
    using assms mark_pairs_found [OF assms(1) order.refl, of "prev_word prev" "the t"]
    by (cases t; cases prev) (auto simp: phrase_pair_cb_def prev_word_def Let_def map2_fst)
qed

lemma run_phrase_pairs:
  assumes "length found = length pairs" "prev \<noteq> Some []" "Some [] \<notin> set ts"
  shows "\<exists>found' previous. snd (run_terms (phrase_pair_cb pairs) ts (found, unseen found, prev_word prev)) =
      (found', unseen (map2 (\<lambda>seen p. seen \<or> adjacent prev ts p) found pairs), previous)"
  using assms
proof (induction ts arbitrary: found prev)
  case Nil
  then show ?case by (simp add: map2_fst)
next
  case (Cons t ts)
  let ?f = "map2 (\<lambda>seen p. seen \<or> prev = Some (fst p) \<and> t = Some (snd p)) found pairs"
  obtain go where go: "phrase_pair_cb pairs t (found, unseen found, prev_word prev) = (go, (?f, unseen ?f, prev_word t))"
    "\<not> go \<Longrightarrow> unseen ?f = 0"
    using phrase_pair_cb_step [of found pairs prev t] Cons.prems by (auto simp: Let_def)
  show ?case
  proof (cases go)
    case True
    then show ?thesis using Cons.IH [of ?f t] Cons.prems go(1) by (auto simp: map2_or_or disj_assoc)
  next
    case False
    then show ?thesis using go unseen_zero [of ?f "adjacent t ts" pairs] by (simp add: map2_or_or)
  qed
qed

text \<open>The tables restricted to ASCII, for examples.\<close>

definition ascii_unicode :: unicode where
  "ascii_unicode = \<lparr> uc_whitespace = (\<lambda>c. c = 0x20 \<or> 0x09 \<le> c \<and> c \<le> 0x0D),
     uc_alphanumeric = (\<lambda>c. 0x30 \<le> c \<and> c \<le> 0x39 \<or> 0x41 \<le> c \<and> c \<le> 0x5A \<or> 0x61 \<le> c \<and> c \<le> 0x7A),
     uc_lowercase = (\<lambda>c. [if 0x41 \<le> c \<and> c \<le> 0x5A then c + 0x20 else c]) \<rparr>"

section \<open>Properties\<close>

text \<open>C38: a search query the parser accepts has between one and sixteen words of at most 64 bytes; its terms
  are those words, sorted and without repetition; and it finds the text it was made from: every term is
  among the indexed terms of the query's own free text.\<close>

theorem search_query_finds_itself:
  assumes "parse_search_query U input = Inr q"
  shows "1 \<le> length (sq_phrase_terms q) \<and> length (sq_phrase_terms q) \<le> 16 \<and>
    list_all (\<lambda>t. t \<noteq> [] \<and> length t \<le> 64) (sq_phrase_terms q) \<and>
    sorted_wrt (<) (sq_terms q) \<and> set (sq_terms q) = set (sq_phrase_terms q) \<and>
    set (sq_terms q) \<subseteq> set (search_term_set U (free_text U input))"
proof -
  let ?ws = "word_terms U (chars (free_text U input)) []"
  let ?o = "List.map_filter (\<lambda>t. t) ?ws"
  have o: "None \<notin> set ?ws" "?o \<noteq> []" "length ?o \<le> 16" and q: "sq_terms q = remdups_adj (sort ?o)" "sq_phrase_terms q = ?o"
    using assms by (auto simp: parse_search_query_def normalize_words MAX_SEARCH_TERMS_def not_less split: if_splits)
  have ws: "?ws = map Some ?o" by (rule map_filter_all [OF o(1)])
  have "list_all (\<lambda>t. t \<noteq> [] \<and> length t \<le> 64) ?o"
    using word_terms_short [of _ U "chars (free_text U input)" "[]"] by (auto simp: list_all_iff set_map_filter_id MAX_INDEXED_TERM_BYTES_def)
  moreover have "length ?ws \<le> 16" using ws o(3) by (metis length_map)
  then have "set (search_term_set U (free_text U input)) = set ?o"
    by (intro search_term_set_all) (simp add: MAX_INDEXED_UNIQUE_TERMS_def)
  ultimately show ?thesis
    using o q by (simp add: strict_sorted_remdups_adj Suc_le_eq)
qed

theorem search_query_finds_itself_witness: 
  "\<exists>q. parse_search_query ascii_unicode (str ''Hi lang:en hi Bob'') = Inr q \<and> sq_terms q = [str ''bob'', str ''hi''] \<and>
    str ''bob'' \<in> set (search_term_set ascii_unicode (free_text ascii_unicode (str ''Hi lang:en hi Bob'')))"
proof -
  let ?i = "str ''Hi lang:en hi Bob''"
  have "case parse_search_query ascii_unicode ?i of Inl _ \<Rightarrow> False | Inr q \<Rightarrow> sq_terms q = [str ''bob'', str ''hi'']"
    by code_simp
  then obtain q where q: "parse_search_query ascii_unicode ?i = Inr q" "sq_terms q = [str ''bob'', str ''hi'']"
    by (auto split: sum.splits)
  with search_query_finds_itself [OF q(1)] show ?thesis by auto
qed

text \<open>C39: the phrase boost counts exactly the listed pairs of words that stand next to one another in the
  document, within one piece and with no over-long word between them; a pair listed twice counts twice. The
  early stop, once every pair is found, changes nothing.\<close>

theorem count_phrase_pairs_adjacent:
  "count_phrase_pairs U document pairs =
    length (filter (\<lambda>(a, b). sublist [Some a, Some b] (document_terms U document)) pairs)"
proof (cases "pairs = []")
  case False
  let ?ts = "document_terms U document"
  let ?f = "replicate (length pairs) False"
  have un: "unseen (map2 (\<lambda>seen p. seen \<or> P p) (replicate (length ps) False) ps) = length (filter (\<lambda>p. \<not> P p) ps)" for P and ps :: "'b list"
    by (induction ps) auto
  obtain found previous where run: "snd (run_terms (phrase_pair_cb pairs) ?ts (?f, unseen ?f, prev_word None)) =
      (found, unseen (map2 (\<lambda>seen p. seen \<or> adjacent None ?ts p) ?f pairs), previous)"
    using run_phrase_pairs [of ?f pairs None ?ts] document_terms_nonempty by auto
  have "unseen ?f = length pairs" by (simp add: unseen_def)
  with run have "count_phrase_pairs U document pairs = length pairs - length (filter (\<lambda>p. \<not> adjacent None ?ts p) pairs)"
    using False by (simp add: count_phrase_pairs_def for_each_document_term_run prev_word_def un)
  also have "\<dots> = length (filter (adjacent None ?ts) pairs)"
    using sum_length_filter_compl [of "adjacent None ?ts" pairs] by simp
  also have "adjacent None ?ts = (\<lambda>(a, b). sublist [Some a, Some b] ?ts)"
    by (auto simp: adjacent_sublist sublist_Cons_right fun_eq_iff)
  finally show ?thesis .
qed (simp add: count_phrase_pairs_def)

end
