(* ===== verification/Db_Keys.thy ===== *)
theory Db_Keys
  imports Db_Search "HOL-Library.Product_Lexorder"
begin

text \<open>
  The composite keys of the indexes and their comparators, \<open>wok-db/src/comparators.rs\<close>. A key is a string followed by
  one or two native integers, or two integers. The comparators are what the database sorts and searches by, for any
  bytes it holds: they are total orders, and on keys the code makes they are the lexicographic order of the parts.
  A comparator takes the bytes LMDB points at.
\<close>

section \<open>The code\<close>

definition key_u64_from_ne :: "bytes \<Rightarrow> u64" where
  "key_u64_from_ne bs = u64_from_ne (take 8 bs)"

definition u64_from_ne_checked :: "bytes \<Rightarrow> db_error + u64" where
  "u64_from_ne_checked bs =
     (if length bs \<noteq> 8 then Inl (DbMessage ''u64 key/value has unexpected length (corrupt index?)'') else Inr (key_u64_from_ne bs))"

definition make_key_string_u64 :: "bytes \<Rightarrow> u64 \<Rightarrow> bytes" where
  "make_key_string_u64 s n = s @ u64_to_ne n"

definition parse_key_string_u64 :: "bytes \<Rightarrow> db_error + bytes \<times> u64" where
  "parse_key_string_u64 k =
     (if length k < 8 then Inl (DbMessage ''StringUint64 key too short to parse'')
      else let at = length k - 8 in Inr (take at k, key_u64_from_ne (drop at k)))"

definition make_key_u64_u64 :: "u64 \<Rightarrow> u64 \<Rightarrow> bytes" where
  "make_key_u64_u64 n1 n2 = u64_to_ne n1 @ u64_to_ne n2"

definition parse_key_u64_u64 :: "bytes \<Rightarrow> db_error + u64 \<times> u64" where
  "parse_key_u64_u64 k =
     (if length k \<noteq> 16 then Inl (DbMessage ''Uint64Uint64 key too short/long to parse'')
      else Inr (key_u64_from_ne (slice 0 8 k), key_u64_from_ne (slice 8 16 k)))"

definition make_key_string_u64_u64 :: "bytes \<Rightarrow> u64 \<Rightarrow> u64 \<Rightarrow> bytes" where
  "make_key_string_u64_u64 s n1 n2 = s @ u64_to_ne n1 @ u64_to_ne n2"

definition parse_key_string_u64_u64 :: "bytes \<Rightarrow> db_error + bytes \<times> u64 \<times> u64" where
  "parse_key_string_u64_u64 k =
     (if length k < 16 then Inl (DbMessage ''StringUint64Uint64 key too short to parse'')
      else let at = length k - 16; r = drop at k in
        Inr (take at k, key_u64_from_ne (slice 0 8 r), key_u64_from_ne (slice 8 16 r)))"

text \<open>A comparison that the next one decides when it is equal.\<close>

definition cmp_then :: "cmp \<Rightarrow> cmp \<Rightarrow> cmp" where
  "cmp_then c d = (case c of Equal \<Rightarrow> d | _ \<Rightarrow> c)"

definition cmp_memn :: "bytes \<Rightarrow> bytes \<Rightarrow> cmp" where
  "cmp_memn a b = (let len = min (length a) (length b) in
     cmp_then (cmp_of (take len a) (take len b)) (cmp_of (length a) (length b)))"

definition cmp_string_u64 :: "bytes \<Rightarrow> bytes \<Rightarrow> cmp" where
  "cmp_string_u64 a b =
     (if \<not> 8 \<le> length a \<and> \<not> 8 \<le> length b then cmp_memn a b
      else if \<not> 8 \<le> length a then Less
      else if \<not> 8 \<le> length b then Greater
      else cmp_then (cmp_memn (take (length a - 8) a) (take (length b - 8) b))
        (cmp_of (key_u64_from_ne (drop (length a - 8) a)) (key_u64_from_ne (drop (length b - 8) b))))"

definition cmp_u64_u64 :: "bytes \<Rightarrow> bytes \<Rightarrow> cmp" where
  "cmp_u64_u64 a b =
     (if length a \<noteq> 16 \<and> length b \<noteq> 16 then cmp_memn a b
      else if length a \<noteq> 16 then Less
      else if length b \<noteq> 16 then Greater
      else cmp_then (cmp_of (key_u64_from_ne (slice 0 8 a)) (key_u64_from_ne (slice 0 8 b)))
        (cmp_of (key_u64_from_ne (slice 8 16 a)) (key_u64_from_ne (slice 8 16 b))))"

definition cmp_string_u64_u64 :: "bytes \<Rightarrow> bytes \<Rightarrow> cmp" where
  "cmp_string_u64_u64 a b =
     (if \<not> 16 \<le> length a \<and> \<not> 16 \<le> length b then cmp_memn a b
      else if \<not> 16 \<le> length a then Less
      else if \<not> 16 \<le> length b then Greater
      else cmp_then (cmp_memn (take (length a - 16) a) (take (length b - 16) b))
        (cmp_then (cmp_of (key_u64_from_ne (slice (length a - 16) (length a - 8) a)) (key_u64_from_ne (slice (length b - 16) (length b - 8) b)))
          (cmp_of (key_u64_from_ne (drop (length a - 8) a)) (key_u64_from_ne (drop (length b - 8) b)))))"

definition ord_to_c :: "cmp \<Rightarrow> int" where
  "ord_to_c c = (case c of Less \<Rightarrow> - 1 | Equal \<Rightarrow> 0 | Greater \<Rightarrow> 1)"

section \<open>What a comparator promises\<close>

definition total_cmp :: "(bytes \<Rightarrow> bytes \<Rightarrow> cmp) \<Rightarrow> bool" where
  "total_cmp c \<longleftrightarrow> (\<forall>a b. (c a b = Equal \<longleftrightarrow> a = b) \<and> ord_to_c (c b a) = - ord_to_c (c a b)) \<and>
     (\<forall>x y z. c x y = Less \<and> c y z = Less \<longrightarrow> c x z = Less)"

text \<open>A comparator that compares ranks in a linear order, different keys having different ranks.\<close>

locale ranked =
  fixes cmpr :: "bytes \<Rightarrow> bytes \<Rightarrow> cmp" and rank :: "bytes \<Rightarrow> 'r::linorder"
  assumes by_rank: "cmpr a b = cmp_of (rank a) (rank b)"
    and rank_inject: "rank a = rank b \<Longrightarrow> a = b"
begin

lemma total: "total_cmp cmpr"
  by (auto simp: total_cmp_def by_rank cmp_of_def ord_to_c_def dest: rank_inject split: if_splits)

end

lemma cmp_of_prod: "cmp_of (a, b) (c, d) = cmp_then (cmp_of a c) (cmp_of b d)"
  by (auto simp: cmp_of_def cmp_then_def less_prod_def)

lemma cmp_of_Cons: "cmp_of (x # a) (y # b) = cmp_then (cmp_of x y) (cmp_of a b)"
  by (auto simp: cmp_of_def cmp_then_def)

lemma cmp_then_assoc: "cmp_then (cmp_then c d) e = cmp_then c (cmp_then d e)"
  by (simp add: cmp_then_def split: cmp.split)

lemma cmp_of_Equal [simp]: "cmp_of x x = Equal" "cmp_then Equal c = c" "cmp_then Less c = Less" "cmp_then Greater c = Greater"
    "cmp_then c Equal = c"
  by (simp_all add: cmp_of_def cmp_then_def split: cmp.split)

text \<open>Comparing the common prefix and then the lengths is the lexicographic order.\<close>

lemma cmp_memn_lexicographic: "cmp_memn a b = cmp_of a b"
proof (induction a b rule: list_induct2')
  case (4 x a y b)
  have "cmp_of (Suc n) (Suc m) = cmp_of n m" for n m by (simp add: cmp_of_def)
  then show ?case using 4 by (simp add: cmp_memn_def Let_def cmp_of_Cons cmp_then_assoc)
qed (simp_all add: cmp_memn_def cmp_of_def cmp_then_def)

section \<open>The comparators as ranks\<close>

text \<open>The rank of a key: malformed keys first, in lexicographic order, then the others by their parts.\<close>

definition string_u64_rank :: "bytes \<Rightarrow> bool \<times> bytes \<times> u64" where
  "string_u64_rank k = (if 8 \<le> length k then (True, take (length k - 8) k, key_u64_from_ne (drop (length k - 8) k)) else (False, k, 0))"

definition u64_u64_rank :: "bytes \<Rightarrow> bool \<times> bytes \<times> u64 \<times> u64" where
  "u64_u64_rank k = (if length k = 16 then (True, [], key_u64_from_ne (slice 0 8 k), key_u64_from_ne (slice 8 16 k)) else (False, k, 0, 0))"

definition string_u64_u64_rank :: "bytes \<Rightarrow> bool \<times> bytes \<times> u64 \<times> u64" where
  "string_u64_u64_rank k =
     (if 16 \<le> length k then (True, take (length k - 16) k, key_u64_from_ne (slice (length k - 16) (length k - 8) k),
        key_u64_from_ne (drop (length k - 8) k))
      else (False, k, 0, 0))"

lemma key_u64_inject: "length a = 8 \<Longrightarrow> length b = 8 \<Longrightarrow> key_u64_from_ne a = key_u64_from_ne b \<Longrightarrow> a = b"
  using u64_to_from_ne by (metis key_u64_from_ne_def take_all order_refl)

lemma cmp_of_bool [simp]: "cmp_of False True = Less" "cmp_of True False = Greater"
  by (simp_all add: cmp_of_def)

interpretation string_u64: ranked cmp_string_u64 string_u64_rank
proof unfold_locales
  show "cmp_string_u64 a b = cmp_of (string_u64_rank a) (string_u64_rank b)" for a b
    by (simp add: cmp_string_u64_def string_u64_rank_def cmp_memn_lexicographic cmp_of_prod)
  show "a = b" if "string_u64_rank a = string_u64_rank b" for a b
  proof (cases "8 \<le> length a")
    case True
    then have e: "8 \<le> length b" "take (length a - 8) a = take (length b - 8) b" "drop (length a - 8) a = drop (length b - 8) b"
      using that by (auto simp: string_u64_rank_def intro!: key_u64_inject split: if_splits)
    then show ?thesis by (metis append_take_drop_id)
  qed (use that in \<open>auto simp: string_u64_rank_def split: if_splits\<close>)
qed

interpretation u64_u64: ranked cmp_u64_u64 u64_u64_rank
proof unfold_locales
  show "cmp_u64_u64 a b = cmp_of (u64_u64_rank a) (u64_u64_rank b)" for a b
    by (simp add: cmp_u64_u64_def u64_u64_rank_def cmp_memn_lexicographic cmp_of_prod)
  show "a = b" if "u64_u64_rank a = u64_u64_rank b" for a b
  proof (cases "length a = 16")
    case True
    then have e: "length b = 16" "slice 0 8 a = slice 0 8 b" "slice 8 16 a = slice 8 16 b"
      using that by (auto simp: u64_u64_rank_def length_slice intro!: key_u64_inject split: if_splits)
    then show ?thesis using True slice_join [of 0 8 16] slice_all by (metis le_add2 numeral_Bit0 zero_le)
  qed (use that in \<open>auto simp: u64_u64_rank_def split: if_splits\<close>)
qed

interpretation string_u64_u64: ranked cmp_string_u64_u64 string_u64_u64_rank
proof unfold_locales
  show "cmp_string_u64_u64 a b = cmp_of (string_u64_u64_rank a) (string_u64_u64_rank b)" for a b
    by (simp add: cmp_string_u64_u64_def string_u64_u64_rank_def cmp_memn_lexicographic cmp_of_prod)
  show "a = b" if "string_u64_u64_rank a = string_u64_u64_rank b" for a b
  proof (cases "16 \<le> length a")
    case True
    then have e: "16 \<le> length b" "take (length a - 16) a = take (length b - 16) b" "drop (length a - 8) a = drop (length b - 8) b"
      "slice (length a - 16) (length a - 8) a = slice (length b - 16) (length b - 8) b"
      using that by (auto simp: string_u64_u64_rank_def length_slice intro!: key_u64_inject split: if_splits)
    have parts: "k = take (length k - 16) k @ slice (length k - 16) (length k - 8) k @ drop (length k - 8) k" if "16 \<le> length k" for k :: bytes
    proof -
      have "length k - 8 - (length k - 16) = 8" "8 + (length k - 16) = length k - 8" using that by arith+
      then show ?thesis using append_take_drop_id [of "length k - 16" k] append_take_drop_id [of 8 "drop (length k - 16) k"]
        by (simp add: slice_def)
    qed
    then show ?thesis using e True by metis
  qed (use that in \<open>auto simp: string_u64_u64_rank_def split: if_splits\<close>)
qed

section \<open>Properties\<close>

lemma key_u64_to_ne [simp]: "key_u64_from_ne (u64_to_ne n) = n"
  by (simp add: key_u64_from_ne_def)

lemma parse_made_keys:
  "parse_key_string_u64 (make_key_string_u64 s n) = Inr (s, n)"
  "parse_key_u64_u64 (make_key_u64_u64 n m) = Inr (n, m)"
  "parse_key_string_u64_u64 (make_key_string_u64_u64 s n m) = Inr (s, n, m)"
  by (simp_all add: parse_key_string_u64_def make_key_string_u64_def parse_key_u64_u64_def make_key_u64_u64_def
      parse_key_string_u64_u64_def make_key_string_u64_u64_def Let_def slice_def)

lemma made_key_ranks:
  "string_u64_rank (make_key_string_u64 s n) = (True, s, n)"
  "u64_u64_rank (make_key_u64_u64 n m) = (True, [], n, m)"
  "string_u64_u64_rank (make_key_string_u64_u64 s n m) = (True, s, n, m)"
  by (simp_all add: string_u64_rank_def make_key_string_u64_def u64_u64_rank_def make_key_u64_u64_def
      string_u64_u64_rank_def make_key_string_u64_u64_def slice_def)

text \<open>C17: each of the three key comparators is a total order on all byte strings, malformed keys included (equal only on
  equal bytes, antisymmetric, transitive), and on keys built by the \<open>make_key\<close> functions it is the order by string, compared
  byte by byte with a prefix first, and then by the integers as numbers.\<close>

theorem key_comparators_order:
  "total_cmp cmp_string_u64 \<and> total_cmp cmp_u64_u64 \<and> total_cmp cmp_string_u64_u64 \<and>
   cmp_string_u64 (make_key_string_u64 s n) (make_key_string_u64 t m) = cmp_of (s, n) (t, m) \<and>
   cmp_u64_u64 (make_key_u64_u64 n n') (make_key_u64_u64 m m') = cmp_of (n, n') (m, m') \<and>
   cmp_string_u64_u64 (make_key_string_u64_u64 s n n') (make_key_string_u64_u64 t m m') = cmp_of (s, n, n') (t, m, m')"
  by (simp add: string_u64.total u64_u64.total string_u64_u64.total string_u64.by_rank u64_u64.by_rank string_u64_u64.by_rank
      made_key_ranks cmp_of_prod)

end
