(* ===== verification/Query_Pending.thy ===== *)
theory Query_Pending
  imports Wok_Prelude "HOL-Library.Sublist"
begin

text \<open>
  The bounded buffer of \<open>wok-query/src/pending.rs\<close>, which holds live matches while a
  subscription's history is sent. Removing from an empty queue, where the source panics, is
  \<^term>\<open>None\<close>.
\<close>

definition STORED_ENTRY_BYTES :: nat where "STORED_ENTRY_BYTES = 16"

definition EPHEMERAL_ENTRY_OVERHEAD :: nat where "EPHEMERAL_ENTRY_OVERHEAD = 64"

record held_event =
  he_packed :: bytes
  he_json :: bytes

datatype pending_event = Stored u64 | Ephemeral held_event

definition pe_cost :: "pending_event \<Rightarrow> nat" where
  "pe_cost e = (case e of Stored _ \<Rightarrow> STORED_ENTRY_BYTES
     | Ephemeral h \<Rightarrow> usize_sat_add (length (he_packed h) + length (he_json h)) EPHEMERAL_ENTRY_OVERHEAD)"

definition is_stored :: "pending_event \<Rightarrow> bool" where
  "is_stored e = (case e of Stored _ \<Rightarrow> True | Ephemeral _ \<Rightarrow> False)"

record pending_buffer =
  pb_events :: "pending_event list"
  pb_bytes :: nat
  pb_stored :: nat
  pb_limit :: nat
  pb_live_from :: u64
  pb_stored_overflowed :: bool

definition pending_new :: "u64 \<Rightarrow> nat \<Rightarrow> pending_buffer" where
  "pending_new live_from limit = \<lparr> pb_events = [], pb_bytes = 0, pb_stored = 0, pb_limit = limit,
     pb_live_from = live_from, pb_stored_overflowed = False \<rparr>"

definition pb_fits :: "pending_buffer \<Rightarrow> nat \<Rightarrow> bool" where
  "pb_fits b cost \<longleftrightarrow> pb_limit b = 0 \<or> usize_sat_add (pb_bytes b) cost \<le> pb_limit b"

definition pb_push :: "pending_buffer \<Rightarrow> pending_event \<Rightarrow> pending_buffer" where
  "pb_push b e = b\<lparr> pb_bytes := pb_bytes b + pe_cost e, pb_stored := pb_stored b + (if is_stored e then 1 else 0),
     pb_events := pb_events b @ [e] \<rparr>"

definition pb_drop_stored :: "pending_buffer \<Rightarrow> pending_buffer" where
  "pb_drop_stored b = b\<lparr> pb_stored_overflowed := True, pb_events := filter (\<lambda>e. \<not> is_stored e) (pb_events b),
     pb_bytes := pb_bytes b - pb_stored b * STORED_ENTRY_BYTES, pb_stored := 0 \<rparr>"

definition push_stored :: "pending_buffer \<Rightarrow> u64 \<Rightarrow> pending_buffer \<times> bool" where
  "push_stored b lev_id =
     (if pb_stored_overflowed b then (b, False)
      else let event = Stored lev_id in
        if pb_fits b (pe_cost event) then (pb_push b event, False) else (pb_drop_stored b, True))"

fun make_room :: "pending_event list \<Rightarrow> pending_buffer \<Rightarrow> nat \<Rightarrow> nat \<Rightarrow> (pending_buffer \<times> nat) option" where
  "make_room [] b cost dropped = (if pb_fits b cost then Some (b, dropped) else None)"
| "make_room (oldest # rest) b cost dropped =
     (if pb_fits b cost then Some (b, dropped)
      else make_room rest (b\<lparr> pb_events := rest, pb_bytes := pb_bytes b - pe_cost oldest \<rparr>) cost (dropped + 1))"

definition push_ephemeral :: "pending_buffer \<Rightarrow> held_event \<Rightarrow> (pending_buffer \<times> nat \<times> bool) option" where
  "push_ephemeral b held =
     (let event = Ephemeral held; cost = pe_cost event in
      if pb_limit b \<noteq> 0 \<and> pb_limit b < cost then Some (b, 1, False)
      else let overflowed = \<not> pb_fits b cost \<and> pb_stored b \<noteq> 0;
               b1 = if overflowed then pb_drop_stored b else b in
        map_option (\<lambda>(b2, dropped). (pb_push b2 event, dropped, overflowed)) (make_room (pb_events b1) b1 cost 0))"

section \<open>Runs\<close>

datatype pending_op = PushStored u64 | PushEphemeral held_event

text \<open>A run counts the ephemeral events dropped and the reports that stored events overflowed.\<close>

definition pending_step :: "pending_buffer \<times> nat \<times> nat \<Rightarrow> pending_op \<Rightarrow> (pending_buffer \<times> nat \<times> nat) option" where
  "pending_step = (\<lambda>(b, d, r) op. case op of
     PushStored n \<Rightarrow> (case push_stored b n of (b', o') \<Rightarrow> Some (b', d, r + (if o' then 1 else 0)))
   | PushEphemeral h \<Rightarrow> map_option (\<lambda>(b', k, o'). (b', d + k, r + (if o' then 1 else 0))) (push_ephemeral b h))"

fun pending_run :: "pending_buffer \<times> nat \<times> nat \<Rightarrow> pending_op list \<Rightarrow> (pending_buffer \<times> nat \<times> nat) option" where
  "pending_run s [] = Some s"
| "pending_run s (op # ops) = Option.bind (pending_step s op) (\<lambda>s'. pending_run s' ops)"

section \<open>The invariant\<close>

text \<open>The byte and stored counters are those of the queue, a bounded buffer is within its limit, and
  nothing stored stays once stored events overflowed. A limit of \<open>usize::MAX\<close>, at which the saturating
  test always passes, is left out.\<close>

definition pb_ok :: "pending_buffer \<Rightarrow> bool" where
  "pb_ok b \<longleftrightarrow> pb_bytes b = sum_list (map pe_cost (pb_events b)) \<and>
     pb_stored b = length (filter is_stored (pb_events b)) \<and>
     (pb_limit b \<noteq> 0 \<longrightarrow> pb_bytes b \<le> pb_limit b) \<and> pb_limit b < usize_max \<and>
     (pb_stored_overflowed b \<longrightarrow> pb_stored b = 0)"

definition stored_ids :: "pending_event list \<Rightarrow> u64 list" where
  "stored_ids es = List.map_filter (\<lambda>e. case e of Stored n \<Rightarrow> Some n | Ephemeral _ \<Rightarrow> None) es"

definition ephemerals :: "pending_event list \<Rightarrow> held_event list" where
  "ephemerals es = List.map_filter (\<lambda>e. case e of Stored _ \<Rightarrow> None | Ephemeral h \<Rightarrow> Some h) es"

lemma views_simps [simp]:
  "stored_ids [] = []" "stored_ids (Stored n # es) = n # stored_ids es" "stored_ids (Ephemeral h # es) = stored_ids es"
  "ephemerals [] = []" "ephemerals (Stored n # es) = ephemerals es" "ephemerals (Ephemeral h # es) = h # ephemerals es"
  "stored_ids (es @ fs) = stored_ids es @ stored_ids fs" "ephemerals (es @ fs) = ephemerals es @ ephemerals fs"
  by (simp_all add: stored_ids_def ephemerals_def List.map_filter_def)

lemma is_stored_simps [simp]: "is_stored (Stored n)" "\<not> is_stored (Ephemeral h)"
  by (simp_all add: is_stored_def)

lemma filter_not_stored:
  "stored_ids (filter (\<lambda>e. \<not> is_stored e) es) = []" "ephemerals (filter (\<lambda>e. \<not> is_stored e) es) = ephemerals es"
  "filter is_stored (filter (\<lambda>e. \<not> is_stored e) es) = []"
  "sum_list (map pe_cost es) = length (filter is_stored es) * STORED_ENTRY_BYTES + sum_list (map pe_cost (filter (\<lambda>e. \<not> is_stored e) es))"
proof (induction es)
  case (Cons e es)
  {
    case 1 then show ?case using Cons(1) by (cases e) simp_all
  next
    case 2 then show ?case using Cons(2) by (cases e) simp_all
  next
    case 3 then show ?case using Cons(3) by (cases e) simp_all
  next
    case 4 then show ?case using Cons(4) by (cases e) (simp_all add: pe_cost_def)
  }
qed simp_all

lemma pb_ok_new: "limit < usize_max \<Longrightarrow> pb_ok (pending_new live_from limit)"
  by (simp add: pb_ok_def pending_new_def)

lemma pb_fits_ok: "pb_ok b \<Longrightarrow> pb_fits b cost \<longleftrightarrow> pb_limit b = 0 \<or> pb_bytes b + cost \<le> pb_limit b"
  by (auto simp: pb_ok_def pb_fits_def usize_sat_add_def min_def)

lemma pb_ok_push:
  "pb_ok b \<Longrightarrow> pb_fits b (pe_cost e) \<Longrightarrow> (is_stored e \<Longrightarrow> \<not> pb_stored_overflowed b) \<Longrightarrow> pb_ok (pb_push b e)"
  by (auto simp: pb_fits_ok) (auto simp: pb_ok_def pb_push_def)

lemma pb_ok_drop_stored: "pb_ok b \<Longrightarrow> pb_ok (pb_drop_stored b)"
  using filter_not_stored(3,4) [of "pb_events b"] by (auto simp: pb_ok_def pb_drop_stored_def)

lemma make_room_ok:
  assumes "pb_ok b" "pb_stored b = 0" "pb_limit b = 0 \<or> cost \<le> pb_limit b" "pb_events b = es"
  shows "\<exists>b' k. make_room es b cost d = Some (b', d + k) \<and> pb_ok b' \<and> pb_fits b' cost \<and> pb_stored b' = 0 \<and>
    pb_events b' = drop k es \<and> k \<le> length es \<and> pb_limit b' = pb_limit b \<and> pb_stored_overflowed b' = pb_stored_overflowed b"
  using assms
proof (induction es arbitrary: b d)
  case Nil
  then have "pb_bytes b = 0" by (simp add: pb_ok_def)
  then have "pb_fits b cost" using Nil by (auto simp: pb_fits_ok)
  then show ?case using Nil by (intro exI [of _ b] exI [of _ 0]) simp
next
  case (Cons e es)
  show ?case
  proof (cases "pb_fits b cost")
    case True
    then show ?thesis using Cons.prems by (intro exI [of _ b] exI [of _ 0]) simp
  next
    case False
    define b1 where "b1 = b\<lparr> pb_events := es, pb_bytes := pb_bytes b - pe_cost e \<rparr>"
    have e: "\<not> is_stored e" using Cons.prems by (auto simp: pb_ok_def)
    have "pb_ok b1" "pb_stored b1 = 0" using Cons.prems e by (auto simp: b1_def pb_ok_def)
    then obtain b' k where "make_room es b1 cost (d + 1) = Some (b', d + 1 + k) \<and> pb_ok b' \<and> pb_fits b' cost \<and> pb_stored b' = 0 \<and>
        pb_events b' = drop k es \<and> k \<le> length es \<and> pb_limit b' = pb_limit b1 \<and> pb_stored_overflowed b' = pb_stored_overflowed b1"
      using Cons.IH [of b1 "d + 1"] Cons.prems(3) by (auto simp: b1_def)
    then show ?thesis using False by (intro exI [of _ b'] exI [of _ "Suc k"]) (simp add: b1_def)
  qed
qed

lemma drop_not_stored:
  "filter is_stored es = [] \<Longrightarrow> ephemerals (drop k es) = drop k (ephemerals es) \<and> length (ephemerals es) = length es \<and> stored_ids es = []"
proof (induction es arbitrary: k)
  case (Cons e es)
  then show ?case by (cases e; cases k) simp_all
qed simp

text \<open>What the buffer holds against what was pushed.\<close>

definition pushed_ids :: "pending_op list \<Rightarrow> u64 list" where
  "pushed_ids ops = List.map_filter (\<lambda>p. case p of PushStored n \<Rightarrow> Some n | PushEphemeral _ \<Rightarrow> None) ops"

definition pushed_held :: "pending_op list \<Rightarrow> held_event list" where
  "pushed_held ops = List.map_filter (\<lambda>p. case p of PushStored _ \<Rightarrow> None | PushEphemeral h \<Rightarrow> Some h) ops"

definition fits_limit :: "nat \<Rightarrow> held_event \<Rightarrow> bool" where
  "fits_limit limit h \<longleftrightarrow> limit = 0 \<or> pe_cost (Ephemeral h) \<le> limit"

lemma pushed_simps [simp]:
  "pushed_ids (ops @ [PushStored n]) = pushed_ids ops @ [n]" "pushed_ids (ops @ [PushEphemeral h]) = pushed_ids ops"
  "pushed_held (ops @ [PushStored n]) = pushed_held ops" "pushed_held (ops @ [PushEphemeral h]) = pushed_held ops @ [h]"
  "pushed_ids [] = []" "pushed_held [] = []"
  by (simp_all add: pushed_ids_def pushed_held_def List.map_filter_def)

definition accounts :: "nat \<Rightarrow> pending_op list \<Rightarrow> pending_buffer \<times> nat \<times> nat \<Rightarrow> bool" where
  "accounts limit ops = (\<lambda>(b, d, r). pb_ok b \<and> pb_limit b = limit \<and> r = (if pb_stored_overflowed b then 1 else 0) \<and>
     stored_ids (pb_events b) = (if pb_stored_overflowed b then [] else pushed_ids ops) \<and>
     (\<exists>gone. filter (fits_limit limit) (pushed_held ops) = gone @ ephemerals (pb_events b) \<and>
       d = length gone + length (filter (\<lambda>h. \<not> fits_limit limit h) (pushed_held ops))))"

lemma accounts_stored:
  assumes "accounts limit ops (b, d, r)"
  shows "\<exists>s'. pending_step (b, d, r) (PushStored n) = Some s' \<and> accounts limit (ops @ [PushStored n]) s'"
proof -
  obtain gone where A: "pb_ok b" "pb_limit b = limit" "r = (if pb_stored_overflowed b then 1 else 0)"
      "stored_ids (pb_events b) = (if pb_stored_overflowed b then [] else pushed_ids ops)"
      "filter (fits_limit limit) (pushed_held ops) = gone @ ephemerals (pb_events b)"
      "d = length gone + length (filter (\<lambda>h. \<not> fits_limit limit h) (pushed_held ops))"
    using assms by (auto simp: accounts_def)
  consider (over) "pb_stored_overflowed b" | (fit) "\<not> pb_stored_overflowed b" "pb_fits b (pe_cost (Stored n))"
    | (full) "\<not> pb_stored_overflowed b" "\<not> pb_fits b (pe_cost (Stored n))" by blast
  then show ?thesis
  proof cases
    case over
    then have "pending_step (b, d, r) (PushStored n) = Some (b, d, r)" by (simp add: pending_step_def push_stored_def)
    moreover have "accounts limit (ops @ [PushStored n]) (b, d, r)" using A over by (simp add: accounts_def)
    ultimately show ?thesis by blast
  next
    case fit
    then have "pending_step (b, d, r) (PushStored n) = Some (pb_push b (Stored n), d, r)"
      by (simp add: pending_step_def push_stored_def Let_def)
    moreover have "pb_ok (pb_push b (Stored n))" by (rule pb_ok_push) (use fit A(1) in simp_all)
    then have "accounts limit (ops @ [PushStored n]) (pb_push b (Stored n), d, r)"
      using A fit by (simp add: accounts_def) (simp add: pb_push_def)
    ultimately show ?thesis by blast
  next
    case full
    then have "pending_step (b, d, r) (PushStored n) = Some (pb_drop_stored b, d, r + 1)"
      by (simp add: pending_step_def push_stored_def Let_def)
    moreover have "accounts limit (ops @ [PushStored n]) (pb_drop_stored b, d, r + 1)"
      using A full(1) pb_ok_drop_stored [OF A(1)] filter_not_stored(1,2) [of "pb_events b"]
      by (simp add: accounts_def) (simp add: pb_drop_stored_def)
    ultimately show ?thesis by blast
  qed
qed

text \<open>When the event does not fit as it is, stored events give way, then the oldest ephemeral ones.\<close>

lemma accounts_full:
  assumes "accounts limit ops (b, d, r)" "fits_limit limit h" "\<not> pb_fits b (pe_cost (Ephemeral h))"
  shows "\<exists>s'. pending_step (b, d, r) (PushEphemeral h) = Some s' \<and> accounts limit (ops @ [PushEphemeral h]) s'"
proof -
  let ?c = "pe_cost (Ephemeral h)"
  obtain gone where A: "pb_ok b" "pb_limit b = limit" "r = (if pb_stored_overflowed b then 1 else 0)"
      "stored_ids (pb_events b) = (if pb_stored_overflowed b then [] else pushed_ids ops)"
      "filter (fits_limit limit) (pushed_held ops) = gone @ ephemerals (pb_events b)"
      "d = length gone + length (filter (\<lambda>h. \<not> fits_limit limit h) (pushed_held ops))"
    using assms(1) by (auto simp: accounts_def)
  define b1 where "b1 = (if pb_stored b \<noteq> 0 then pb_drop_stored b else b)"
  have b1: "pb_ok b1" "pb_stored b1 = 0" "pb_limit b1 = limit" "ephemerals (pb_events b1) = ephemerals (pb_events b)"
      "pb_stored_overflowed b1 \<longleftrightarrow> pb_stored_overflowed b \<or> pb_stored b \<noteq> 0" "stored_ids (pb_events b1) = []"
  proof -
    have none: "stored_ids (pb_events b) = []" if "pb_stored b = 0"
      using that A(1) drop_not_stored [of "pb_events b" 0] by (simp add: pb_ok_def)
    show "pb_ok b1" using A(1) pb_ok_drop_stored [OF A(1)] by (simp add: b1_def)
    show "pb_stored b1 = 0" "pb_limit b1 = limit" "pb_stored_overflowed b1 \<longleftrightarrow> pb_stored_overflowed b \<or> pb_stored b \<noteq> 0"
      "ephemerals (pb_events b1) = ephemerals (pb_events b)" "stored_ids (pb_events b1) = []"
      using A(2) none filter_not_stored(1,2) [of "pb_events b"] by (simp_all add: b1_def pb_drop_stored_def)
  qed
  obtain b2 k where m: "make_room (pb_events b1) b1 ?c 0 = Some (b2, k)" "pb_ok b2" "pb_fits b2 ?c" "pb_stored b2 = 0"
      "pb_events b2 = drop k (pb_events b1)" "pb_limit b2 = limit" "pb_stored_overflowed b2 = pb_stored_overflowed b1" "k \<le> length (pb_events b1)"
    using make_room_ok [OF b1(1,2), of ?c "pb_events b1" 0] assms(2) b1(3) by (auto simp: fits_limit_def)
  have "filter is_stored (pb_events b1) = []" using b1(1,2) by (simp add: pb_ok_def)
  then have e: "ephemerals (pb_events b2) = drop k (ephemerals (pb_events b))" "k \<le> length (ephemerals (pb_events b))"
      "stored_ids (pb_events b2) = []"
  proof -
    have "filter is_stored (pb_events b2) = []" using m(2,4) by (simp add: pb_ok_def)
    then show "stored_ids (pb_events b2) = []" using drop_not_stored by blast
  qed (use drop_not_stored [of "pb_events b1" k] \<open>filter is_stored (pb_events b1) = []\<close> m(5,8) b1(4) in simp_all)
  have st: "pushed_ids ops = []" if "\<not> pb_stored_overflowed b" "pb_stored b = 0"
    using that A(1,4) drop_not_stored [of "pb_events b" 0] by (auto simp: pb_ok_def)
  have b1': "(if \<not> pb_fits b ?c \<and> pb_stored b \<noteq> 0 then pb_drop_stored b else b) = b1" using assms(3) by (simp add: b1_def)
  have "\<not> (pb_limit b \<noteq> 0 \<and> pb_limit b < ?c)" using assms(2) A(2) by (auto simp: fits_limit_def)
  then have "push_ephemeral b h = Some (pb_push b2 (Ephemeral h), k, pb_stored b \<noteq> 0)"
    unfolding push_ephemeral_def Let_def b1' m(1) using assms(3) by auto
  then have "pending_step (b, d, r) (PushEphemeral h) =
      Some (pb_push b2 (Ephemeral h), d + k, r + (if pb_stored b \<noteq> 0 then 1 else 0))"
    by (simp add: pending_step_def)
  moreover have "accounts limit (ops @ [PushEphemeral h]) (pb_push b2 (Ephemeral h), d + k, r + (if pb_stored b \<noteq> 0 then 1 else 0))"
  proof -
    have "pb_ok (pb_push b2 (Ephemeral h))" by (rule pb_ok_push) (use m(2,3) in simp_all)
    moreover have "pb_stored_overflowed b \<Longrightarrow> pb_stored b = 0" using A(1) unfolding pb_ok_def by blast
    moreover have "filter (fits_limit limit) (pushed_held (ops @ [PushEphemeral h])) =
        (gone @ take k (ephemerals (pb_events b))) @ ephemerals (pb_events (pb_push b2 (Ephemeral h)))"
      using assms(2) A(5) e(1) by (simp add: pb_push_def)
    ultimately show ?thesis using A(3,6) e m(6,7) b1(5) assms(2) st unfolding accounts_def prod.case
      by (intro conjI exI [of _ "gone @ take k (ephemerals (pb_events b))"]) (auto simp: pb_push_def)
  qed
  ultimately show ?thesis by blast
qed

lemma accounts_ephemeral:
  assumes "accounts limit ops (b, d, r)"
  shows "\<exists>s'. pending_step (b, d, r) (PushEphemeral h) = Some s' \<and> accounts limit (ops @ [PushEphemeral h]) s'"
proof -
  obtain gone where A: "pb_ok b" "pb_limit b = limit" "r = (if pb_stored_overflowed b then 1 else 0)"
      "stored_ids (pb_events b) = (if pb_stored_overflowed b then [] else pushed_ids ops)"
      "filter (fits_limit limit) (pushed_held ops) = gone @ ephemerals (pb_events b)"
      "d = length gone + length (filter (\<lambda>h. \<not> fits_limit limit h) (pushed_held ops))"
    using assms by (auto simp: accounts_def)
  let ?c = "pe_cost (Ephemeral h)"
  consider (big) "\<not> fits_limit limit h" | (fit) "fits_limit limit h" "pb_fits b ?c" | (full) "fits_limit limit h" "\<not> pb_fits b ?c"
    by blast
  then show ?thesis
  proof cases
    case big
    then have "pending_step (b, d, r) (PushEphemeral h) = Some (b, d + 1, r)"
      using A(2) by (simp add: pending_step_def push_ephemeral_def fits_limit_def Let_def)
    moreover have "accounts limit (ops @ [PushEphemeral h]) (b, d + 1, r)" using A big by (simp add: accounts_def)
    ultimately show ?thesis by blast
  next
    case fit
    have "make_room (pb_events b) b ?c 0 = Some (b, 0)" using fit(2) by (cases "pb_events b") simp_all
    then have "pending_step (b, d, r) (PushEphemeral h) = Some (pb_push b (Ephemeral h), d, r)"
      using fit A(2) by (auto simp: pending_step_def push_ephemeral_def fits_limit_def Let_def)
    moreover have "pb_ok (pb_push b (Ephemeral h))" by (rule pb_ok_push) (use fit A(1) in simp_all)
    then have "accounts limit (ops @ [PushEphemeral h]) (pb_push b (Ephemeral h), d, r)"
      using A fit by (simp add: accounts_def) (simp add: pb_push_def)
    ultimately show ?thesis by blast
  next
    case full
    then show ?thesis using accounts_full [OF assms] by blast
  qed
qed

lemma pending_run_accounts:
  "accounts limit pre s \<Longrightarrow> \<exists>s'. pending_run s ops = Some s' \<and> accounts limit (pre @ ops) s'"
proof (induction ops arbitrary: pre s)
  case (Cons op ops)
  obtain b d r where s: "s = (b, d, r)" by (metis prod_cases3)
  have "\<exists>s1. pending_step s op = Some s1 \<and> accounts limit (pre @ [op]) s1"
    using accounts_stored [of limit pre b d r] accounts_ephemeral [of limit pre b d r] Cons.prems unfolding s by (cases op) blast+
  then obtain s1 where "pending_step s op = Some s1" "accounts limit (pre @ [op]) s1" by blast
  with Cons.IH [of "pre @ [op]" s1] show ?case by auto
qed auto

section \<open>Properties\<close>

text \<open>C37: no sequence of matches breaks the buffer: it never removes from an empty queue, its byte count
  is that of its events and within a set limit, it reports at most once that stored events overflowed,
  until then it holds every stored match in order and afterwards none, and the ephemeral events it holds
  are the newest of those that fit the limit at all, the dropped ones counted.\<close>

theorem pending_buffer_accounts:
  assumes "limit < usize_max"
  shows "\<exists>b dropped reports. pending_run (pending_new live_from limit, 0, 0) ops = Some (b, dropped, reports) \<and>
    pb_bytes b = sum_list (map pe_cost (pb_events b)) \<and> (limit \<noteq> 0 \<longrightarrow> pb_bytes b \<le> limit) \<and>
    reports = (if pb_stored_overflowed b then 1 else 0) \<and>
    stored_ids (pb_events b) = (if pb_stored_overflowed b then [] else pushed_ids ops) \<and>
    suffix (ephemerals (pb_events b)) (filter (fits_limit limit) (pushed_held ops)) \<and>
    dropped + length (ephemerals (pb_events b)) = length (pushed_held ops)"
proof -
  have "accounts limit [] (pending_new live_from limit, 0, 0)"
    using pb_ok_new [OF assms, of live_from] by (simp add: accounts_def pending_new_def)
  then obtain s where s: "pending_run (pending_new live_from limit, 0, 0) ops = Some s" "accounts limit ops s"
    using pending_run_accounts [of limit "[]" _ ops] by fastforce
  obtain b d r where b: "s = (b, d, r)" by (metis prod_cases3)
  have "length (filter (fits_limit limit) hs) + length (filter (\<lambda>h. \<not> fits_limit limit h) hs) = length hs" for hs
    by (rule sum_length_filter_compl)
  then have len: "length (filter (fits_limit limit) (pushed_held ops)) + length (filter (\<lambda>h. \<not> fits_limit limit h) (pushed_held ops)) =
      length (pushed_held ops)" by blast
  obtain gone where A: "pb_ok b" "pb_limit b = limit" "r = (if pb_stored_overflowed b then 1 else 0)"
      "stored_ids (pb_events b) = (if pb_stored_overflowed b then [] else pushed_ids ops)"
      "filter (fits_limit limit) (pushed_held ops) = gone @ ephemerals (pb_events b)"
      "d = length gone + length (filter (\<lambda>h. \<not> fits_limit limit h) (pushed_held ops))"
    using s(2) by (auto simp: b accounts_def)
  have "d + length (ephemerals (pb_events b)) = length (pushed_held ops)" using len A(5,6) by simp
  then show ?thesis using s(1) A by (auto simp: b pb_ok_def suffix_def)
qed

theorem pending_buffer_accounts_witness:
  "\<exists>b. pending_run (pending_new 7 100, 0, 0)
      [PushStored 8, PushEphemeral \<lparr> he_packed = [1], he_json = [2] \<rparr>, PushEphemeral \<lparr> he_packed = [3], he_json = [4] \<rparr>] = Some (b, 1, 1) \<and>
    pb_bytes b \<le> 100"
proof -
  let ?ops = "[PushStored 8, PushEphemeral \<lparr> he_packed = [1], he_json = [2] \<rparr>, PushEphemeral \<lparr> he_packed = [3], he_json = [4] \<rparr>]"
  obtain b d r where b: "pending_run (pending_new 7 100, 0, 0) ?ops = Some (b, d, r)" "pb_bytes b \<le> 100"
    using pending_buffer_accounts [of 100 7 ?ops] by (auto simp: usize_max_def)
  have "d = 1 \<and> r = 1"
    using b(1) by (simp add: pending_step_def push_stored_def push_ephemeral_def pending_new_def pb_fits_def pb_push_def pb_drop_stored_def
        pe_cost_def usize_sat_add_def usize_max_def STORED_ENTRY_BYTES_def EPHEMERAL_ENTRY_OVERHEAD_def Let_def)
  with b show ?thesis by blast
qed

end
