(* ===== verification/Query_Filter.thy ===== *)
theory Query_Filter
  imports Event_Parse Db_Search
begin

text \<open>
  Subscription ids and filters: \<open>wok-query/src/subid.rs\<close> and \<open>wok-query/src/filter.rs\<close>. A filter is
  compiled from JSON to sorted sets of values and matched against packed events. A tag letter is its
  ASCII byte. A \<open>HashSet\<close> that is only asked for membership is a list.
\<close>

section \<open>Errors and subscription ids\<close>

datatype filter_limit = TagsPerFilter | AndEntries | KindsPerFilter | AllowedKinds | AuthorOrTag | ScopedFilters

datatype query_error = QMessage string | QUnsupported string | QLimit filter_limit string

definition q_broken_limit :: "query_error \<Rightarrow> filter_limit option" where
  "q_broken_limit e = (case e of QLimit l _ \<Rightarrow> Some l | QMessage _ \<Rightarrow> None | QUnsupported _ \<Rightarrow> None)"

definition reason_prefix :: "query_error \<Rightarrow> string" where
  "reason_prefix e = (case e of QMessage _ \<Rightarrow> ''invalid'' | QLimit _ _ \<Rightarrow> ''invalid'' | QUnsupported _ \<Rightarrow> ''unsupported'')"

text \<open>The \<open>Display\<close> text of an error.\<close>

definition query_error_text :: "query_error \<Rightarrow> string" where
  "query_error_text e = (case e of QMessage m \<Rightarrow> m | QUnsupported m \<Rightarrow> m | QLimit _ m \<Rightarrow> m)"

definition event_error_text :: "event_error \<Rightarrow> string" where
  "event_error_text e = (case e of Message (Text m) \<Rightarrow> m | Message (At_byte m _) \<Rightarrow> m | Restricted m \<Rightarrow> m | Limit _ m \<Rightarrow> m)"

definition db_error_text :: "db_error \<Rightarrow> string" where
  "db_error_text e = (case e of DbLmdb _ m \<Rightarrow> m | DbMessage m \<Rightarrow> m | DbEvent e \<Rightarrow> event_error_text e)"

definition map_err :: "('e \<Rightarrow> 'f) \<Rightarrow> 'e + 'a \<Rightarrow> 'f + 'a" where
  "map_err f r = (case r of Inl e \<Rightarrow> Inl (f e) | Inr x \<Rightarrow> Inr x)"

definition MAX_SUBID_CHARS :: nat where "MAX_SUBID_CHARS = 64"

definition sub_id_new :: "bytes \<Rightarrow> query_error + bytes" where
  "sub_id_new val =
     (if val = [] \<or> MAX_SUBID_CHARS < length (chars val) then Inl (QMessage ''invalid subscription id length'')
      else Inr val)"

section \<open>Sets of values\<close>

definition DEFAULT_MAX_AND_ENTRIES :: nat where "DEFAULT_MAX_AND_ENTRIES = 16"

record filter_set_bytes =
  fs_items :: "bytes list"
  fs_originals :: "(bytes \<times> bytes) list"

definition fsb_item :: "ext \<Rightarrow> bool \<Rightarrow> nat \<Rightarrow> nat \<Rightarrow> bytes list \<times> (bytes \<times> bytes) list \<Rightarrow> value \<Rightarrow>
    query_error + bytes list \<times> (bytes \<times> bytes) list" where
  "fsb_item X hexd min_size max_size st i =
     (case st of (items, originals) \<Rightarrow>
      rbind (ok_or (QMessage ''filter item not a string'') (as_str i)) (\<lambda>s.
      rbind (if hexd then map_err (\<lambda>e. QMessage (event_error_text e)) (from_lower_hex_exact X s) else Inr s) (\<lambda>b.
      if length b < min_size then Inl (QMessage ''filter item too small'')
      else if max_size < length b then Inl (QMessage ''filter item too large'')
      else if MAX_INDEXED_TAG_VAL_SIZE < length b then
        (let hashed = indexed_tag_value X b in Inr (items @ [hashed], btree_insert hashed b originals))
      else Inr (items @ [b], originals))))"

definition fs_original_of :: "(bytes \<times> bytes) list \<Rightarrow> bytes \<Rightarrow> bytes" where
  "fs_original_of originals item = (case map_of originals item of Some b \<Rightarrow> b | None \<Rightarrow> item)"

definition fsb_parse :: "ext \<Rightarrow> value \<Rightarrow> bool \<Rightarrow> nat \<Rightarrow> nat \<Rightarrow> query_error + filter_set_bytes" where
  "fsb_parse X v hexd min_size max_size =
     rbind (ok_or (QMessage ''not an array'') (as_array v)) (\<lambda>arr.
     rbind (try_fold (fsb_item X hexd min_size max_size) ([], []) arr) (\<lambda>(raw, originals).
     let items = remdups_adj (sort raw);
         total = sum_list (map (\<lambda>item. length (fs_original_of originals item)) items) in
     if 65535 < total then Inl (QMessage ''total filter items too large'')
     else Inr \<lparr> fs_items = items, fs_originals = originals \<rparr>))"

definition parse_tag_values :: "ext \<Rightarrow> value \<Rightarrow> query_error + filter_set_bytes" where
  "parse_tag_values X v = fsb_parse X v False 0 usize_max"

definition fs_original :: "filter_set_bytes \<Rightarrow> nat \<Rightarrow> bytes" where
  "fs_original fs n = fs_original_of (fs_originals fs) (fs_items fs ! n)"

definition fs_size :: "filter_set_bytes \<Rightarrow> nat" where
  "fs_size fs = length (fs_items fs)"

definition fs_match :: "filter_set_bytes \<Rightarrow> bytes \<Rightarrow> bool" where
  "fs_match fs candidate = is_ok (binary_search (fs_items fs) candidate)"

definition fs_remove_all :: "filter_set_bytes \<Rightarrow> filter_set_bytes \<Rightarrow> filter_set_bytes" where
  "fs_remove_all fs excluded =
     fs \<lparr> fs_items := filter (\<lambda>item. \<not> fs_match excluded item) (fs_items fs),
          fs_originals := filter (\<lambda>(item, _). \<not> fs_match excluded item) (fs_originals fs) \<rparr>"

record filter_set_uint =
  fu_items :: "u64 list"

definition fsu_item :: "u64 list \<Rightarrow> value \<Rightarrow> query_error + u64 list" where
  "fsu_item items i =
     rbind (ok_or (QMessage ''kind not an unsigned integer'') (as_u64 i)) (\<lambda>n.
     if 0xFFFF < n then Inl (QMessage ''kind must be between 0 and 65535'') else Inr (items @ [n]))"

definition fsu_parse :: "value \<Rightarrow> query_error + filter_set_uint" where
  "fsu_parse v =
     rbind (ok_or (QMessage ''not an array'') (as_array v)) (\<lambda>arr.
     rbind (try_fold fsu_item [] arr) (\<lambda>items. Inr \<lparr> fu_items = remdups_adj (sort items) \<rparr>))"

definition fu_match :: "filter_set_uint \<Rightarrow> u64 \<Rightarrow> bool" where
  "fu_match fu candidate = is_ok (binary_search (fu_items fu) candidate)"

section \<open>Filters\<close>

record nostr_filter =
  f_ids :: "filter_set_bytes option"
  f_authors :: "filter_set_bytes option"
  f_kinds :: "filter_set_uint option"
  f_tags :: "(u8 \<times> filter_set_bytes) list"
  f_and_tags :: "(u8 \<times> filter_set_bytes) list"
  f_search :: "search_query option"
  f_since :: u64
  f_until :: u64
  f_limit :: u64
  f_never_match :: bool
  f_index_only_scans :: bool

definition empty_filter :: nostr_filter where
  "empty_filter = \<lparr> f_ids = None, f_authors = None, f_kinds = None, f_tags = [], f_and_tags = [], f_search = None,
     f_since = 0, f_until = - 1, f_limit = - 1, f_never_match = False, f_index_only_scans = False \<rparr>"

text \<open>The loop over the members of the object: the state is the filter and \<open>num_major_non_tag\<close>.\<close>

type_synonym filter_st = "nostr_filter \<times> nat"

definition key_ids :: "ext \<Rightarrow> value \<Rightarrow> filter_st \<Rightarrow> query_error + filter_st" where
  "key_ids X v st = (case st of (f, n) \<Rightarrow>
     rbind (ok_or (QMessage ''ids not an array'') (as_array v)) (\<lambda>arr.
     if arr = [] then Inr (f \<lparr> f_never_match := True \<rparr>, n)
     else rbind (map_err (\<lambda>e. QMessage (''error parsing ids: '' @ query_error_text e)) (fsb_parse X v True 32 32)) (\<lambda>s.
       Inr (f \<lparr> f_ids := Some s \<rparr>, n + 1))))"

definition key_authors :: "ext \<Rightarrow> value \<Rightarrow> filter_st \<Rightarrow> query_error + filter_st" where
  "key_authors X v st = (case st of (f, n) \<Rightarrow>
     rbind (ok_or (QMessage ''authors not an array'') (as_array v)) (\<lambda>arr.
     if arr = [] then Inr (f \<lparr> f_never_match := True \<rparr>, n)
     else rbind (map_err (\<lambda>e. QMessage (''error parsing authors: '' @ query_error_text e)) (fsb_parse X v True 32 32)) (\<lambda>s.
       Inr (f \<lparr> f_authors := Some s \<rparr>, n + 1))))"

definition key_kinds :: "value \<Rightarrow> filter_st \<Rightarrow> query_error + filter_st" where
  "key_kinds v st = (case st of (f, n) \<Rightarrow>
     rbind (ok_or (QMessage ''kinds not an array'') (as_array v)) (\<lambda>arr.
     if arr = [] then Inr (f \<lparr> f_never_match := True \<rparr>, n)
     else rbind (map_err (\<lambda>e. QMessage (''error parsing kinds: '' @ query_error_text e)) (fsu_parse v)) (\<lambda>s.
       Inr (f \<lparr> f_kinds := Some s \<rparr>, n + 1))))"

definition is_ascii_alphabetic :: "u8 \<Rightarrow> bool" where
  "is_ascii_alphabetic b \<longleftrightarrow> 0x41 \<le> b \<and> b \<le> 0x5A \<or> 0x61 \<le> b \<and> b \<le> 0x7A"

definition parse_tag_set :: "ext \<Rightarrow> u8 \<Rightarrow> value \<Rightarrow> query_error + filter_set_bytes" where
  "parse_tag_set X tag v =
     map_err (\<lambda>e. QMessage (''error parsing '' @ query_error_text e))
       (if tag = 0x70 \<or> tag = 0x65 then fsb_parse X v True 32 32 else parse_tag_values X v)"

definition key_tag :: "ext \<Rightarrow> bytes \<Rightarrow> value \<Rightarrow> filter_st \<Rightarrow> query_error + filter_st" where
  "key_tag X k v st = (case st of (f, n) \<Rightarrow>
     if length k \<noteq> 2 \<or> \<not> is_ascii_alphabetic (k ! 1) then Inl (QUnsupported ''unindexed tag filter'')
     else rbind (ok_or (QMessage '' not an array'') (as_array v)) (\<lambda>arr.
     if arr = [] then Inr (f \<lparr> f_never_match := True \<rparr>, n)
     else rbind (parse_tag_set X (k ! 1) v) (\<lambda>s. Inr (f \<lparr> f_tags := btree_insert (k ! 1) s (f_tags f) \<rparr>, n))))"

definition key_and_tag :: "ext \<Rightarrow> bytes \<Rightarrow> value \<Rightarrow> filter_st \<Rightarrow> query_error + filter_st" where
  "key_and_tag X k v st = (case st of (f, n) \<Rightarrow>
     if length k \<noteq> 2 \<or> \<not> is_ascii_alphabetic (k ! 1) then Inl (QUnsupported ''unindexed AND tag filter'')
     else rbind (ok_or (QMessage '' not an array'') (as_array v)) (\<lambda>arr.
     if arr = [] then Inl (QMessage '' array must not be empty'')
     else rbind (parse_tag_set X (k ! 1) v) (\<lambda>s. Inr (f \<lparr> f_and_tags := btree_insert (k ! 1) s (f_and_tags f) \<rparr>, n))))"

definition key_search :: "unicode \<Rightarrow> value \<Rightarrow> filter_st \<Rightarrow> query_error + filter_st" where
  "key_search U v st = (case st of (f, n) \<Rightarrow>
     rbind (ok_or (QMessage ''search not a string'') (as_str v)) (\<lambda>query.
     rbind (map_err (\<lambda>e. QMessage (''error parsing search: '' @ db_error_text e)) (parse_search_query U query)) (\<lambda>q.
     Inr (f \<lparr> f_search := Some q \<rparr>, n + 1))))"

definition parse_key :: "ext \<Rightarrow> unicode \<Rightarrow> filter_st \<Rightarrow> bytes \<times> value \<Rightarrow> query_error + filter_st" where
  "parse_key X U st kv = (case kv of (k, v) \<Rightarrow>
     if k = str ''ids'' then key_ids X v st
     else if k = str ''authors'' then key_authors X v st
     else if k = str ''kinds'' then key_kinds v st
     else if starts_with k (str ''#'') then key_tag X k v st
     else if starts_with k (str ''&'') then key_and_tag X k v st
     else if k = str ''since'' then
       rbind (ok_or (QMessage ''error parsing since'') (as_u64 v)) (\<lambda>t. Inr ((fst st) \<lparr> f_since := t \<rparr>, snd st))
     else if k = str ''until'' then
       rbind (ok_or (QMessage ''error parsing until'') (as_u64 v)) (\<lambda>t. Inr ((fst st) \<lparr> f_until := t \<rparr>, snd st))
     else if k = str ''limit'' then
       rbind (ok_or (QMessage ''error parsing limit'') (as_u64 v)) (\<lambda>t. Inr ((fst st) \<lparr> f_limit := t \<rparr>, snd st))
     else if k = str ''search'' then key_search U v st
     else Inl (QUnsupported ''unrecognised filter item: ''))"

definition remove_required :: "(u8 \<times> filter_set_bytes) list \<Rightarrow> u8 \<times> filter_set_bytes \<Rightarrow> (u8 \<times> filter_set_bytes) list" where
  "remove_required tags = (\<lambda>(tag, required).
     map (\<lambda>(t, alternatives). (t, if t = tag then fs_remove_all alternatives required else alternatives)) tags)"

definition tag_key_count :: "nostr_filter \<Rightarrow> nat" where
  "tag_key_count f = length (remdups (map fst (f_tags f) @ map fst (f_and_tags f)))"

definition filter_parse :: "ext \<Rightarrow> unicode \<Rightarrow> value \<Rightarrow> u64 \<Rightarrow> nat \<Rightarrow> nat \<Rightarrow> query_error + nostr_filter" where
  "filter_parse X U filter_obj max_filter_limit max_tags_per_filter max_and_entries =
     (case filter_obj of Object obj \<Rightarrow>
       rbind (try_fold (parse_key X U) (empty_filter, 0) obj) (\<lambda>(f0, num_major_non_tag).
       let f1 = f0 \<lparr> f_tags := filter (\<lambda>(_, alternatives). 0 < fs_size alternatives)
             (foldl remove_required (f_tags f0) (f_and_tags f0)) \<rparr> in
       if max_tags_per_filter < tag_key_count f1 then Inl (QLimit TagsPerFilter ''too many tags in filter'')
       else if max_and_entries < sum_list (map (\<lambda>(_, s). fs_size s) (f_and_tags f1))
       then Inl (QLimit AndEntries ''too many AND entries in filter'')
       else
         let f2 = f1 \<lparr> f_limit := if max_filter_limit < f_limit f1 then max_filter_limit else f_limit f1 \<rparr>;
             num_major = num_major_non_tag + tag_key_count f1;
             empty_d = (case map_of (f_tags f2) 0x64 of Some values \<Rightarrow> fs_match values [] | None \<Rightarrow> False)
         in Inr (f2 \<lparr> f_index_only_scans := f_and_tags f2 = [] \<and> \<not> empty_d \<and>
              (num_major \<le> 1 \<or> num_major = 2 \<and> f_authors f2 \<noteq> None \<and> f_kinds f2 \<noteq> None) \<rparr>))
     | _ \<Rightarrow> Inl (QMessage ''provided filter is not an object''))"

section \<open>Matching\<close>

definition does_match_times :: "nostr_filter \<Rightarrow> u64 \<Rightarrow> bool" where
  "does_match_times f created \<longleftrightarrow> f_since f \<le> created \<and> created \<le> f_until f"

text \<open>\<open>found\<close> after \<open>foreach_filter_tag\<close> with a callback that stops at the first hit.\<close>

definition some_filter_tag :: "(u8 \<Rightarrow> bytes \<Rightarrow> bool) \<Rightarrow> packed_event \<Rightarrow> bool" where
  "some_filter_tag hit ev = foreach_filter_tag (\<lambda>name val found. if hit name val then (False, True) else (True, found)) ev False"

definition does_match_without_search :: "nostr_filter \<Rightarrow> packed_event \<Rightarrow> bool" where
  "does_match_without_search f ev =
     (if f_never_match f \<or> \<not> does_match_times f (ev_created_at ev) then False
      else if (case f_ids f of Some ids \<Rightarrow> \<not> fs_match ids (ev_id ev) | None \<Rightarrow> False) then False
      else if (case f_authors f of Some authors \<Rightarrow> \<not> fs_match authors (ev_pubkey ev) | None \<Rightarrow> False) then False
      else if (case f_kinds f of Some kinds \<Rightarrow> \<not> fu_match kinds (ev_kind ev) | None \<Rightarrow> False) then False
      else list_all (\<lambda>(tag, filt). some_filter_tag (\<lambda>name val. name = tag \<and> fs_match filt val) ev) (f_tags f) \<and>
        list_all (\<lambda>(tag, required). list_all (\<lambda>v. some_filter_tag (\<lambda>name candidate. name = tag \<and> candidate = v) ev)
          (fs_items required)) (f_and_tags f))"

definition does_match :: "nostr_filter \<Rightarrow> packed_event \<Rightarrow> bool" where
  "does_match f ev = (if f_search f \<noteq> None then False else does_match_without_search f ev)"

definition does_match_with_search_terms :: "nostr_filter \<Rightarrow> packed_event \<Rightarrow> bytes list option \<Rightarrow> bool" where
  "does_match_with_search_terms f ev search_terms =
     (if \<not> does_match_without_search f ev then False
      else case f_search f of None \<Rightarrow> True
      | Some query \<Rightarrow> (case search_terms of None \<Rightarrow> False
        | Some terms \<Rightarrow> list_all (\<lambda>t. t \<in> set terms) (sq_terms query)))"

definition is_full_db_query :: "nostr_filter \<Rightarrow> bool" where
  "is_full_db_query f \<longleftrightarrow> \<not> f_never_match f \<and> f_ids f = None \<and> f_authors f = None \<and> f_kinds f = None \<and>
     f_tags f = [] \<and> f_and_tags f = [] \<and> f_search f = None"

section \<open>Groups\<close>

record filter_group =
  fg_filters :: "nostr_filter list"
  fg_never_matching :: nat

definition default_group :: filter_group where
  "default_group = \<lparr> fg_filters = [], fg_never_matching = 0 \<rparr>"

definition add_filter :: "ext \<Rightarrow> unicode \<Rightarrow> u64 \<Rightarrow> nat \<Rightarrow> nat \<Rightarrow> filter_group \<Rightarrow> value \<Rightarrow> query_error + filter_group" where
  "add_filter X U max_filter_limit max_tags max_and_entries fg item =
     rbind (filter_parse X U item max_filter_limit max_tags max_and_entries) (\<lambda>f.
     if f_never_match f then Inr (fg \<lparr> fg_never_matching := fg_never_matching fg + 1 \<rparr>)
     else Inr (fg \<lparr> fg_filters := fg_filters fg @ [f] \<rparr>))"

definition from_req :: "ext \<Rightarrow> unicode \<Rightarrow> value list \<Rightarrow> u64 \<Rightarrow> nat \<Rightarrow> nat \<Rightarrow> query_error + filter_group" where
  "from_req X U arr max_filter_limit max_tags max_and_entries =
     (if length arr < 3 then Inl (QMessage ''too small'')
      else try_fold (add_filter X U max_filter_limit max_tags max_and_entries) default_group (drop 2 arr))"

definition from_value :: "ext \<Rightarrow> unicode \<Rightarrow> value \<Rightarrow> u64 \<Rightarrow> nat \<Rightarrow> nat \<Rightarrow> query_error + filter_group" where
  "from_value X U filt max_filter_limit max_tags max_and_entries =
     (case filt of
       Array es \<Rightarrow> try_fold (add_filter X U max_filter_limit max_tags max_and_entries) default_group es
     | _ \<Rightarrow> add_filter X U max_filter_limit max_tags max_and_entries default_group filt)"

definition group_match :: "filter_group \<Rightarrow> packed_event \<Rightarrow> bool" where
  "group_match fg ev = list_ex (\<lambda>f. does_match f ev) (fg_filters fg)"

definition group_match_with_search_terms :: "filter_group \<Rightarrow> packed_event \<Rightarrow> bytes list option \<Rightarrow> bool" where
  "group_match_with_search_terms fg ev search_terms =
     list_ex (\<lambda>f. does_match_with_search_terms f ev search_terms) (fg_filters fg)"

definition group_requires_content :: "filter_group \<Rightarrow> bool" where
  "group_requires_content fg = list_ex (\<lambda>f. f_search f \<noteq> None) (fg_filters fg)"

definition group_is_full_db_query :: "filter_group \<Rightarrow> bool" where
  "group_is_full_db_query fg \<longleftrightarrow> length (fg_filters fg) = 1 \<and> is_full_db_query (fg_filters fg ! 0)"

record subscription =
  sub_conn_id :: u64
  sub_sub_id :: bytes
  sub_filter_group :: filter_group
  sub_count_only :: bool
  sub_latest_event_id :: u64
  sub_generation :: u64
  sub_auth_challenged :: bool

definition subscription_new :: "u64 \<Rightarrow> bytes \<Rightarrow> filter_group \<Rightarrow> bool \<Rightarrow> subscription" where
  "subscription_new conn_id sub_id fg count_only =
     \<lparr> sub_conn_id = conn_id, sub_sub_id = sub_id, sub_filter_group = fg, sub_count_only = count_only,
       sub_latest_event_id = - 1, sub_generation = 0, sub_auth_challenged = False \<rparr>"

section \<open>Rules for a request\<close>

record filter_validator =
  fv_max_kinds_per_filter :: u64
  fv_allowed_kinds :: "u64 list"
  fv_require_author_or_tag :: bool
  fv_require_scoped_filters :: bool

definition validate_filter :: "filter_validator \<Rightarrow> unit \<Rightarrow> nostr_filter \<Rightarrow> query_error + unit" where
  "validate_filter V u f =
     rbind (case f_kinds f of None \<Rightarrow> Inr () | Some kinds \<Rightarrow>
       if fv_max_kinds_per_filter V \<noteq> 0 \<and> fv_max_kinds_per_filter V < of_nat (length (fu_items kinds))
       then Inl (QLimit KindsPerFilter ''too many kinds in filter: '')
       else if fv_allowed_kinds V \<noteq> [] then
         try_fold (\<lambda>u k. if k \<notin> set (fv_allowed_kinds V) then Inl (QLimit AllowedKinds ''kind not allowed: '') else Inr u)
           () (fu_items kinds)
       else Inr ()) (\<lambda>_.
     if fv_require_scoped_filters V \<and> f_ids f = None \<and> f_authors f = None \<and> f_tags f = [] \<and> f_and_tags f = []
     then Inl (QLimit ScopedFilters ''filter must name ids, authors or a tag'')
     else if fv_require_author_or_tag V then
       (let one = (\<lambda>s. case s of Some s \<Rightarrow> fs_size s = 1 | None \<Rightarrow> False);
            has_author = one (f_authors f);
            has_p = one (map_of (f_tags f) 0x70); has_and_p = one (map_of (f_and_tags f) 0x70);
            has_e = one (map_of (f_tags f) 0x65); has_and_e = one (map_of (f_and_tags f) 0x65) in
        if \<not> has_author \<and> \<not> has_p \<and> \<not> has_e \<and> \<not> has_and_p \<and> \<not> has_and_e
        then Inl (QLimit AuthorOrTag ''filter must have exactly one author, p tag, or e tag'')
        else Inr ())
     else Inr ())"

definition validate :: "filter_validator \<Rightarrow> filter_group \<Rightarrow> query_error + unit" where
  "validate V fg = try_fold (validate_filter V) () (fg_filters fg)"

end
