(* ===== verification/Query_Monitor.thy ===== *)
theory Query_Monitor
  imports Query_Filter Query_Pending "HOL-Library.AList" "HOL-Library.Product_Lexorder"
begin

text \<open>
  The index of live subscriptions, \<open>wok-query/src/monitor.rs\<close>: subscriptions in numbered slots, postings by
  key in two indexes, and the operations of \<open>ActiveMonitors\<close>. A \<open>HashMap\<close> is an association list with one
  entry per key; its order, in which \<open>remove_refused\<close> and \<open>close_conn\<close> go through it, stands for the order
  the hash map has. A slot, a position and the number of a posting are naturals below \<open>2 ^ 32\<close>. A panic
  (an \<open>expect\<close>, an index out of range, a counter below zero) is \<^term>\<open>None\<close>. The pass counter is a \<open>u64\<close>
  that wraps around.
\<close>

unbundle bit_operations_syntax

section \<open>Postings\<close>

record recipient =
  rc_conn_id :: u64
  rc_sub_id :: bytes
  rc_pending :: bool
  rc_generation :: u64

record monitored =
  mo_sub :: subscription
  mo_pending :: "pending_buffer option"

record posting =
  po_slot :: nat
  po_nth :: nat
  po_kinds :: u64

definition kind_bit :: "u64 \<Rightarrow> u64" where
  "kind_bit kind = push_bit (unat (drop_bit 58 (kind * 0x9E3779B97F4A7C15))) 1"

definition kind_mask :: "nostr_filter \<Rightarrow> u64" where
  "kind_mask f = (case f_kinds f of None \<Rightarrow> - 1 | Some kinds \<Rightarrow> foldl (\<lambda>m kind. m OR kind_bit kind) 0 (fu_items kinds))"

datatype key = KId bytes | KAuthor bytes | KTag u8 bytes | KKind u64 | KAny

type_synonym 'k buckets = "('k \<times> posting list) list"
type_synonym places = "nat list list"

definition key32 :: "bytes \<Rightarrow> bytes option" where
  "key32 b = (if length b = 32 then Some b else None)"

definition position :: "nat \<Rightarrow> nat option" where
  "position n = (if n < 2 ^ 32 then Some n else None)"

section \<open>One index\<close>

record index =
  ix_ids :: "bytes buckets"
  ix_authors :: "bytes buckets"
  ix_tags :: "bytes buckets list"
  ix_tag_postings :: nat
  ix_kinds :: "u64 buckets"
  ix_any :: "posting list"

definition index_new :: index where
  "index_new = \<lparr> ix_ids = [], ix_authors = [], ix_tags = replicate 256 [], ix_tag_postings = 0, ix_kinds = [], ix_any = [] \<rparr>"

text \<open>The bucket of a key in a map, which \<open>or_default\<close> creates empty.\<close>

definition bucket_of :: "'k buckets \<Rightarrow> 'k \<Rightarrow> posting list" where
  "bucket_of m k = (case map_of m k of None \<Rightarrow> [] | Some b \<Rightarrow> b)"

definition push_under :: "'k buckets \<Rightarrow> 'k \<Rightarrow> posting \<Rightarrow> ('k buckets \<times> nat) option" where
  "push_under m k p = (let b = bucket_of m k @ [p] in
     Option.bind (position (length b - 1)) (\<lambda>at. Some (AList.update k b m, at)))"

definition index_push :: "index \<Rightarrow> key \<Rightarrow> posting \<Rightarrow> (index \<times> nat) option" where
  "index_push ix key p = (case key of
     KId i \<Rightarrow> Option.bind (key32 i) (\<lambda>k. Option.bind (push_under (ix_ids ix) k p) (\<lambda>(m, at). Some (ix\<lparr> ix_ids := m \<rparr>, at)))
   | KAuthor pk \<Rightarrow> Option.bind (key32 pk) (\<lambda>k. Option.bind (push_under (ix_authors ix) k p) (\<lambda>(m, at). Some (ix\<lparr> ix_authors := m \<rparr>, at)))
   | KTag name val \<Rightarrow> Option.bind (nth_opt (ix_tags ix) (unat name)) (\<lambda>values. Option.bind (push_under values val p) (\<lambda>(m, at).
       Some (ix\<lparr> ix_tag_postings := ix_tag_postings ix + 1, ix_tags := (ix_tags ix)[unat name := m] \<rparr>, at)))
   | KKind kind \<Rightarrow> Option.bind (push_under (ix_kinds ix) kind p) (\<lambda>(m, at). Some (ix\<lparr> ix_kinds := m \<rparr>, at))
   | KAny \<Rightarrow> Option.bind (position (length (ix_any ix))) (\<lambda>at. Some (ix\<lparr> ix_any := ix_any ix @ [p] \<rparr>, at)))"

definition set_place :: "places \<Rightarrow> nat \<Rightarrow> nat \<Rightarrow> nat \<Rightarrow> places option" where
  "set_place places slot n at = Option.bind (nth_opt places slot) (\<lambda>ps. Option.bind (set_opt ps n at) (set_opt places slot))"

definition swap_remove :: "posting list \<Rightarrow> nat \<Rightarrow> places \<Rightarrow> (posting list \<times> places) option" where
  "swap_remove bucket at places =
     (if at < length bucket then
        let b = butlast (bucket[at := last bucket]) in
        case nth_opt b at of None \<Rightarrow> Some (b, places)
        | Some moved \<Rightarrow> Option.bind (set_place places (po_slot moved) (po_nth moved) at) (\<lambda>places'. Some (b, places'))
      else None)"

definition remove_from :: "'k buckets \<Rightarrow> 'k \<Rightarrow> nat \<Rightarrow> places \<Rightarrow> ('k buckets \<times> places) option" where
  "remove_from m k at places =
     Option.bind (map_of m k) (\<lambda>bucket. Option.bind (swap_remove bucket at places) (\<lambda>(b, places').
     Some (if b = [] then AList.delete k m else AList.update k b m, places')))"

definition index_remove :: "index \<Rightarrow> key \<Rightarrow> nat \<Rightarrow> places \<Rightarrow> (index \<times> places) option" where
  "index_remove ix key at places = (case key of
     KId i \<Rightarrow> Option.bind (remove_from (ix_ids ix) i at places) (\<lambda>(m, ps). Some (ix\<lparr> ix_ids := m \<rparr>, ps))
   | KAuthor pk \<Rightarrow> Option.bind (remove_from (ix_authors ix) pk at places) (\<lambda>(m, ps). Some (ix\<lparr> ix_authors := m \<rparr>, ps))
   | KTag name val \<Rightarrow> if ix_tag_postings ix = 0 then None else
       Option.bind (nth_opt (ix_tags ix) (unat name)) (\<lambda>values. Option.bind (remove_from values val at places) (\<lambda>(m, ps).
       Some (ix\<lparr> ix_tag_postings := ix_tag_postings ix - 1, ix_tags := (ix_tags ix)[unat name := m] \<rparr>, ps)))
   | KKind kind \<Rightarrow> Option.bind (remove_from (ix_kinds ix) kind at places) (\<lambda>(m, ps). Some (ix\<lparr> ix_kinds := m \<rparr>, ps))
   | KAny \<Rightarrow> Option.bind (swap_remove (ix_any ix) at places) (\<lambda>(b, ps). Some (ix\<lparr> ix_any := b \<rparr>, ps)))"

text \<open>The buckets of an event, each given to the callback, which updates a state. The vector of tag maps has
  one map for each byte and is never resized.\<close>

definition found :: "(posting list \<Rightarrow> 's \<Rightarrow> 's) \<Rightarrow> posting list option \<Rightarrow> 's \<Rightarrow> 's" where
  "found add b s = (case b of None \<Rightarrow> s | Some bucket \<Rightarrow> add bucket s)"

definition tag_bucket :: "index \<Rightarrow> u8 \<Rightarrow> bytes \<Rightarrow> posting list option" where
  "tag_bucket ix name val = (let values = ix_tags ix ! unat name in if values \<noteq> [] then map_of values val else None)"

definition index_lookup :: "index \<Rightarrow> packed_event \<Rightarrow> (posting list \<Rightarrow> 's \<Rightarrow> 's) \<Rightarrow> 's \<Rightarrow> 's" where
  "index_lookup ix ev add s0 =
     (let s1 = if ix_ids ix \<noteq> [] then found add (map_of (ix_ids ix) (ev_id ev)) s0 else s0;
          s2 = if ix_authors ix \<noteq> [] then found add (map_of (ix_authors ix) (ev_pubkey ev)) s1 else s1;
          s3 = if ix_tag_postings ix \<noteq> 0
               then foreach_filter_tag (\<lambda>name val s. (True, found add (tag_bucket ix name val) s)) ev s2 else s2;
          s4 = if ix_kinds ix \<noteq> [] then found add (map_of (ix_kinds ix) (ev_kind ev)) s3 else s3
      in found add (Some (ix_any ix)) s4)"

section \<open>The keys of a filter\<close>

text \<open>\<open>min_by_key\<close>: the first of the least elements.\<close>

definition min_by_key :: "('a \<Rightarrow> nat) \<Rightarrow> 'a list \<Rightarrow> 'a option" where
  "min_by_key g xs = (case xs of [] \<Rightarrow> None | x # ys \<Rightarrow> Some (foldl (\<lambda>m y. if g y < g m then y else m) x ys))"

text \<open>The keys \<open>for_each_key\<close> calls its callback with, in order.\<close>

definition for_each_key :: "nostr_filter \<Rightarrow> key list option" where
  "for_each_key f =
     (case f_ids f of Some ids \<Rightarrow> Some (map KId (fs_items ids)) | None \<Rightarrow>
      case f_authors f of Some authors \<Rightarrow> Some (map KAuthor (fs_items authors)) | None \<Rightarrow>
      case f_and_tags f of (name, values) # _ \<Rightarrow> Option.bind (nth_opt (fs_items values) 0) (\<lambda>val. Some [KTag name val]) | [] \<Rightarrow>
      case min_by_key (\<lambda>(_, values). fs_size values) (f_tags f) of Some (name, values) \<Rightarrow> Some (map (KTag name) (fs_items values)) | None \<Rightarrow>
      case f_kinds f of Some kinds \<Rightarrow> Some (map KKind (fu_items kinds)) | None \<Rightarrow> Some [KAny])"

section \<open>Subscriptions by slot\<close>

record active_monitors =
  am_conns :: "(u64 \<times> (bytes \<times> nat) list) list"
  am_slots :: "monitored option list"
  am_places :: places
  am_free :: "nat list"
  am_index :: index
  am_search :: index
  am_seen :: "u64 list"
  am_pass :: u64
  am_candidates :: "nat list"
  am_max_subs :: nat
  am_content :: nat

definition monitors_new :: "nat \<Rightarrow> active_monitors" where
  "monitors_new max_subs = \<lparr> am_conns = [], am_slots = [], am_places = [], am_free = [], am_index = index_new, am_search = index_new,
     am_seen = [], am_pass = 0, am_candidates = [], am_max_subs = max_subs, am_content = 0 \<rparr>"

definition monitors_is_empty :: "active_monitors \<Rightarrow> bool" where
  "monitors_is_empty st \<longleftrightarrow> am_conns st = []"

definition set_max_subs :: "active_monitors \<Rightarrow> nat \<Rightarrow> active_monitors" where
  "set_max_subs st max_subs = st\<lparr> am_max_subs := max_subs \<rparr>"

definition which_index :: "active_monitors \<Rightarrow> bool \<Rightarrow> index" where
  "which_index st in_search = (if in_search then am_search st else am_index st)"

definition set_index :: "active_monitors \<Rightarrow> bool \<Rightarrow> index \<Rightarrow> active_monitors" where
  "set_index st in_search ix = (if in_search then st\<lparr> am_search := ix \<rparr> else st\<lparr> am_index := ix \<rparr>)"

definition slot_of :: "active_monitors \<Rightarrow> u64 \<Rightarrow> bytes \<Rightarrow> nat option" where
  "slot_of st conn_id sub_id = Option.bind (map_of (am_conns st) conn_id) (\<lambda>subs. map_of subs sub_id)"

definition entry :: "active_monitors \<Rightarrow> u64 \<Rightarrow> bytes \<Rightarrow> monitored option option" where
  "entry st conn_id sub_id = (case slot_of st conn_id sub_id of None \<Rightarrow> Some None | Some slot \<Rightarrow> nth_opt (am_slots st) slot)"

definition allocate :: "active_monitors \<Rightarrow> (active_monitors \<times> nat) option" where
  "allocate st =
     (if am_free st \<noteq> [] then Some (st\<lparr> am_free := butlast (am_free st) \<rparr>, last (am_free st))
      else Option.bind (position (length (am_slots st))) (\<lambda>slot.
        Some (st\<lparr> am_slots := am_slots st @ [None], am_places := am_places st @ [[]], am_seen := am_seen st @ [0] \<rparr>, slot)))"

definition install_key :: "nat \<Rightarrow> u64 \<Rightarrow> bool \<Rightarrow> active_monitors \<Rightarrow> key \<Rightarrow> active_monitors option" where
  "install_key slot kinds in_search st key =
     Option.bind (nth_opt (am_places st) slot) (\<lambda>ps.
     Option.bind (position (length ps)) (\<lambda>n.
     Option.bind (index_push (which_index st in_search) key \<lparr> po_slot = slot, po_nth = n, po_kinds = kinds \<rparr>) (\<lambda>(ix, at).
     Some ((set_index st in_search ix)\<lparr> am_places := (am_places st)[slot := ps @ [at]] \<rparr>))))"

definition install_filter :: "nat \<Rightarrow> active_monitors \<Rightarrow> nostr_filter \<Rightarrow> active_monitors option" where
  "install_filter slot st f =
     Option.bind (for_each_key f) (opt_fold (install_key slot (kind_mask f) (f_search f \<noteq> None)) st)"

definition install :: "active_monitors \<Rightarrow> nat \<Rightarrow> active_monitors option" where
  "install st slot =
     Option.bind (nth_opt (am_slots st) slot) (\<lambda>e. Option.bind e (\<lambda>e.
     let fg = sub_filter_group (mo_sub e) in
     opt_fold (install_filter slot) (st\<lparr> am_content := am_content st + (if group_requires_content fg then 1 else 0) \<rparr>) (fg_filters fg)))"

definition uninstall_key :: "nat \<Rightarrow> bool \<Rightarrow> active_monitors \<times> nat \<Rightarrow> key \<Rightarrow> (active_monitors \<times> nat) option" where
  "uninstall_key slot in_search = (\<lambda>(st, n) key.
     Option.bind (Option.bind (nth_opt (am_places st) slot) (\<lambda>ps. nth_opt ps n)) (\<lambda>at.
     Option.bind (index_remove (which_index st in_search) key at (am_places st)) (\<lambda>(ix, places).
     Some ((set_index st in_search ix)\<lparr> am_places := places \<rparr>, n + 1))))"

definition uninstall_filter :: "nat \<Rightarrow> active_monitors \<times> nat \<Rightarrow> nostr_filter \<Rightarrow> (active_monitors \<times> nat) option" where
  "uninstall_filter slot s f = Option.bind (for_each_key f) (opt_fold (uninstall_key slot (f_search f \<noteq> None)) s)"

definition uninstall :: "active_monitors \<Rightarrow> nat \<Rightarrow> (active_monitors \<times> monitored) option" where
  "uninstall st slot =
     Option.bind (nth_opt (am_slots st) slot) (\<lambda>e. Option.bind e (\<lambda>e.
     let fg = sub_filter_group (mo_sub e); c = (if group_requires_content fg then 1 else 0) in
     if am_content st < c then None
     else Option.bind (opt_fold (uninstall_filter slot)
         (st\<lparr> am_slots := (am_slots st)[slot := None], am_content := am_content st - c \<rparr>, 0) (fg_filters fg)) (\<lambda>(st1, _).
       Option.bind (set_opt (am_places st1) slot []) (\<lambda>places. Some (st1\<lparr> am_places := places \<rparr>, e)))))"

definition release :: "active_monitors \<Rightarrow> nat \<Rightarrow> active_monitors option" where
  "release st slot = Option.bind (uninstall st slot) (\<lambda>(st1, _). Some (st1\<lparr> am_free := am_free st1 @ [slot] \<rparr>))"

section \<open>Opening and closing subscriptions\<close>

definition take_slot :: "active_monitors \<Rightarrow> subscription \<Rightarrow> (active_monitors \<times> nat) option" where
  "take_slot st sub =
     (case slot_of st (sub_conn_id sub) (sub_sub_id sub) of
       Some slot \<Rightarrow> Option.bind (uninstall st slot) (\<lambda>(st1, _). Some (st1, slot))
     | None \<Rightarrow> Option.bind (allocate st) (\<lambda>(st1, slot).
         let subs = (case map_of (am_conns st1) (sub_conn_id sub) of None \<Rightarrow> [] | Some subs \<Rightarrow> subs) in
         Some (st1\<lparr> am_conns := AList.update (sub_conn_id sub) (AList.update (sub_sub_id sub) slot subs) (am_conns st1) \<rparr>, slot)))"

definition monitors_insert :: "active_monitors \<Rightarrow> subscription \<Rightarrow> pending_buffer option \<Rightarrow> active_monitors option" where
  "monitors_insert st sub pending =
     Option.bind (take_slot st sub) (\<lambda>(st1, slot).
     Option.bind (set_opt (am_slots st1) slot (Some \<lparr> mo_sub = sub, mo_pending = pending \<rparr>)) (\<lambda>slots.
     install (st1\<lparr> am_slots := slots \<rparr>) slot))"

definition add_sub :: "active_monitors \<Rightarrow> subscription \<Rightarrow> u64 \<Rightarrow> (active_monitors \<times> bool) option" where
  "add_sub st sub curr_event_id =
     (let opened = map_of (am_conns st) (sub_conn_id sub);
          replacing = (case opened of None \<Rightarrow> False | Some conn \<Rightarrow> map_of conn (sub_sub_id sub) \<noteq> None) in
      if \<not> replacing \<and> am_max_subs st \<le> (case opened of None \<Rightarrow> 0 | Some conn \<Rightarrow> length conn) then Some (st, False)
      else Option.bind (monitors_insert st sub None) (\<lambda>st1. Some (st1, True)))"

definition add_pending :: "active_monitors \<Rightarrow> subscription \<Rightarrow> pending_buffer \<Rightarrow> active_monitors option" where
  "add_pending st sub buffer = monitors_insert st sub (Some buffer)"

definition remove_sub :: "active_monitors \<Rightarrow> u64 \<Rightarrow> bytes \<Rightarrow> active_monitors option" where
  "remove_sub st conn_id sub_id =
     (case map_of (am_conns st) conn_id of None \<Rightarrow> Some st
      | Some subs \<Rightarrow> (case map_of subs sub_id of None \<Rightarrow> Some st
        | Some slot \<Rightarrow>
          let subs' = AList.delete sub_id subs;
              conns = (if subs' = [] then AList.delete conn_id (am_conns st) else AList.update conn_id subs' (am_conns st))
          in release (st\<lparr> am_conns := conns \<rparr>) slot))"

definition refused_in :: "active_monitors \<Rightarrow> (subscription \<Rightarrow> 'r option) \<Rightarrow> (u64 \<times> bytes \<times> u64 \<times> 'r) list \<Rightarrow> nat \<Rightarrow>
    (u64 \<times> bytes \<times> u64 \<times> 'r) list option" where
  "refused_in st refusal refused slot =
     Option.bind (nth_opt (am_slots st) slot) (\<lambda>e. Some (case e of None \<Rightarrow> refused
       | Some e \<Rightarrow> (case refusal (mo_sub e) of None \<Rightarrow> refused
         | Some reason \<Rightarrow> refused @ [(sub_conn_id (mo_sub e), sub_sub_id (mo_sub e), sub_generation (mo_sub e), reason)])))"

definition remove_refused :: "active_monitors \<Rightarrow> (subscription \<Rightarrow> 'r option) \<Rightarrow>
    (active_monitors \<times> (u64 \<times> bytes \<times> u64 \<times> 'r) list) option" where
  "remove_refused st refusal =
     Option.bind (opt_fold (\<lambda>refused (_, subs). opt_fold (refused_in st refusal) refused (map snd subs)) [] (am_conns st)) (\<lambda>refused.
     Option.bind (opt_fold (\<lambda>st (conn_id, sub_id, _, _). remove_sub st conn_id sub_id) st refused) (\<lambda>st1.
     Some (st1, refused)))"

definition close_conn :: "active_monitors \<Rightarrow> u64 \<Rightarrow> active_monitors option" where
  "close_conn st conn_id =
     (case map_of (am_conns st) conn_id of None \<Rightarrow> Some st
      | Some subs \<Rightarrow> opt_fold release (st\<lparr> am_conns := AList.delete conn_id (am_conns st) \<rparr>) (map snd subs))"

section \<open>Pending subscriptions\<close>

definition subscription_at :: "active_monitors \<Rightarrow> u64 \<Rightarrow> bytes \<Rightarrow> subscription option option" where
  "subscription_at st conn_id sub_id = Option.bind (entry st conn_id sub_id) (\<lambda>e. Some (map_option mo_sub e))"

definition set_entry :: "active_monitors \<Rightarrow> u64 \<Rightarrow> bytes \<Rightarrow> monitored \<Rightarrow> active_monitors" where
  "set_entry st conn_id sub_id e = (case slot_of st conn_id sub_id of None \<Rightarrow> st
     | Some slot \<Rightarrow> st\<lparr> am_slots := (am_slots st)[slot := Some e] \<rparr>)"

text \<open>The buffer \<open>pending_mut\<close> lends out is changed by \<open>f\<close>.\<close>

definition pending_mut :: "active_monitors \<Rightarrow> u64 \<Rightarrow> bytes \<Rightarrow> (pending_buffer \<Rightarrow> pending_buffer) \<Rightarrow> active_monitors option" where
  "pending_mut st conn_id sub_id f =
     Option.bind (entry st conn_id sub_id) (\<lambda>e. Some (case e of None \<Rightarrow> st
       | Some e \<Rightarrow> set_entry st conn_id sub_id (e\<lparr> mo_pending := map_option f (mo_pending e) \<rparr>)))"

definition finish_pending :: "active_monitors \<Rightarrow> u64 \<Rightarrow> bytes \<Rightarrow> u64 \<Rightarrow> u64 \<Rightarrow> (active_monitors \<times> pending_buffer option) option" where
  "finish_pending st conn_id sub_id generation delivered =
     Option.bind (entry st conn_id sub_id) (\<lambda>e. Some (case e of None \<Rightarrow> (st, None)
       | Some e \<Rightarrow> if sub_generation (mo_sub e) \<noteq> generation then (st, None)
         else (case mo_pending e of None \<Rightarrow> (st, None)
           | Some buffer \<Rightarrow> (set_entry st conn_id sub_id (e\<lparr> mo_pending := None, mo_sub := (mo_sub e)\<lparr> sub_latest_event_id :=
               max (sub_latest_event_id (mo_sub e)) delivered \<rparr> \<rparr>), Some buffer))))"

definition pending_generation :: "active_monitors \<Rightarrow> u64 \<Rightarrow> bytes \<Rightarrow> u64 option option" where
  "pending_generation st conn_id sub_id = Option.bind (entry st conn_id sub_id) (\<lambda>e. Some (Option.bind e (\<lambda>e.
     map_option (\<lambda>_. sub_generation (mo_sub e)) (mo_pending e))))"

section \<open>Matching events\<close>

definition add_posting :: "u64 \<Rightarrow> u64 \<Rightarrow> u64 list \<times> nat list \<Rightarrow> posting \<Rightarrow> (u64 list \<times> nat list) option" where
  "add_posting pass kind = (\<lambda>(seen, candidates) p.
     if po_kinds p AND kind = 0 then Some (seen, candidates)
     else Option.bind (nth_opt seen (po_slot p)) (\<lambda>last_pass.
       Some (if last_pass \<noteq> pass then (seen[po_slot p := pass], candidates @ [po_slot p]) else (seen, candidates))))"

definition collect :: "active_monitors \<Rightarrow> packed_event \<Rightarrow> bool \<Rightarrow> active_monitors option" where
  "collect st ev search_only =
     (let pass = am_pass st + 1;
          add = (\<lambda>bucket s. Option.bind s (\<lambda>s. opt_fold (add_posting pass (kind_bit (ev_kind ev))) s bucket));
          s0 = Some (am_seen st, []);
          s1 = if \<not> search_only then index_lookup (am_index st) ev add s0 else s0
      in Option.bind (index_lookup (am_search st) ev add s1) (\<lambda>(seen, candidates).
        Some (st\<lparr> am_pass := pass, am_seen := seen, am_candidates := candidates \<rparr>)))"

definition process_slot :: "u64 option \<Rightarrow> packed_event \<Rightarrow> bytes list option \<Rightarrow> monitored option list \<times> recipient list \<Rightarrow> nat \<Rightarrow>
    (monitored option list \<times> recipient list) option" where
  "process_slot lev_id ev search_terms = (\<lambda>(slots, recipients) slot.
     Option.bind (nth_opt slots slot) (\<lambda>e. Option.bind e (\<lambda>e.
     let sub = mo_sub e in
     if (case lev_id of None \<Rightarrow> False | Some lev_id \<Rightarrow> lev_id \<le> sub_latest_event_id sub) then Some (slots, recipients)
     else if group_match_with_search_terms (sub_filter_group sub) ev search_terms then
       Some (case lev_id of None \<Rightarrow> slots
           | Some lev_id \<Rightarrow> slots[slot := Some (e\<lparr> mo_sub := sub\<lparr> sub_latest_event_id := lev_id \<rparr> \<rparr>)],
         recipients @ [\<lparr> rc_conn_id = sub_conn_id sub, rc_sub_id = sub_sub_id sub, rc_pending = (mo_pending e \<noteq> None),
           rc_generation = sub_generation sub \<rparr>])
     else Some (slots, recipients))))"

definition process_inner :: "active_monitors \<Rightarrow> u64 option \<Rightarrow> packed_event \<Rightarrow> bytes list option \<Rightarrow> (active_monitors \<times> recipient list) option" where
  "process_inner st lev_id ev search_terms =
     Option.bind (collect st ev False) (\<lambda>st1.
     Option.bind (opt_fold (process_slot lev_id ev search_terms) (am_slots st1, []) (am_candidates st1)) (\<lambda>(slots, recipients).
     Some (st1\<lparr> am_slots := slots \<rparr>, sort_key (\<lambda>r. (rc_conn_id r, rc_sub_id r)) recipients)))"

definition process :: "active_monitors \<Rightarrow> u64 \<Rightarrow> packed_event \<Rightarrow> bytes list option \<Rightarrow> (active_monitors \<times> recipient list) option" where
  "process st lev_id ev search_terms = process_inner st (Some lev_id) ev search_terms"

definition process_ephemeral :: "active_monitors \<Rightarrow> packed_event \<Rightarrow> bytes list option \<Rightarrow> (active_monitors \<times> recipient list) option" where
  "process_ephemeral st ev search_terms = process_inner st None ev search_terms"

definition requires_content :: "active_monitors \<Rightarrow> bool" where
  "requires_content st \<longleftrightarrow> am_content st \<noteq> 0"

definition slot_needs_content :: "active_monitors \<Rightarrow> packed_event \<Rightarrow> bool \<Rightarrow> nat \<Rightarrow> bool option" where
  "slot_needs_content st ev any slot =
     (if any then Some True
      else Option.bind (nth_opt (am_slots st) slot) (\<lambda>e. Some (case e of None \<Rightarrow> False
        | Some e \<Rightarrow> list_ex (\<lambda>f. f_search f \<noteq> None \<and> does_match_without_search f ev) (fg_filters (sub_filter_group (mo_sub e))))))"

definition event_requires_content :: "active_monitors \<Rightarrow> packed_event \<Rightarrow> (active_monitors \<times> bool) option" where
  "event_requires_content st ev =
     (if \<not> requires_content st then Some (st, False)
      else Option.bind (collect st ev True) (\<lambda>st1.
        Option.bind (opt_fold (slot_needs_content st1 ev) False (am_candidates st1)) (\<lambda>b. Some (st1, b))))"

end
