(* ===== verification/Query_Match.thy ===== *)
theory Query_Match
  imports Query_Filter
begin

text \<open>
  Compiled filters against the JSON they were compiled from: what each compiled set holds, that matching a
  request is matching one of its filter objects read as JSON, and that a scoped request names the events
  it matches.
\<close>

section \<open>The tags a filter sees\<close>

text \<open>The tags of a record that are not the empty \<open>d\<close> packing adds, whether or not the record was well
  formed.\<close>

function visible_tags :: "bool \<Rightarrow> bool \<Rightarrow> bool \<Rightarrow> bool \<Rightarrow> bytes \<Rightarrow> packed_tag list" where
  "visible_tags r a f d b =
     (if length b < 2 \<or> length b - 2 < unat (b ! 1) then []
      else let val = take (unat (b ! 1)) (drop 2 b); rest = drop (unat (b ! 1)) (drop 2 b); d' = (d \<or> b ! 0 = 0x64) in
        if b ! 0 = 0x64 \<and> val = [] \<and> (r \<and> f \<or> a \<and> d \<and> rest = []) then visible_tags r a False d' rest
        else (b ! 0, val) # visible_tags r a False d' rest)"
  by pat_completeness auto
termination
  by (relation "measure (\<lambda>(r, a, f, d, b). length b)") auto

declare visible_tags.simps [simp del]

lemma walk_loop_visible:
  "snd (walk_loop (filter_cb r a cb) b ((f, d), s)) = run_tags (visible_tags r a f d b) cb s"
proof (induction r a f d b arbitrary: s rule: visible_tags.induct)
  case (1 r a f d b)
  show ?case
  proof (cases "length b < 2 \<or> length b - 2 < unat (b ! 1)")
    case True
    then show ?thesis by (subst walk_loop.simps, subst visible_tags.simps) (auto simp: Let_def)
  next
    case False
    note IH = 1(1) [OF False refl refl refl] 1(2) [OF False refl refl refl]
    show ?thesis using False IH
      by (subst walk_loop.simps, subst visible_tags.simps) (auto simp: Let_def filter_cb_step split: prod.split)
  qed
qed

lemma foreach_filter_run: "foreach_filter_tag cb p s = run_tags (filter_tags p) cb s"
  by (simp add: filter_tags_def foreach_filter_tag_def walk_tags_def walk_loop_visible run_tags_append Let_def)

lemma run_tags_found:
  "run_tags ts (\<lambda>name val found. if hit name val then (False, True) else (True, found)) found \<longleftrightarrow>
     found \<or> (\<exists>(n, v) \<in> set ts. hit n v)"
proof (induction ts arbitrary: found)
  case (Cons t ts)
  obtain n v where "t = (n, v)" by fastforce
  then show ?case using Cons.IH by (cases "hit n v") auto
qed simp

lemma some_filter_tag_iff: "some_filter_tag hit ev \<longleftrightarrow> (\<exists>(n, v) \<in> set (filter_tags ev). hit n v)"
  by (simp add: some_filter_tag_def foreach_filter_run run_tags_found)

section \<open>What the sets hold\<close>

lemma map_err_eq_Inr [res_simps]: "map_err f r = Inr x \<longleftrightarrow> r = Inr x"
  by (cases r) (simp_all add: map_err_def)

text \<open>The form a filter's string has in packed events, and the forms of a list of strings.\<close>

definition packed_form :: "ext \<Rightarrow> bool \<Rightarrow> bytes \<Rightarrow> bytes" where
  "packed_form X hexd s = indexed_tag_value X (if hexd then projr (from_lower_hex_exact X s) else s)"

definition wanted :: "ext \<Rightarrow> bool \<Rightarrow> value list \<Rightarrow> bytes set" where
  "wanted X hexd arr = {packed_form X hexd s | s. String s \<in> set arr}"

lemma wanted_simps [simp]:
  "wanted X hexd [] = {}" "wanted X hexd (String s # arr) = insert (packed_form X hexd s) (wanted X hexd arr)"
  by (auto simp: wanted_def)

lemma fsb_item_Inr:
  assumes "fsb_item X hexd mn mx (items, originals) i = Inr st"
  shows "\<exists>s. i = String s \<and> fst st = items @ [packed_form X hexd s]"
proof -
  let ?r = "\<lambda>s. if hexd then map_err (\<lambda>e. QMessage (event_error_text e)) (from_lower_hex_exact X s) else Inr s"
  let ?k = "\<lambda>b. if length b < mn then Inl (QMessage ''filter item too small'')
      else if mx < length b then Inl (QMessage ''filter item too large'')
      else if MAX_INDEXED_TAG_VAL_SIZE < length b then
        (let hashed = indexed_tag_value X b in Inr (items @ [hashed], btree_insert hashed b originals))
      else Inr (items @ [b], originals)"
  from assms obtain s b where s: "i = String s" "?r s = Inr b" and k: "?k b = Inr st"
    unfolding fsb_item_def prod.case rbind_eq_Inr ok_or_eq_Inr as_Some by blast
  from s have "packed_form X hexd s = indexed_tag_value X b"
    by (cases hexd) (simp_all add: packed_form_def map_err_eq_Inr)
  moreover from k have "fst st = items @ [indexed_tag_value X b]"
    by (auto simp: indexed_tag_value_def Let_def split: if_splits)
  ultimately show ?thesis using s(1) by simp
qed

lemma try_fold_fsb:
  "try_fold (fsb_item X hexd mn mx) st arr = Inr st' \<Longrightarrow> set (fst st') = set (fst st) \<union> wanted X hexd arr \<and>
    (arr \<noteq> [] \<longrightarrow> fst st' \<noteq> [])"
proof (induction arr arbitrary: st)
  case (Cons i arr)
  obtain items originals where st: "st = (items, originals)" by fastforce
  from Cons.prems obtain st1 where st1: "fsb_item X hexd mn mx (items, originals) i = Inr st1"
      "try_fold (fsb_item X hexd mn mx) st1 arr = Inr st'"
    by (auto simp: st res_simps)
  obtain s where s: "i = String s" "fst st1 = items @ [packed_form X hexd s]" using fsb_item_Inr [OF st1(1)] by blast
  from Cons.IH [OF st1(2)] st1(2) s show ?case by (cases arr) (simp_all add: st)
qed simp

lemma fsb_parse_Inr:
  assumes "fsb_parse X v hexd mn mx = Inr fs"
  obtains arr where "v = Array arr" "sorted_wrt (<) (fs_items fs)" "set (fs_items fs) = wanted X hexd arr"
    "arr \<noteq> [] \<Longrightarrow> fs_items fs \<noteq> []" "sum_list (map (\<lambda>item. length (fs_original_of (fs_originals fs) item)) (fs_items fs)) \<le> 65535"
proof -
  from assms obtain arr st where "v = Array arr" "try_fold (fsb_item X hexd mn mx) ([], []) arr = Inr st"
      "fs_items fs = remdups_adj (sort (fst st))" "fs_originals fs = snd st"
      "sum_list (map (\<lambda>item. length (fs_original_of (fs_originals fs) item)) (fs_items fs)) \<le> 65535"
    by (auto simp: fsb_parse_def res_simps Let_def not_less split: prod.splits if_splits)
  moreover have "remdups_adj (sort (fst st)) = [] \<longleftrightarrow> fst st = []"
    by (metis remdups_adj_Nil_iff set_empty set_sort)
  ultimately show thesis
    using that [of arr] try_fold_fsb [of X hexd mn mx "([], [])" arr st] by (simp add: strict_sorted_remdups_adj)
qed

lemma fsu_parse_Inr:
  assumes "fsu_parse v = Inr fu"
  obtains arr where "v = Array arr" "sorted_wrt (<) (fu_items fu)" "set (fu_items fu) = {n. Number (PosInt n) \<in> set arr}"
proof -
  have "try_fold fsu_item acc arr = Inr ns \<Longrightarrow> set ns = set acc \<union> {n. Number (PosInt n) \<in> set arr}" for acc arr ns
    by (induction arr arbitrary: acc) (auto simp: fsu_item_def res_simps split: if_splits)
  then show thesis using assms that by (fastforce simp: fsu_parse_def res_simps strict_sorted_remdups_adj)
qed

lemma fs_match_iff: "sorted_wrt (<) (fs_items fs) \<Longrightarrow> fs_match fs c \<longleftrightarrow> c \<in> set (fs_items fs)"
  by (simp add: fs_match_def binary_search_correct strict_sorted_iff)

lemma fu_match_iff: "sorted_wrt (<) (fu_items fu) \<Longrightarrow> fu_match fu c \<longleftrightarrow> c \<in> set (fu_items fu)"
  by (simp add: fu_match_def binary_search_correct strict_sorted_iff)

section \<open>What a compiled filter holds\<close>

text \<open>\<open>holds_set X hexd v s\<close>: the set \<open>s\<close> was compiled from the member \<open>v\<close>; \<open>filter_holds\<close> says so of every
  part of a filter compiled from the members \<open>M\<close> of an object.\<close>

definition holds_set :: "ext \<Rightarrow> bool \<Rightarrow> value option \<Rightarrow> filter_set_bytes option \<Rightarrow> bool" where
  "holds_set X hexd v s = (case s of
     None \<Rightarrow> v = None \<or> v = Some (Array [])
   | Some fs \<Rightarrow> \<exists>arr. arr \<noteq> [] \<and> v = Some (Array arr) \<and> sorted_wrt (<) (fs_items fs) \<and> set (fs_items fs) = wanted X hexd arr \<and>
       fs_items fs \<noteq> [])"

definition hex_tag :: "u8 \<Rightarrow> bool" where
  "hex_tag x \<longleftrightarrow> x = 0x70 \<or> x = 0x65"

definition empty_list_key :: "bytes \<Rightarrow> bool" where
  "empty_list_key k \<longleftrightarrow> k = str ''ids'' \<or> k = str ''authors'' \<or> k = str ''kinds'' \<or> (\<exists>x. k = [0x23, x])"

definition has_empty_list :: "(bytes \<Rightarrow> value option) \<Rightarrow> bool" where
  "has_empty_list M \<longleftrightarrow> (\<exists>k. empty_list_key k \<and> M k = Some (Array []))"

definition holds_kinds :: "value option \<Rightarrow> filter_set_uint option \<Rightarrow> bool" where
  "holds_kinds v s = (case s of
     None \<Rightarrow> v = None \<or> v = Some (Array [])
   | Some fu \<Rightarrow> \<exists>arr. v = Some (Array arr) \<and> sorted_wrt (<) (fu_items fu) \<and> set (fu_items fu) = {n. Number (PosInt n) \<in> set arr})"

definition holds_num :: "u64 \<Rightarrow> value option \<Rightarrow> u64 \<Rightarrow> bool" where
  "holds_num d v t = (case v of None \<Rightarrow> t = d | Some v \<Rightarrow> v = Number (PosInt t))"

definition holds_query :: "unicode \<Rightarrow> value option \<Rightarrow> search_query option \<Rightarrow> bool" where
  "holds_query U v q = (case q of None \<Rightarrow> v = None | Some q \<Rightarrow> \<exists>s. v = Some (String s) \<and> parse_search_query U s = Inr q)"

definition holds_lists :: "ext \<Rightarrow> (bytes \<Rightarrow> value option) \<Rightarrow> nostr_filter \<Rightarrow> bool" where
  "holds_lists X M f \<longleftrightarrow>
     holds_set X True (M (str ''ids'')) (f_ids f) \<and> holds_set X True (M (str ''authors'')) (f_authors f) \<and>
     holds_kinds (M (str ''kinds'')) (f_kinds f) \<and> f_never_match f = has_empty_list M"

definition holds_tags :: "ext \<Rightarrow> (bytes \<Rightarrow> value option) \<Rightarrow> nostr_filter \<Rightarrow> bool" where
  "holds_tags X M f \<longleftrightarrow> btree_keys (f_tags f) \<and> btree_keys (f_and_tags f) \<and>
     (\<forall>x. holds_set X (hex_tag x) (M [0x23, x]) (map_of (f_tags f) x)) \<and>
     (\<forall>x. holds_set X (hex_tag x) (M [0x26, x]) (map_of (f_and_tags f) x) \<and> M [0x26, x] \<noteq> Some (Array []))"

definition holds_scalars :: "unicode \<Rightarrow> (bytes \<Rightarrow> value option) \<Rightarrow> nostr_filter \<Rightarrow> bool" where
  "holds_scalars U M f \<longleftrightarrow> holds_num 0 (M (str ''since'')) (f_since f) \<and> holds_num (- 1) (M (str ''until'')) (f_until f) \<and>
     holds_query U (M (str ''search'')) (f_search f)"

definition filter_holds :: "ext \<Rightarrow> unicode \<Rightarrow> (bytes \<Rightarrow> value option) \<Rightarrow> nostr_filter \<Rightarrow> bool" where
  "filter_holds X U M f \<longleftrightarrow> holds_lists X M f \<and> holds_tags X M f \<and> holds_scalars U M f"

lemma inj_of_char: "inj (of_char :: char \<Rightarrow> u8)"
proof (rule injI)
  fix c d :: char assume "(of_char c :: u8) = of_char d"
  then have "unat (of_char c :: u8) = unat (of_char d :: u8)" by simp
  moreover have "unat (of_char c :: u8) = of_char c" for c
    using unat_of_nat [of "of_char c", where 'a = 8] by (simp add: of_nat_of_char)
  ultimately show "c = d" by simp
qed

lemma str_eq_iff: "str s = str t \<longleftrightarrow> s = t"
  by (simp add: str_def inj_map_eq_map [OF inj_of_char])

lemma pair_not_str: "length s \<noteq> 2 \<Longrightarrow> [a, x] \<noteq> str s" "length s \<noteq> 2 \<Longrightarrow> str s \<noteq> [a, x]"
  by (metis length_str length_Cons list.size(3) numeral_2_eq_2)+

lemma filter_holds_empty: "filter_holds X U Map.empty empty_filter"
  by (simp add: filter_holds_def holds_lists_def holds_tags_def holds_scalars_def empty_filter_def holds_set_def
    has_empty_list_def holds_kinds_def holds_num_def holds_query_def)

lemma holds_set_parse:
  assumes "fsb_parse X v hexd mn mx = Inr s" "v \<noteq> Array []"
  shows "holds_set X hexd (Some v) (Some s)"
  using assms by (auto simp: holds_set_def elim: fsb_parse_Inr)

lemma key_tag_shape:
  assumes "starts_with k (str [c])" "length k = 2"
  shows "k = [of_char c, k ! 1]"
  using assms by (cases k rule: remdups_adj.cases) (auto simp: starts_with_def)

text \<open>Each member changes only its own part.\<close>

lemmas holds_defs = filter_holds_def holds_lists_def holds_tags_def holds_scalars_def

lemma has_empty_list_upd:
  "M k = None \<Longrightarrow> has_empty_list (M(k \<mapsto> v)) \<longleftrightarrow> has_empty_list M \<or> empty_list_key k \<and> v = Array []"
  unfolding has_empty_list_def fun_upd_apply by (metis option.inject option.distinct(1))

lemma holds_none:
  "holds_set X hexd None s \<longleftrightarrow> s = None" "holds_kinds None u \<longleftrightarrow> u = None" "holds_query U None q \<longleftrightarrow> q = None"
  "holds_set X hexd (Some (Array [])) None" "holds_kinds (Some (Array [])) None"
  by (auto simp: holds_set_def holds_kinds_def holds_query_def split: option.splits)

lemma holds_some:
  "holds_num d (Some (Number (PosInt t))) t"
  "parse_search_query U s = Inr q \<Longrightarrow> holds_query U (Some (String s)) (Some q)"
  "fsu_parse v = Inr u \<Longrightarrow> holds_kinds (Some v) (Some u)"
  by (auto simp: holds_num_def holds_query_def holds_kinds_def elim: fsu_parse_Inr)

lemma empty_list_keys:
  "empty_list_key (str ''ids'')" "empty_list_key (str ''authors'')" "empty_list_key (str ''kinds'')"
  "empty_list_key [0x23, x]" "\<not> empty_list_key [0x26, x]"
  "\<not> empty_list_key (str ''since'')" "\<not> empty_list_key (str ''until'')" "\<not> empty_list_key (str ''limit'')"
  "\<not> empty_list_key (str ''search'')"
  by (simp_all add: empty_list_key_def str_eq_iff pair_not_str del: str_simps)

lemmas step_simps = str_eq_iff pair_not_str empty_list_keys has_empty_list_upd holds_none holds_some

lemma key_ids_holds:
  assumes "filter_holds X U M f" "M (str ''ids'') = None" "key_ids X v (f, n) = Inr (f', n')"
  shows "filter_holds X U (M(str ''ids'' \<mapsto> v)) f'"
proof (cases "v = Array []")
  case True
  then have "f' = f \<lparr> f_never_match := True \<rparr>" using assms(3) by (simp add: key_ids_def)
  with True assms(1,2) show ?thesis by (simp add: holds_defs step_simps del: str_simps)
next
  case False
  then obtain s where "fsb_parse X v True 32 32 = Inr s" "f' = f \<lparr> f_ids := Some s \<rparr>"
    using assms(3) by (auto simp: key_ids_def res_simps split: if_splits)
  with False assms(1,2) holds_set_parse show ?thesis by (simp add: holds_defs step_simps del: str_simps)
qed

lemma key_authors_holds:
  assumes "filter_holds X U M f" "M (str ''authors'') = None" "key_authors X v (f, n) = Inr (f', n')"
  shows "filter_holds X U (M(str ''authors'' \<mapsto> v)) f'"
proof (cases "v = Array []")
  case True
  then have "f' = f \<lparr> f_never_match := True \<rparr>" using assms(3) by (simp add: key_authors_def)
  with True assms(1,2) show ?thesis by (simp add: holds_defs step_simps del: str_simps)
next
  case False
  then obtain s where "fsb_parse X v True 32 32 = Inr s" "f' = f \<lparr> f_authors := Some s \<rparr>"
    using assms(3) by (auto simp: key_authors_def res_simps split: if_splits)
  with False assms(1,2) holds_set_parse show ?thesis by (simp add: holds_defs step_simps del: str_simps)
qed

lemma key_kinds_holds:
  assumes "filter_holds X U M f" "M (str ''kinds'') = None" "key_kinds v (f, n) = Inr (f', n')"
  shows "filter_holds X U (M(str ''kinds'' \<mapsto> v)) f'"
proof (cases "v = Array []")
  case True
  then have "f' = f \<lparr> f_never_match := True \<rparr>" using assms(3) by (simp add: key_kinds_def)
  with True assms(1,2) show ?thesis by (simp add: holds_defs step_simps del: str_simps)
next
  case False
  then obtain s where s: "fsu_parse v = Inr s" "f' = f \<lparr> f_kinds := Some s \<rparr>"
    using assms(3) by (auto simp: key_kinds_def res_simps split: if_splits)
  with False assms(1,2) show ?thesis by (simp add: holds_defs step_simps del: str_simps)
qed

lemma parse_tag_set_holds:
  "parse_tag_set X x v = Inr s \<Longrightarrow> v \<noteq> Array [] \<Longrightarrow> holds_set X (hex_tag x) (Some v) (Some s)"
  by (cases "hex_tag x") (auto simp: parse_tag_set_def parse_tag_values_def hex_tag_def res_simps intro: holds_set_parse)

lemma key_tag_holds:
  assumes "filter_holds X U M f" "M k = None" "key_tag X k v (f, n) = Inr (f', n')" "starts_with k (str ''#'')"
  shows "filter_holds X U (M(k \<mapsto> v)) f'"
proof -
  have "length k = 2" using assms(3) by (auto simp: key_tag_def split: if_splits)
  with key_tag_shape [OF assms(4)] obtain x where k: "k = [0x23, x]" by auto
  show ?thesis
  proof (cases "v = Array []")
    case True
    then have "f' = f \<lparr> f_never_match := True \<rparr>" using assms(3) by (simp add: key_tag_def split: if_splits)
    moreover have "holds_set X (hex_tag x) (M [0x23, x]) (map_of (f_tags f) x)" using assms(1) by (simp add: holds_defs)
    then have "map_of (f_tags f) x = None" using assms(2) by (simp add: k holds_none)
    ultimately show ?thesis using True assms(1,2) by (simp add: k holds_defs step_simps del: str_simps)
  next
    case False
    then obtain s where "parse_tag_set X x v = Inr s" "f' = f \<lparr> f_tags := btree_insert x s (f_tags f) \<rparr>"
      using assms(3) by (auto simp: k key_tag_def res_simps split: if_splits)
    with False assms(1,2) parse_tag_set_holds show ?thesis
      by (simp add: k holds_defs step_simps btree_insert_sorted map_of_btree_insert del: str_simps)
  qed
qed

lemma key_and_tag_holds:
  assumes "filter_holds X U M f" "M k = None" "key_and_tag X k v (f, n) = Inr (f', n')" "starts_with k (str ''&'')"
  shows "filter_holds X U (M(k \<mapsto> v)) f'"
proof -
  have "length k = 2" using assms(3) by (auto simp: key_and_tag_def split: if_splits)
  with key_tag_shape [OF assms(4)] obtain x where k: "k = [0x26, x]" by auto
  have ne: "v \<noteq> Array []" using assms(3) by (auto simp: key_and_tag_def split: if_splits)
  obtain s where "parse_tag_set X x v = Inr s" "f' = f \<lparr> f_and_tags := btree_insert x s (f_and_tags f) \<rparr>"
    using assms(3) by (auto simp: k key_and_tag_def res_simps split: if_splits)
  with ne assms(1,2) parse_tag_set_holds show ?thesis
    by (simp add: k holds_defs step_simps btree_insert_sorted map_of_btree_insert del: str_simps)
qed

lemma parse_key_holds:
  assumes "filter_holds X U M f" "M k = None" "parse_key X U (f, n) (k, v) = Inr (f', n')"
  shows "filter_holds X U (M(k \<mapsto> v)) f'"
proof -
  consider "k = str ''ids''" "key_ids X v (f, n) = Inr (f', n')" | "k = str ''authors''" "key_authors X v (f, n) = Inr (f', n')"
    | "k = str ''kinds''" "key_kinds v (f, n) = Inr (f', n')"
    | "starts_with k (str ''#'')" "key_tag X k v (f, n) = Inr (f', n')" | "starts_with k (str ''&'')" "key_and_tag X k v (f, n) = Inr (f', n')"
    | t where "k = str ''since''" "v = Number (PosInt t)" "f' = f \<lparr> f_since := t \<rparr>"
    | t where "k = str ''until''" "v = Number (PosInt t)" "f' = f \<lparr> f_until := t \<rparr>"
    | t where "k = str ''limit''" "f' = f \<lparr> f_limit := t \<rparr>"
    | "k = str ''search''" "key_search U v (f, n) = Inr (f', n')"
    using assms(3) unfolding parse_key_def prod.case fst_conv snd_conv
    by (simp only: rbind_eq_Inr ok_or_eq_Inr as_Some sum.inject prod.inject sum.distinct split: if_split_asm) blast+
  then show ?thesis
  proof cases
    case 1
    then show ?thesis using key_ids_holds assms by simp
  next
    case 2
    then show ?thesis using key_authors_holds assms by simp
  next
    case 3
    then show ?thesis using key_kinds_holds assms by simp
  next
    case 4
    then show ?thesis using key_tag_holds assms by blast
  next
    case 5
    then show ?thesis using key_and_tag_holds assms by blast
  next
    case 9
    then obtain s q where "v = String s" "parse_search_query U s = Inr q" "f' = f \<lparr> f_search := Some q \<rparr>"
      by (auto simp: key_search_def res_simps)
    with assms(1,2) 9(1) show ?thesis by (simp add: holds_defs step_simps del: str_simps)
  qed (use assms(1,2) in \<open>simp_all add: holds_defs step_simps del: str_simps\<close>)
qed

lemma parse_keys_holds:
  "try_fold (parse_key X U) (f, n) obj = Inr (f', n') \<Longrightarrow> distinct (map fst obj) \<Longrightarrow> filter_holds X U M f \<Longrightarrow>
    (\<forall>k \<in> fst ` set obj. M k = None) \<Longrightarrow> filter_holds X U (M ++ map_of obj) f'"
proof (induction obj arbitrary: f n M)
  case (Cons kv obj)
  obtain k v where kv: "kv = (k, v)" by fastforce
  obtain st where st: "parse_key X U (f, n) kv = Inr st" "try_fold (parse_key X U) st obj = Inr (f', n')"
    using Cons.prems(1) unfolding try_fold.simps rbind_eq_Inr by blast
  obtain f1 n1 where "st = (f1, n1)" by fastforce
  then have step: "parse_key X U (f, n) (k, v) = Inr (f1, n1)" "try_fold (parse_key X U) (f1, n1) obj = Inr (f', n')"
    using st kv by blast+
  have "filter_holds X U (M(k \<mapsto> v)) f1" using parse_key_holds [OF Cons.prems(3) _ step(1)] Cons.prems(4) by (simp add: kv)
  moreover have fresh: "k \<notin> fst ` set obj" "distinct (map fst obj)" using Cons.prems(2) by (simp_all add: kv)
  then have "\<forall>j \<in> fst ` set obj. (M(k \<mapsto> v)) j = None" using Cons.prems(4) by (auto simp: kv)
  ultimately have "filter_holds X U (M(k \<mapsto> v) ++ map_of obj) f'"
    by (intro Cons.IH [OF step(2)] fresh(2))
  moreover have "M(k \<mapsto> v) ++ map_of obj = M ++ map_of (kv # obj)"
    using fresh(1) by (simp add: kv map_add_upd_left dom_map_of_conv_image_fst)
  ultimately show ?case by (simp only:)
qed simp

section \<open>Matching the JSON of a filter\<close>

text \<open>What the members \<open>M\<close> of a filter object ask of an event. A tag condition drops the values an AND
  condition on the same letter requires; it asks for nothing if all its values are dropped that way.\<close>

definition required :: "ext \<Rightarrow> (bytes \<Rightarrow> value option) \<Rightarrow> u8 \<Rightarrow> bytes set" where
  "required X M x = (case M [0x26, x] of Some (Array arr) \<Rightarrow> wanted X (hex_tag x) arr | _ \<Rightarrow> {})"

definition json_matches :: "ext \<Rightarrow> unicode \<Rightarrow> (bytes \<Rightarrow> value option) \<Rightarrow> packed_event \<Rightarrow> bytes list option \<Rightarrow> bool" where
  "json_matches X U M ev terms \<longleftrightarrow>
     (\<forall>arr. M (str ''ids'') = Some (Array arr) \<longrightarrow> ev_id ev \<in> wanted X True arr) \<and>
     (\<forall>arr. M (str ''authors'') = Some (Array arr) \<longrightarrow> ev_pubkey ev \<in> wanted X True arr) \<and>
     (\<forall>arr. M (str ''kinds'') = Some (Array arr) \<longrightarrow> Number (PosInt (ev_kind ev)) \<in> set arr) \<and>
     (\<forall>t. M (str ''since'') = Some (Number (PosInt t)) \<longrightarrow> t \<le> ev_created_at ev) \<and>
     (\<forall>t. M (str ''until'') = Some (Number (PosInt t)) \<longrightarrow> ev_created_at ev \<le> t) \<and>
     (\<forall>x arr. M [0x23, x] = Some (Array arr) \<longrightarrow> arr \<noteq> [] \<and>
       (wanted X (hex_tag x) arr \<subseteq> required X M x \<or>
        (\<exists>c \<in> wanted X (hex_tag x) arr - required X M x. (x, c) \<in> set (filter_tags ev)))) \<and>
     (\<forall>x. \<forall>c \<in> required X M x. (x, c) \<in> set (filter_tags ev)) \<and>
     (\<forall>s. M (str ''search'') = Some (String s) \<longrightarrow>
       (\<exists>q ts. parse_search_query U s = Inr q \<and> terms = Some ts \<and> set (sq_terms q) \<subseteq> set ts))"

lemma foldl_remove_required:
  "distinct (map fst ands) \<Longrightarrow> foldl remove_required tags ands =
    map (\<lambda>(t, alt). (t, case map_of ands t of Some r \<Rightarrow> fs_remove_all alt r | None \<Rightarrow> alt)) tags"
proof (induction ands arbitrary: tags)
  case (Cons a ands)
  obtain t r where a: "a = (t, r)" by fastforce
  with Cons.prems have "map_of ands t = None" by (simp add: map_of_eq_None_iff)
  with Cons show ?case by (auto simp: a remove_required_def)
qed simp

text \<open>The alternatives left for a letter.\<close>

definition alternatives :: "nostr_filter \<Rightarrow> u8 \<Rightarrow> filter_set_bytes \<Rightarrow> filter_set_bytes" where
  "alternatives f t alt = (case map_of (f_and_tags f) t of Some r \<Rightarrow> fs_remove_all alt r | None \<Rightarrow> alt)"

lemma filter_parse_Inr:
  assumes "filter_parse X U (Object obj) lim mt ma = Inr f" "btree_keys obj"
  obtains f0 where "filter_holds X U (map_of obj) f0"
    "f_tags f = filter (\<lambda>(_, alt). 0 < fs_size alt) (map (\<lambda>(t, alt). (t, alternatives f0 t alt)) (f_tags f0))"
    "f_ids f = f_ids f0" "f_authors f = f_authors f0" "f_kinds f = f_kinds f0" "f_and_tags f = f_and_tags f0"
    "f_search f = f_search f0" "f_since f = f_since f0" "f_until f = f_until f0" "f_never_match f = f_never_match f0"
    "f_limit f \<le> lim" "tag_key_count f \<le> mt" "sum_list (map (\<lambda>(_, s). fs_size s) (f_and_tags f)) \<le> ma"
proof -
  from assms(1) obtain f0 n where run: "try_fold (parse_key X U) (empty_filter, 0) obj = Inr (f0, n)"
    by (auto simp: filter_parse_def rbind_eq_Inr)
  have h: "filter_holds X U (map_of obj) f0"
    using parse_keys_holds [OF run btree_keys_distinct [OF assms(2)] filter_holds_empty] by simp
  then have "distinct (map fst (f_and_tags f0))" by (simp add: holds_defs strict_sorted_iff)
  note rem = foldl_remove_required [OF this, of "f_tags f0", folded alternatives_def]
  from assms(1) show thesis
    by (intro that [OF h]) (auto simp: filter_parse_def run rem Let_def tag_key_count_def not_less split: if_splits)
qed

lemma holds_set_match:
  assumes "holds_set X hexd v s" "v \<noteq> Some (Array [])"
  shows "(case s of Some fs \<Rightarrow> \<not> fs_match fs c | None \<Rightarrow> False) \<longleftrightarrow> \<not> (\<forall>arr. v = Some (Array arr) \<longrightarrow> c \<in> wanted X hexd arr)"
  using assms by (auto simp: holds_set_def fs_match_iff split: option.splits)

lemma holds_kinds_match:
  assumes "holds_kinds v s" "v \<noteq> Some (Array [])"
  shows "(case s of Some fu \<Rightarrow> \<not> fu_match fu c | None \<Rightarrow> False) \<longleftrightarrow>
    \<not> (\<forall>arr. v = Some (Array arr) \<longrightarrow> Number (PosInt c) \<in> set arr)"
  using assms by (auto simp: holds_kinds_def fu_match_iff split: option.splits)

lemma holds_num_bounds:
  "holds_num 0 v t \<Longrightarrow> t \<le> c \<longleftrightarrow> (\<forall>u. v = Some (Number (PosInt u)) \<longrightarrow> u \<le> c)"
  "holds_num (- 1) v t \<Longrightarrow> c \<le> t \<longleftrightarrow> (\<forall>u. v = Some (Number (PosInt u)) \<longrightarrow> c \<le> u)"
  by (auto simp: holds_num_def split: option.splits)

lemma fs_remove_all_items:
  "sorted_wrt (<) (fs_items r) \<Longrightarrow> fs_items (fs_remove_all alt r) = filter (\<lambda>i. i \<notin> set (fs_items r)) (fs_items alt)"
  by (simp add: fs_remove_all_def fs_match_iff)

lemma holds_required:
  assumes "holds_tags X M f"
  shows "required X M x = (case map_of (f_and_tags f) x of None \<Rightarrow> {} | Some r \<Rightarrow> set (fs_items r))"
    "map_of (f_and_tags f) x = Some r \<Longrightarrow> sorted_wrt (<) (fs_items r)"
proof -
  have "holds_set X (hex_tag x) (M [0x26, x]) (map_of (f_and_tags f) x)" "M [0x26, x] \<noteq> Some (Array [])"
    using assms unfolding holds_tags_def by blast+
  note hs = this
  show "map_of (f_and_tags f) x = Some r \<Longrightarrow> sorted_wrt (<) (fs_items r)"
    using hs(1) by (auto simp: holds_set_def)
  show "required X M x = (case map_of (f_and_tags f) x of None \<Rightarrow> {} | Some r \<Rightarrow> set (fs_items r))"
  proof (cases "map_of (f_and_tags f) x")
    case None
    then have "M [0x26, x] = None" using hs by (simp add: holds_set_def)
    then show ?thesis by (simp add: required_def None)
  next
    case (Some r)
    then obtain arr where "M [0x26, x] = Some (Array arr)" "set (fs_items r) = wanted X (hex_tag x) arr"
      using hs(1) by (auto simp: holds_set_def)
    then show ?thesis by (simp add: required_def Some)
  qed
qed

lemma holds_alternatives:
  assumes "holds_tags X M f" "map_of (f_tags f) x = Some alt"
  obtains arr where "M [0x23, x] = Some (Array arr)" "arr \<noteq> []" "sorted_wrt (<) (fs_items (alternatives f x alt))"
    "set (fs_items (alternatives f x alt)) = wanted X (hex_tag x) arr - required X M x"
proof -
  have "holds_set X (hex_tag x) (M [0x23, x]) (Some alt)" using assms by (metis holds_tags_def)
  then obtain arr where "M [0x23, x] = Some (Array arr)" "arr \<noteq> []" "sorted_wrt (<) (fs_items alt)"
      "set (fs_items alt) = wanted X (hex_tag x) arr"
    by (auto simp: holds_set_def)
  then show thesis using that holds_required [OF assms(1), of x]
    by (auto simp: alternatives_def fs_remove_all_items sorted_wrt_filter split: option.splits)
qed

lemma and_tags_match:
  assumes "holds_tags X M f"
  shows "list_all (\<lambda>(tag, r). list_all (\<lambda>v. some_filter_tag (\<lambda>name candidate. name = tag \<and> candidate = v) ev) (fs_items r)) (f_and_tags f) \<longleftrightarrow>
    (\<forall>x. \<forall>c \<in> required X M x. (x, c) \<in> set (filter_tags ev))"
proof -
  have "distinct (map fst (f_and_tags f))" using assms by (simp add: holds_tags_def strict_sorted_iff)
  then have "(x, r) \<in> set (f_and_tags f) \<longleftrightarrow> map_of (f_and_tags f) x = Some r" for x r by simp
  then show ?thesis
    by (fastforce simp: list_all_iff some_filter_tag_iff holds_required(1) [OF assms] split: option.splits)
qed

lemma tags_match:
  assumes "holds_tags X M f" "\<And>x. M [0x23, x] \<noteq> Some (Array [])"
    and "tags = filter (\<lambda>(_, alt). 0 < fs_size alt) (map (\<lambda>(t, alt). (t, alternatives f t alt)) (f_tags f))"
  shows "list_all (\<lambda>(tag, filt). some_filter_tag (\<lambda>name val. name = tag \<and> fs_match filt val) ev) tags \<longleftrightarrow>
    (\<forall>x arr. M [0x23, x] = Some (Array arr) \<longrightarrow> arr \<noteq> [] \<and>
       (wanted X (hex_tag x) arr \<subseteq> required X M x \<or>
        (\<exists>c \<in> wanted X (hex_tag x) arr - required X M x. (x, c) \<in> set (filter_tags ev))))" (is "?l \<longleftrightarrow> (\<forall>x arr. ?r x arr)")
proof -
  have "distinct (map fst (f_tags f))" using assms(1) by (simp add: holds_tags_def strict_sorted_iff)
  then have mem: "(x, alt) \<in> set (f_tags f) \<longleftrightarrow> map_of (f_tags f) x = Some alt" for x alt by simp
  let ?p = "\<lambda>x alt. fs_items (alternatives f x alt) = [] \<or> (\<exists>c \<in> set (fs_items (alternatives f x alt)). (x, c) \<in> set (filter_tags ev))"
  have "?l \<longleftrightarrow> (\<forall>x alt. map_of (f_tags f) x = Some alt \<longrightarrow> ?p x alt)"
  proof -
    have "fs_match (alternatives f x alt) c \<longleftrightarrow> c \<in> set (fs_items (alternatives f x alt))" if "map_of (f_tags f) x = Some alt" for x alt c
      using holds_alternatives [OF assms(1) that] fs_match_iff by metis
    then show ?thesis
      unfolding assms(3) by (fastforce simp: list_all_iff some_filter_tag_iff fs_size_def mem)
  qed
  also have "\<dots> \<longleftrightarrow> (\<forall>x arr. ?r x arr)"
  proof (intro iff_allI)
    fix x
    have hs: "holds_set X (hex_tag x) (M [0x23, x]) (map_of (f_tags f) x)" using assms(1) by (simp add: holds_tags_def)
    show "(\<forall>alt. map_of (f_tags f) x = Some alt \<longrightarrow> ?p x alt) \<longleftrightarrow> (\<forall>arr. ?r x arr)"
    proof (cases "map_of (f_tags f) x")
      case None
      with hs assms(2) show ?thesis by (auto simp: holds_set_def)
    next
      case (Some alt)
      from holds_alternatives [OF assms(1) Some] obtain arr where "M [0x23, x] = Some (Array arr)" "arr \<noteq> []"
        "set (fs_items (alternatives f x alt)) = wanted X (hex_tag x) arr - required X M x" by metis
      with Some show ?thesis by (auto simp flip: set_empty)
    qed
  qed
  finally show ?thesis .
qed

lemma empty_list_no_match: "has_empty_list M \<Longrightarrow> \<not> json_matches X U M ev terms"
  by (auto simp: has_empty_list_def empty_list_key_def json_matches_def simp del: str_simps)

lemma holds_query_match:
  "holds_query U v s \<Longrightarrow> (case s of None \<Rightarrow> True | Some query \<Rightarrow> (case terms of None \<Rightarrow> False
      | Some terms \<Rightarrow> list_all (\<lambda>t. t \<in> set terms) (sq_terms query))) \<longleftrightarrow>
    (\<forall>s. v = Some (String s) \<longrightarrow> (\<exists>q ts. parse_search_query U s = Inr q \<and> terms = Some ts \<and> set (sq_terms q) \<subseteq> set ts))"
  by (auto simp: holds_query_def list_all_iff split: option.splits)

lemma filter_matches_json:
  assumes "filter_parse X U (Object obj) lim mt ma = Inr f" "btree_keys obj"
  shows "does_match_with_search_terms f ev terms \<longleftrightarrow> json_matches X U (map_of obj) ev terms"
proof -
  let ?M = "map_of obj"
  from filter_parse_Inr [OF assms] obtain f0 where h: "filter_holds X U ?M f0"
    and t: "f_tags f = filter (\<lambda>(_, alt). 0 < fs_size alt) (map (\<lambda>(t, alt). (t, alternatives f0 t alt)) (f_tags f0))"
    and eq: "f_ids f = f_ids f0" "f_authors f = f_authors f0" "f_kinds f = f_kinds f0" "f_and_tags f = f_and_tags f0"
      "f_search f = f_search f0" "f_since f = f_since f0" "f_until f = f_until f0" "f_never_match f = f_never_match f0"
    by (rule filter_parse_Inr [OF assms])
  have nm: "f_never_match f0 = has_empty_list ?M" and tags: "holds_tags X ?M f0"
    using h by (simp_all add: holds_defs)
  show ?thesis
  proof (cases "has_empty_list ?M")
    case True
    then show ?thesis using nm empty_list_no_match by (simp add: does_match_with_search_terms_def does_match_without_search_def eq)
  next
    case False
    then have ne: "?M k \<noteq> Some (Array [])" if "empty_list_key k" for k using that by (auto simp: has_empty_list_def)
    note ne = this [OF empty_list_keys(1)] this [OF empty_list_keys(2)] this [OF empty_list_keys(3)] this [OF empty_list_keys(4)]
    have ids: "holds_set X True (?M (str ''ids'')) (f_ids f0)" "holds_set X True (?M (str ''authors'')) (f_authors f0)"
      "holds_kinds (?M (str ''kinds'')) (f_kinds f0)" "holds_num 0 (?M (str ''since'')) (f_since f0)"
      "holds_num (- 1) (?M (str ''until'')) (f_until f0)" "holds_query U (?M (str ''search'')) (f_search f0)"
      using h by (simp_all add: holds_defs del: str_simps)
    show ?thesis
      unfolding does_match_with_search_terms_def does_match_without_search_def does_match_times_def eq nm
        holds_set_match [OF ids(1) ne(1)] holds_set_match [OF ids(2) ne(2)] holds_kinds_match [OF ids(3) ne(3)]
        holds_num_bounds(1) [OF ids(4)] holds_num_bounds(2) [OF ids(5)] holds_query_match [OF ids(6)]
        and_tags_match [OF tags] tags_match [OF tags ne(4) t] json_matches_def
      using False by simp
  qed
qed

section \<open>Properties\<close>

lemma from_req_filters:
  "try_fold (add_filter X U lim mt ma) fg items = Inr fg' \<Longrightarrow> list_all (\<lambda>v. wf_value v) items \<Longrightarrow>
    group_match_with_search_terms fg' ev terms \<longleftrightarrow>
      group_match_with_search_terms fg ev terms \<or> (\<exists>obj. Object obj \<in> set items \<and> json_matches X U (map_of obj) ev terms)"
proof (induction items arbitrary: fg)
  case (Cons v items)
  obtain fg1 where fg1: "add_filter X U lim mt ma fg v = Inr fg1" "try_fold (add_filter X U lim mt ma) fg1 items = Inr fg'"
    using Cons.prems(1) unfolding try_fold.simps rbind_eq_Inr by blast
  obtain f where f: "filter_parse X U v lim mt ma = Inr f"
    and g: "fg1 = (if f_never_match f then fg \<lparr> fg_never_matching := fg_never_matching fg + 1 \<rparr> else fg \<lparr> fg_filters := fg_filters fg @ [f] \<rparr>)"
    using fg1(1) by (auto simp: add_filter_def rbind_eq_Inr split: if_splits)
  obtain obj where v: "v = Object obj" using f by (cases v) (simp_all add: filter_parse_def)
  have "btree_keys obj" using Cons.prems(2) by (simp add: v)
  note m = filter_matches_json [OF f [unfolded v] this, of ev terms]
  have "group_match_with_search_terms fg1 ev terms \<longleftrightarrow> group_match_with_search_terms fg ev terms \<or> json_matches X U (map_of obj) ev terms"
    by (simp add: g m [symmetric] group_match_with_search_terms_def does_match_with_search_terms_def does_match_without_search_def)
  with Cons.IH [OF fg1(2)] Cons.prems(2) show ?case by (auto simp: v)
qed simp

text \<open>C3: a request matches an event exactly when one of its filter objects does, read as JSON: every \<open>ids\<close>,
  \<open>authors\<close>, \<open>kinds\<close>, \<open>since\<close>, \<open>until\<close>, tag, AND-tag and \<open>search\<close> member is met by the packed event. Compiling
  the lists (decoding hex, hashing long tag values, sorting, removing duplicates and the values an AND member
  requires, dropping filters with an empty list) and searching them by bisection changes nothing.\<close>

theorem req_matches_json:
  assumes "from_req X U arr lim mt ma = Inr fg" "list_all wf_value arr"
  shows "group_match_with_search_terms fg ev terms \<longleftrightarrow>
    (\<exists>obj. Object obj \<in> set (drop 2 arr) \<and> json_matches X U (map_of obj) ev terms)"
proof -
  have "list_all wf_value (drop 2 arr)" using assms(2) by (meson list_all_iff in_set_dropD)
  then show ?thesis
    using assms(1) from_req_filters [of X U lim mt ma default_group "drop 2 arr" fg ev terms]
    by (simp add: from_req_def default_group_def group_match_with_search_terms_def split: if_splits)
qed

text \<open>A request for an author's articles, with a filter that can never match.\<close>

definition sample_req :: "value list" where
  "sample_req = [String (str ''REQ''), String (str ''s''),
     Object [(str ''authors'', Array [String (concat (replicate 32 (str ''02'')))]), (str ''kinds'', Array [Number (PosInt 30023)])],
     Object [(str ''ids'', Array [])]]"

definition sample_group :: filter_group where
  "sample_group = \<lparr> fg_filters = [empty_filter \<lparr> f_authors := Some \<lparr> fs_items = [replicate 32 2], fs_originals = [] \<rparr>,
     f_kinds := Some \<lparr> fu_items = [30023] \<rparr>, f_limit := 500, f_index_only_scans := True \<rparr>], fg_never_matching = 1 \<rparr>"

lemma author_hex: "from_lower_hex_exact sample_ext (concat (replicate 32 (str ''02''))) = Inr (replicate 32 2)"
  by code_simp

lemma sample_req_group: "from_req sample_ext ascii_unicode sample_req 500 3 16 = Inr sample_group"
proof -
  have "fsb_parse sample_ext (Array [String (concat (replicate 32 (str ''02'')))]) True 32 32 =
      Inr \<lparr> fs_items = [replicate 32 2], fs_originals = [] \<rparr>"
    by (simp add: fsb_parse_def fsb_item_def author_hex map_err_def fs_original_of_def MAX_INDEXED_TAG_VAL_SIZE_def
        del: str_simps concat.simps)
  moreover have "fsu_parse (Array [Number (PosInt 30023)]) = Inr \<lparr> fu_items = [30023] \<rparr>"
    by (simp add: fsu_parse_def fsu_item_def)
  ultimately show ?thesis
    by (simp add: from_req_def sample_req_def add_filter_def filter_parse_def parse_key_def key_authors_def key_kinds_def
        key_ids_def map_err_def str_eq_iff tag_key_count_def default_group_def sample_group_def empty_filter_def Let_def
        del: str_simps concat.simps)
qed

lemma article_packs: "packs sample_packed (replicate 32 1) (replicate 32 2) 1700000000 30023 0 sample_tags"
  by (simp add: packs_def sample_packed_def sample_tags_def tag_ok_def)

lemma sample_group_matches: "group_match_with_search_terms sample_group sample_packed None"
  using packs_fields(2-4) [OF article_packs]
  by (simp add: group_match_with_search_terms_def sample_group_def does_match_with_search_terms_def does_match_without_search_def
      does_match_times_def empty_filter_def fu_match_iff fs_match_iff)

lemma sample_group_valid:
  "validate \<lparr> fv_max_kinds_per_filter = 1, fv_allowed_kinds = [30023], fv_require_author_or_tag = False,
     fv_require_scoped_filters = True \<rparr> sample_group = Inr ()"
  by code_simp

lemma sample_req_wf: "list_all wf_value sample_req"
  by code_simp

theorem req_matches_json_witness:
  "\<exists>fg. from_req sample_ext ascii_unicode sample_req 500 3 16 = Inr fg \<and>
    (\<exists>obj. Object obj \<in> set (drop 2 sample_req) \<and> json_matches sample_ext ascii_unicode (map_of obj) sample_packed None)"
  using req_matches_json [OF sample_req_group sample_req_wf, of sample_packed None] sample_req_group sample_group_matches by blast

text \<open>\<open>json_names\<close>: the filter object lists the event's id, its author or a value of one of its tags.\<close>

definition json_names :: "ext \<Rightarrow> (bytes \<Rightarrow> value option) \<Rightarrow> packed_event \<Rightarrow> bool" where
  "json_names X M ev \<longleftrightarrow>
     (\<exists>arr. M (str ''ids'') = Some (Array arr) \<and> ev_id ev \<in> wanted X True arr) \<or>
     (\<exists>arr. M (str ''authors'') = Some (Array arr) \<and> ev_pubkey ev \<in> wanted X True arr) \<or>
     (\<exists>(x, c) \<in> set (filter_tags ev). \<exists>arr. (M [0x23, x] = Some (Array arr) \<or> M [0x26, x] = Some (Array arr)) \<and>
        c \<in> wanted X (hex_tag x) arr)"

lemma required_cases: "c \<in> required X M x \<Longrightarrow> \<exists>arr. M [0x26, x] = Some (Array arr) \<and> c \<in> wanted X (hex_tag x) arr"
  unfolding required_def by (cases "M [0x26, x]"; cases "the (M [0x26, x])") simp_all

lemma json_matchesD:
  assumes "json_matches X U M ev terms"
  shows "M (str ''ids'') = Some (Array arr) \<Longrightarrow> ev_id ev \<in> wanted X True arr"
    "M (str ''authors'') = Some (Array arr) \<Longrightarrow> ev_pubkey ev \<in> wanted X True arr"
    "M [0x23, x] = Some (Array arr) \<Longrightarrow> wanted X (hex_tag x) arr \<subseteq> required X M x \<or>
      (\<exists>c \<in> wanted X (hex_tag x) arr - required X M x. (x, c) \<in> set (filter_tags ev))"
    "c \<in> required X M x \<Longrightarrow> (x, c) \<in> set (filter_tags ev)"
  using assms by (simp_all add: json_matches_def del: str_simps)

lemma and_tags_name:
  assumes "holds_tags X M f" "f_and_tags f \<noteq> []" "json_matches X U M ev terms"
  shows "json_names X M ev"
proof -
  obtain x r where xr: "(x, r) \<in> set (f_and_tags f)" using assms(2) by (cases "f_and_tags f") auto
  then have m: "map_of (f_and_tags f) x = Some r" using assms(1) by (simp add: holds_tags_def strict_sorted_iff)
  have "holds_set X (hex_tag x) (M [0x26, x]) (Some r)" using assms(1) m unfolding holds_tags_def by metis
  then obtain c where "c \<in> set (fs_items r)" unfolding holds_set_def by (cases "fs_items r") auto
  then have c: "c \<in> required X M x" using holds_required(1) [OF assms(1), of x] m by simp
  then have "(x, c) \<in> set (filter_tags ev)" using json_matchesD(4) [OF assms(3)] by blast
  with required_cases [OF c] show ?thesis unfolding json_names_def by blast
qed

lemma tags_name:
  assumes "holds_tags X M f" "(x, alt) \<in> set (f_tags f)" "0 < fs_size (alternatives f x alt)" "json_matches X U M ev terms"
  shows "json_names X M ev"
proof -
  have "map_of (f_tags f) x = Some alt" using assms(1,2) by (simp add: holds_tags_def strict_sorted_iff)
  from holds_alternatives [OF assms(1) this] obtain arr where arr: "M [0x23, x] = Some (Array arr)"
    "set (fs_items (alternatives f x alt)) = wanted X (hex_tag x) arr - required X M x" by metis
  with assms(3) have "\<not> wanted X (hex_tag x) arr \<subseteq> required X M x"
    by (metis Diff_eq_empty_iff fs_size_def length_greater_0_conv set_empty)
  then obtain c where "c \<in> wanted X (hex_tag x) arr" "(x, c) \<in> set (filter_tags ev)"
    using json_matchesD(3) [OF assms(4) arr(1)] by blast
  with arr(1) show ?thesis unfolding json_names_def by blast
qed

lemma holds_set_Some: "holds_set X hexd v (Some s) \<Longrightarrow> \<exists>arr. v = Some (Array arr)"
  by (auto simp: holds_set_def)

lemma scoped_filter_names:
  assumes "filter_parse X U (Object obj) lim mt ma = Inr f" "btree_keys obj" "does_match_with_search_terms f ev terms"
    and "\<not> (f_ids f = None \<and> f_authors f = None \<and> f_tags f = [] \<and> f_and_tags f = [])"
  shows "json_names X (map_of obj) ev"
proof -
  let ?M = "map_of obj"
  obtain f0 where h: "filter_holds X U ?M f0"
    and t: "f_tags f = filter (\<lambda>(_, alt). 0 < fs_size alt) (map (\<lambda>(t, alt). (t, alternatives f0 t alt)) (f_tags f0))"
    and eq: "f_ids f = f_ids f0" "f_authors f = f_authors f0" "f_and_tags f = f_and_tags f0"
    by (rule filter_parse_Inr [OF assms(1,2)])
  have m: "json_matches X U ?M ev terms" using filter_matches_json [OF assms(1,2)] assms(3) by blast
  have hs: "holds_set X True (?M (str ''ids'')) (f_ids f)" "holds_set X True (?M (str ''authors'')) (f_authors f)" "holds_tags X ?M f0"
    using h by (simp_all add: holds_defs eq del: str_simps)
  consider "f_ids f \<noteq> None" | "f_authors f \<noteq> None" | "f_and_tags f \<noteq> []" | "f_tags f \<noteq> []"
    using assms(4) by argo
  then show ?thesis
  proof cases
    case 1
    then obtain s where "f_ids f = Some s" by blast
    with hs(1) obtain arr where "?M (str ''ids'') = Some (Array arr)" using holds_set_Some by metis
    with json_matchesD(1) [OF m] show ?thesis unfolding json_names_def by blast
  next
    case 2
    then obtain s where "f_authors f = Some s" by blast
    with hs(2) obtain arr where "?M (str ''authors'') = Some (Array arr)" using holds_set_Some by metis
    with json_matchesD(2) [OF m] show ?thesis unfolding json_names_def by blast
  next
    case 3
    then show ?thesis using and_tags_name [OF hs(3) _ m] eq(3) by metis
  next
    case 4
    then obtain x alt where "(x, alt) \<in> set (f_tags f0)" "0 < fs_size (alternatives f0 x alt)"
      unfolding t by (auto simp: filter_empty_conv)
    then show ?thesis using tags_name [OF hs(3) _ _ m] by blast
  qed
qed

lemma from_req_origin:
  "try_fold (add_filter X U lim mt ma) fg items = Inr fg' \<Longrightarrow> f \<in> set (fg_filters fg') \<Longrightarrow>
    f \<in> set (fg_filters fg) \<or> (\<exists>v \<in> set items. filter_parse X U v lim mt ma = Inr f)"
proof (induction items arbitrary: fg)
  case (Cons v items)
  obtain fg1 where fg1: "add_filter X U lim mt ma fg v = Inr fg1" "try_fold (add_filter X U lim mt ma) fg1 items = Inr fg'"
    using Cons.prems(1) unfolding try_fold.simps rbind_eq_Inr by blast
  have "f \<in> set (fg_filters fg1) \<Longrightarrow> f \<in> set (fg_filters fg) \<or> filter_parse X U v lim mt ma = Inr f"
    using fg1(1) by (auto simp: add_filter_def rbind_eq_Inr split: if_splits)
  with Cons.IH [OF fg1(2) Cons.prems(2)] show ?case by auto
qed simp

lemma validate_scoped:
  assumes "validate V fg = Inr ()" "fv_require_scoped_filters V" "f \<in> set (fg_filters fg)"
  shows "\<not> (f_ids f = None \<and> f_authors f = None \<and> f_tags f = [] \<and> f_and_tags f = [])"
proof -
  have "try_fold (validate_filter V) () fs = Inr () \<Longrightarrow> f \<in> set fs \<Longrightarrow> validate_filter V () f = Inr ()" for fs
    by (induction fs) (auto simp: rbind_eq_Inr)
  then have "validate_filter V () f = Inr ()" using assms(1,3) by (simp add: validate_def)
  then show ?thesis using assms(2) unfolding validate_filter_def rbind_eq_Inr by (auto split: if_splits)
qed

text \<open>C13: under the rule that every filter must be scoped, an accepted request cannot enumerate events: each
  event it matches is one a filter names, by its id, by its author or by a value of one of the event's own
  tags.\<close>

theorem scoped_request_names_events:
  assumes "from_req X U arr lim mt ma = Inr fg" "list_all wf_value arr" "validate V fg = Inr ()"
    and "fv_require_scoped_filters V" "group_match_with_search_terms fg ev terms"
  shows "\<exists>obj. Object obj \<in> set (drop 2 arr) \<and> json_names X (map_of obj) ev"
proof -
  obtain f where f: "f \<in> set (fg_filters fg)" "does_match_with_search_terms f ev terms"
    using assms(5) by (auto simp: group_match_with_search_terms_def list_ex_iff)
  then obtain v where v: "v \<in> set (drop 2 arr)" "filter_parse X U v lim mt ma = Inr f"
    using assms(1) from_req_origin [of X U lim mt ma default_group "drop 2 arr" fg f]
    by (auto simp: from_req_def default_group_def split: if_splits)
  obtain obj where obj: "v = Object obj" using v(2) by (cases v) (simp_all add: filter_parse_def)
  have "wf_value v" using assms(2) v(1) by (meson list_all_iff in_set_dropD)
  then show ?thesis
    using scoped_filter_names [OF v(2) [unfolded obj] _ f(2) validate_scoped [OF assms(3,4) f(1)]] v(1) by (auto simp: obj)
qed

theorem scoped_request_names_events_witness:
  "\<exists>obj. Object obj \<in> set (drop 2 sample_req) \<and> json_names sample_ext (map_of obj) sample_packed"
  using scoped_request_names_events [OF sample_req_group sample_req_wf sample_group_valid _ sample_group_matches] by simp

end
