(* ===== verification/Query_Postings.thy ===== *)
theory Query_Postings
  imports Query_Monitor Query_Match
begin

text \<open>
  The postings of the index of live subscriptions: that each posting stands where its slot records it, the
  contract of a store of postings and its interpretation on \<open>Index\<close>, the buckets an event looks up, and that
  an event a compiled filter matches looks up one of the keys the filter is indexed under.
\<close>

unbundle bit_operations_syntax

section \<open>Postings and places\<close>

text \<open>\<open>placed bk places own\<close>: the postings in the buckets \<open>bk\<close> are those of \<open>own\<close>, each at the position its slot
  records.\<close>

definition placed :: "('k \<Rightarrow> posting list) \<Rightarrow> places \<Rightarrow> (nat \<times> nat \<Rightarrow> ('k \<times> u64) option) \<Rightarrow> bool" where
  "placed bk places own \<longleftrightarrow>
     (\<forall>s n k m. own (s, n) = Some (k, m) \<longrightarrow> s < length places \<and> n < length (places ! s) \<and> places ! s ! n < length (bk k) \<and>
        bk k ! (places ! s ! n) = \<lparr> po_slot = s, po_nth = n, po_kinds = m \<rparr>) \<and>
     (\<forall>k j. j < length (bk k) \<longrightarrow> own (po_slot (bk k ! j), po_nth (bk k ! j)) = Some (k, po_kinds (bk k ! j)) \<and>
        places ! po_slot (bk k ! j) ! po_nth (bk k ! j) = j)"

lemma placed_own:
  assumes "placed bk places own" "own (s, n) = Some (k, m)"
  shows "s < length places" "n < length (places ! s)" "places ! s ! n < length (bk k)"
    "bk k ! (places ! s ! n) = \<lparr> po_slot = s, po_nth = n, po_kinds = m \<rparr>"
  using assms by (auto simp: placed_def)

lemma placed_posting:
  assumes "placed bk places own" "j < length (bk k)"
  shows "own (po_slot (bk k ! j), po_nth (bk k ! j)) = Some (k, po_kinds (bk k ! j))"
    "places ! po_slot (bk k ! j) ! po_nth (bk k ! j) = j"
  using assms by (auto simp: placed_def)

lemma placedI:
  assumes "\<And>s n k m. own (s, n) = Some (k, m) \<Longrightarrow> s < length places \<and> n < length (places ! s) \<and> places ! s ! n < length (bk k) \<and>
      bk k ! (places ! s ! n) = \<lparr> po_slot = s, po_nth = n, po_kinds = m \<rparr>"
    "\<And>k j. j < length (bk k) \<Longrightarrow> own (po_slot (bk k ! j), po_nth (bk k ! j)) = Some (k, po_kinds (bk k ! j)) \<and>
      places ! po_slot (bk k ! j) ! po_nth (bk k ! j) = j"
  shows "placed bk places own"
  using assms unfolding placed_def by blast

lemma placed_push:
  assumes pl: "placed bk places own" and s: "s < length places" and new: "own (s, length (places ! s)) = None"
  shows "placed (bk(k := bk k @ [\<lparr> po_slot = s, po_nth = length (places ! s), po_kinds = m \<rparr>]))
    (places[s := places ! s @ [length (bk k)]]) (own((s, length (places ! s)) \<mapsto> (k, m)))"
proof (rule placedI, goal_cases)
  case (1 s' n k' m')
  show ?case
  proof (cases "s' = s \<and> n = length (places ! s)")
    case True
    with 1 s show ?thesis by simp
  next
    case False
    with 1 have o: "own (s', n) = Some (k', m')" by (auto split: if_splits)
    note old = placed_own [OF pl o]
    have "places[s := places ! s @ [length (bk k)]] ! s' ! n = places ! s' ! n" "n < length (places[s := places ! s @ [length (bk k)]] ! s')"
      using old s by (auto simp: nth_list_update nth_append)
    with old show ?thesis by (auto simp: nth_append)
  qed
next
  case (2 k' j)
  show ?case
  proof (cases "k' = k \<and> j = length (bk k)")
    case True
    with s show ?thesis by simp
  next
    case False
    with 2 have j: "j < length (bk k')" by (auto split: if_splits)
    note old = placed_posting [OF pl j]
    note here = placed_own [OF pl old(1)]
    have b: "(bk(k := bk k @ [\<lparr> po_slot = s, po_nth = length (places ! s), po_kinds = m \<rparr>])) k' ! j = bk k' ! j"
      using j by (auto simp: nth_append)
    have "(po_slot (bk k' ! j), po_nth (bk k' ! j)) \<noteq> (s, length (places ! s))" using old(1) new by auto
    then show ?thesis unfolding b using old here s by (auto simp: nth_list_update nth_append)
  qed
qed

lemma butlast_update: "at < length b \<Longrightarrow> j < length b - 1 \<Longrightarrow> butlast (b[at := x]) ! j = (if j = at then x else b ! j)"
  by (simp add: nth_butlast nth_list_update)

lemma set_place_nth:
  assumes "s < length places" "n < length (places ! s)"
  shows "set_place places s n at = Some (places[s := (places ! s)[n := at]])"
  using assms by (simp add: set_place_def)

text \<open>Removing a posting moves the last one of its bucket into its place.\<close>

lemma placed_swap:
  assumes pl: "placed bk places own" and o: "own (s, n) = Some (k, m)" and B: "bk k = B" "places ! s ! n = at"
    and b: "length B = Suc (length b)" "\<And>j. j < length b \<Longrightarrow> b ! j = (if j = at then last B else B ! j)"
    and p': "length places' = length places" "\<And>i. length (places' ! i) = length (places ! i)"
      "\<And>i j. own (i, j) \<noteq> None \<Longrightarrow> places' ! i ! j = (if (i, j) = (po_slot (last B), po_nth (last B)) then at else places ! i ! j)"
  shows "placed (bk(k := b)) places' (own((s, n) := None))"
proof -
  let ?mv = "(po_slot (last B), po_nth (last B))"
  have last: "last B = B ! length b" using b(1) by (metis diff_Suc_1 last_conv_nth length_0_conv nat.distinct(1))
  note mv = placed_posting [OF pl, where k = k, unfolded B, of "length b", folded last]
  note sn = placed_own [OF pl o, unfolded B]
  have at_mv: "at \<noteq> length b" if "(s, n) \<noteq> ?mv" using sn(4) that last by auto
  show ?thesis
  proof (rule placedI, goal_cases)
    case (1 s' n' k' m')
    then have ne: "(s', n') \<noteq> (s, n)" and o': "own (s', n') = Some (k', m')" by (auto split: if_splits)
    note old = placed_own [OF pl o']
    show ?case
    proof (cases "(s', n') = ?mv")
      case True
      then have "k' = k" "m' = po_kinds (last B)" using mv(1) o' b(1) by auto
      moreover have "at < length b" using at_mv ne True sn(3) b(1) by (metis less_antisym)
      moreover have "last B = \<lparr> po_slot = s', po_nth = n', po_kinds = m' \<rparr>" using True calculation by (simp add: posting.equality)
      ultimately show ?thesis using True old p' o' b(2) by simp
    next
      case False
      have eq: "places' ! s' ! n' = places ! s' ! n'" using p'(3) [of s' n'] o' False by auto
      have "places ! s' ! n' \<noteq> length b" if "k' = k" using that old(4) last False B(1) by auto
      moreover have "places ! s' ! n' \<noteq> at" if "k' = k" using that old(4) sn(4) ne B(1) by auto
      ultimately show ?thesis unfolding eq using old p' b B(1) by (auto simp: less_Suc_eq)
    qed
  next
    case (2 k' j)
    show ?case
    proof (cases "k' = k \<and> j = at")
      case True
      with 2 have j: "at < length b" by simp
      then have "(s, n) \<noteq> ?mv" using mv(2) b(1) B(2) by auto
      then show ?thesis using True mv b p'(3) [of "fst ?mv" "snd ?mv"] j by auto
    next
      case False
      with 2 have j: "j < length (bk k')" and bj: "(bk(k := b)) k' ! j = bk k' ! j" using b B(1) by (auto split: if_splits)
      note old = placed_posting [OF pl j]
      have "(po_slot (bk k' ! j), po_nth (bk k' ! j)) \<noteq> (s, n)" using old o False B by auto
      moreover have "(po_slot (bk k' ! j), po_nth (bk k' ! j)) \<noteq> ?mv" using old mv b(1) 2 by (auto split: if_splits)
      ultimately show ?thesis unfolding bj using old p'(3) by auto
    qed
  qed
qed

lemma placed_remove:
  assumes pl: "placed bk places own" and o: "own (s, n) = Some (k, m)"
  shows "\<exists>b places'. swap_remove (bk k) (places ! s ! n) places = Some (b, places') \<and> placed (bk(k := b)) places' (own((s, n) := None)) \<and>
    map length places' = map length places \<and> length (bk k) = Suc (length b)"
proof -
  define at B where "at = places ! s ! n" and "B = bk k"
  define b where "b = butlast (B[at := last B])"
  define ms mn where "ms = po_slot (last B)" and "mn = po_nth (last B)"
  note own = placed_own [OF pl o, folded at_def, folded B_def]
  have len: "length B = Suc (length b)" using own(3) by (simp add: b_def)
  have nth: "b ! j = (if j = at then last B else B ! j)" if "j < length b" for j
    using own(3) that by (simp add: b_def butlast_update)
  have last: "last B = B ! length b" using len by (metis diff_Suc_1 last_conv_nth length_0_conv nat.distinct(1))
  note mv = placed_posting [OF pl, where k = k, folded B_def, of "length b", folded last, folded ms_def mn_def]
  from mv(1) len have mo: "own (ms, mn) = Some (k, po_kinds (last B))" by simp
  note mp = placed_own [OF pl mo]
  define places' where "places' = (if at < length b then places[ms := (places ! ms)[mn := at]] else places)"
  have "swap_remove B at places = Some (b, places')"
    using own(3) nth mp by (simp add: swap_remove_def Let_def b_def [symmetric] nth_opt_def places'_def ms_def mn_def set_place_nth)
  moreover have lens: "map length places' = map length places"
    using mp by (simp add: places'_def map_update list_update_same_conv)
  moreover have "places' ! i ! j = (if (i, j) = (ms, mn) then at else places ! i ! j)" if "own (i, j) \<noteq> None" for i j
    using mv(2) len mp own(3) by (auto simp: places'_def nth_list_update)
  moreover have "length places' = length places" "length (places' ! i) = length (places ! i)" for i
    using mp(1) by (simp_all add: places'_def nth_list_update)
  ultimately show ?thesis
    using placed_swap [OF pl o B_def [symmetric] at_def [symmetric] len nth, of places'] len by (auto simp: ms_def mn_def B_def at_def)
qed

lemma placed_bucket_length:
  assumes pl: "placed bk places own" and fin: "finite (dom own)"
  shows "length (bk k) \<le> card (dom own)"
proof -
  let ?f = "\<lambda>j. (po_slot (bk k ! j), po_nth (bk k ! j))"
  have "inj_on ?f {..<length (bk k)}" by (rule inj_onI) (metis lessThan_iff placed_posting(2) [OF pl] prod.inject)
  moreover have "?f ` {..<length (bk k)} \<subseteq> dom own" using placed_posting(1) [OF pl] by fastforce
  ultimately have "card {..<length (bk k)} \<le> card (dom own)" using fin by (meson card_inj_on_le)
  then show ?thesis by simp
qed

section \<open>Stores of postings\<close>

text \<open>What adding and removing subscriptions relies on. A family of stores, one for each value of \<open>'b\<close>, keeps its
  postings placed.\<close>

locale posting_store =
  fixes ok :: "'i \<Rightarrow> bool" and bucket :: "'i \<Rightarrow> 'k \<Rightarrow> posting list" and good :: "'k \<Rightarrow> bool"
    and push :: "'i \<Rightarrow> 'k \<Rightarrow> posting \<Rightarrow> ('i \<times> nat) option" and remove :: "'i \<Rightarrow> 'k \<Rightarrow> nat \<Rightarrow> places \<Rightarrow> ('i \<times> places) option"
  assumes push_law: "ok i \<Longrightarrow> good k \<Longrightarrow> length (bucket i k) < 2 ^ 32 \<Longrightarrow>
      \<exists>i'. push i k p = Some (i', length (bucket i k)) \<and> ok i' \<and> bucket i' = (bucket i)(k := bucket i k @ [p])"
    and remove_law: "ok i \<Longrightarrow> at < length (bucket i k) \<Longrightarrow> swap_remove (bucket i k) at places = Some (b, places') \<Longrightarrow>
      length (bucket i k) = Suc (length b) \<Longrightarrow>
      \<exists>i'. remove i k at places = Some (i', places') \<and> ok i' \<and> bucket i' = (bucket i)(k := b)"
begin

lemma family_push:
  assumes ok: "ok (ixs b)" "good k" and pl: "placed (\<lambda>(b, k). bucket (ixs b) k) places own"
    and s: "s < length places" "own (s, length (places ! s)) = None" and fin: "finite (dom own)" "card (dom own) < 2 ^ 32"
  shows "\<exists>i' at. push (ixs b) k \<lparr> po_slot = s, po_nth = length (places ! s), po_kinds = m \<rparr> = Some (i', at) \<and> ok i' \<and>
    placed (\<lambda>(b', k). bucket ((ixs(b := i')) b') k) (places[s := places ! s @ [at]]) (own((s, length (places ! s)) \<mapsto> ((b, k), m)))"
proof -
  let ?p = "\<lparr> po_slot = s, po_nth = length (places ! s), po_kinds = m \<rparr>"
  let ?bk = "\<lambda>(b, k). bucket (ixs b) k"
  have "length (bucket (ixs b) k) < 2 ^ 32" using placed_bucket_length [OF pl fin(1), of "(b, k)"] fin(2) by simp
  from push_law [OF ok this, of ?p] obtain i' where i': "push (ixs b) k ?p = Some (i', length (bucket (ixs b) k))" "ok i'"
      "bucket i' = (bucket (ixs b))(k := bucket (ixs b) k @ [?p])" by blast
  have "?bk((b, k) := ?bk (b, k) @ [?p]) = (\<lambda>(b', k). bucket ((ixs(b := i')) b') k)"
    using i'(3) by (auto simp: fun_eq_iff)
  with placed_push [OF pl s, of "(b, k)" m] i'(1,2) show ?thesis by auto
qed

lemma family_remove:
  assumes ok: "ok (ixs b)" and pl: "placed (\<lambda>(b, k). bucket (ixs b) k) places own" and o: "own (s, n) = Some ((b, k), m)"
  shows "\<exists>i' places'. remove (ixs b) k (places ! s ! n) places = Some (i', places') \<and> ok i' \<and> map length places' = map length places \<and>
    placed (\<lambda>(b', k). bucket ((ixs(b := i')) b') k) places' (own((s, n) := None))"
proof -
  let ?bk = "\<lambda>(b, k). bucket (ixs b) k"
  obtain x places' where x: "swap_remove (bucket (ixs b) k) (places ! s ! n) places = Some (x, places')"
      "placed (?bk((b, k) := x)) places' (own((s, n) := None))" "map length places' = map length places"
      "length (bucket (ixs b) k) = Suc (length x)"
    using placed_remove [OF pl o] by auto
  have "places ! s ! n < length (bucket (ixs b) k)" using placed_own(3) [OF pl o] by simp
  from remove_law [OF ok this x(1,4)] obtain i' where i': "remove (ixs b) k (places ! s ! n) places = Some (i', places')" "ok i'"
      "bucket i' = (bucket (ixs b))(k := x)" by blast
  have "?bk((b, k) := x) = (\<lambda>(b', k). bucket ((ixs(b := i')) b') k)" using i'(3) by (auto simp: fun_eq_iff)
  with x i' show ?thesis by auto
qed

end

section \<open>The index\<close>

text \<open>A map has one entry per key and no empty bucket; the tag counter counts the postings under tags.\<close>

definition buckets_ok :: "'k buckets \<Rightarrow> bool" where
  "buckets_ok m \<longleftrightarrow> distinct (map fst m) \<and> (\<forall>(k, b) \<in> set m. b \<noteq> [])"

definition posting_count :: "'k buckets \<Rightarrow> nat" where
  "posting_count m = sum_list (map (\<lambda>(k, b). length b) m)"

definition index_ok :: "index \<Rightarrow> bool" where
  "index_ok ix \<longleftrightarrow> buckets_ok (ix_ids ix) \<and> buckets_ok (ix_authors ix) \<and> buckets_ok (ix_kinds ix) \<and> list_all buckets_ok (ix_tags ix) \<and>
     length (ix_tags ix) = 256 \<and> ix_tag_postings ix = sum_list (map posting_count (ix_tags ix))"

definition index_bucket :: "index \<Rightarrow> key \<Rightarrow> posting list" where
  "index_bucket ix key = (case key of KId i \<Rightarrow> bucket_of (ix_ids ix) i | KAuthor pk \<Rightarrow> bucket_of (ix_authors ix) pk
     | KTag name val \<Rightarrow> bucket_of (ix_tags ix ! unat name) val | KKind kind \<Rightarrow> bucket_of (ix_kinds ix) kind | KAny \<Rightarrow> ix_any ix)"

definition key_ok :: "key \<Rightarrow> bool" where
  "key_ok key = (case key of KId i \<Rightarrow> length i = 32 | KAuthor pk \<Rightarrow> length pk = 32 | _ \<Rightarrow> True)"

lemma bucket_of_update: "bucket_of (AList.update k b m) = (bucket_of m)(k := b)"
  by (simp add: bucket_of_def fun_eq_iff update_conv')

lemma bucket_of_delete: "bucket_of (AList.delete k m) = (bucket_of m)(k := [])"
  by (simp add: bucket_of_def fun_eq_iff delete_conv')

lemma posting_count_update:
  "posting_count (AList.update k b m) + length (bucket_of m k) = posting_count m + length b"
  by (induction m) (auto simp: posting_count_def bucket_of_def)

lemma posting_count_delete:
  "distinct (map fst m) \<Longrightarrow> posting_count (AList.delete k m) + length (bucket_of m k) = posting_count m"
proof (induction m)
  case (Cons kb m)
  obtain k' b' where kb: "kb = (k', b')" by fastforce
  have "AList.delete k m = m" "map_of m k = None" if "k' = k" using Cons.prems that by (auto simp: kb map_of_eq_None_iff)
  with Cons show ?case by (auto simp: kb posting_count_def bucket_of_def)
qed (simp add: posting_count_def bucket_of_def)

lemma set_alist_update: "set (AList.update k b m) \<subseteq> insert (k, b) (set m)"
  by (induction m) auto

lemma buckets_ok_update: "buckets_ok m \<Longrightarrow> b \<noteq> [] \<Longrightarrow> buckets_ok (AList.update k b m)"
  using set_alist_update [of k b m] by (auto simp: buckets_ok_def distinct_update)

lemma buckets_ok_delete: "buckets_ok m \<Longrightarrow> buckets_ok (AList.delete k m)"
  using distinct_delete [of m k] by (auto simp: buckets_ok_def AList.delete_eq)

lemma push_under_law:
  assumes "buckets_ok m" "length (bucket_of m k) < 2 ^ 32"
  shows "\<exists>m'. push_under m k p = Some (m', length (bucket_of m k)) \<and> buckets_ok m' \<and> bucket_of m' = (bucket_of m)(k := bucket_of m k @ [p]) \<and>
    posting_count m' = Suc (posting_count m)"
  using assms posting_count_update [of k "bucket_of m k @ [p]" m]
  by (simp add: push_under_def position_def Let_def buckets_ok_update bucket_of_update)

lemma remove_from_law:
  assumes "buckets_ok m" "at < length (bucket_of m k)" "swap_remove (bucket_of m k) at places = Some (b, places')"
    "length (bucket_of m k) = Suc (length b)"
  shows "\<exists>m'. remove_from m k at places = Some (m', places') \<and> buckets_ok m' \<and> bucket_of m' = (bucket_of m)(k := b) \<and>
    posting_count m = Suc (posting_count m')"
proof -
  from assms(2) obtain bu where bu: "map_of m k = Some bu" by (cases "map_of m k") (auto simp: bucket_of_def)
  then have "bucket_of m k = bu" by (simp add: bucket_of_def)
  with assms bu posting_count_update [of k b m] posting_count_delete [of m k] show ?thesis
    by (auto simp: remove_from_def buckets_ok_update buckets_ok_delete bucket_of_update bucket_of_delete buckets_ok_def [of m])
qed

lemma sum_list_count_update:
  "i < length ms \<Longrightarrow> sum_list (map f (ms[i := m])) + f (ms ! i) = sum_list (map f ms) + (f m :: nat)"
  by (induction ms arbitrary: i) (auto split: nat.splits)

lemma unat_u8: "unat (x :: u8) < 256"
  using unsigned_less [of x, where 'a = nat] by simp

lemma unat_u8_eq: "unat (a :: u8) = unat b \<longleftrightarrow> a = b"
  by (auto intro: unsigned_word_eqI)

lemma index_push_law:
  assumes "index_ok ix" "key_ok k" "length (index_bucket ix k) < 2 ^ 32"
  shows "\<exists>ix'. index_push ix k p = Some (ix', length (index_bucket ix k)) \<and> index_ok ix' \<and>
    index_bucket ix' = (index_bucket ix)(k := index_bucket ix k @ [p])"
proof (cases k)
  case (KId i)
  obtain m' where m': "push_under (ix_ids ix) i p = Some (m', length (bucket_of (ix_ids ix) i))" "buckets_ok m'"
      "bucket_of m' = (bucket_of (ix_ids ix))(i := bucket_of (ix_ids ix) i @ [p])"
    using push_under_law [of "ix_ids ix" i p] assms by (auto simp: KId index_ok_def index_bucket_def)
  show ?thesis using assms m' by (auto simp: KId index_push_def key32_def key_ok_def index_ok_def index_bucket_def fun_eq_iff split: key.split)
next
  case (KAuthor i)
  obtain m' where m': "push_under (ix_authors ix) i p = Some (m', length (bucket_of (ix_authors ix) i))" "buckets_ok m'"
      "bucket_of m' = (bucket_of (ix_authors ix))(i := bucket_of (ix_authors ix) i @ [p])"
    using push_under_law [of "ix_authors ix" i p] assms by (auto simp: KAuthor index_ok_def index_bucket_def)
  show ?thesis using assms m' by (auto simp: KAuthor index_push_def key32_def key_ok_def index_ok_def index_bucket_def fun_eq_iff split: key.split)
next
  case (KTag name v)
  let ?m = "ix_tags ix ! unat name"
  have len: "unat name < length (ix_tags ix)" using assms(1) unat_u8 [of name] by (simp add: index_ok_def)
  then have "buckets_ok ?m" using assms(1) by (simp add: index_ok_def list_all_length)
  then obtain m' where m': "push_under ?m v p = Some (m', length (bucket_of ?m v))" "buckets_ok m'"
      "bucket_of m' = (bucket_of ?m)(v := bucket_of ?m v @ [p])" "posting_count m' = Suc (posting_count ?m)"
    using push_under_law [of ?m v p] assms(3) by (auto simp: KTag index_bucket_def)
  have "list_all buckets_ok ((ix_tags ix)[unat name := m'])"
    using assms(1) m'(2) len by (simp add: index_ok_def list_all_length nth_list_update)
  then show ?thesis
    using assms m' len sum_list_count_update [OF len, of posting_count m']
    by (auto simp: KTag index_push_def index_ok_def index_bucket_def fun_eq_iff nth_list_update unat_u8_eq split: key.split)
next
  case (KKind i)
  obtain m' where m': "push_under (ix_kinds ix) i p = Some (m', length (bucket_of (ix_kinds ix) i))" "buckets_ok m'"
      "bucket_of m' = (bucket_of (ix_kinds ix))(i := bucket_of (ix_kinds ix) i @ [p])"
    using push_under_law [of "ix_kinds ix" i p] assms by (auto simp: KKind index_ok_def index_bucket_def)
  show ?thesis using assms m' by (auto simp: KKind index_push_def index_ok_def index_bucket_def fun_eq_iff split: key.split)
next
  case KAny
  then show ?thesis using assms by (auto simp: index_push_def position_def index_ok_def index_bucket_def fun_eq_iff split: key.split)
qed

lemma index_remove_law:
  assumes "index_ok ix" "at < length (index_bucket ix k)" "swap_remove (index_bucket ix k) at places = Some (b, places')"
    "length (index_bucket ix k) = Suc (length b)"
  shows "\<exists>ix'. index_remove ix k at places = Some (ix', places') \<and> index_ok ix' \<and> index_bucket ix' = (index_bucket ix)(k := b)"
proof (cases k)
  case (KId i)
  obtain m' where m': "remove_from (ix_ids ix) i at places = Some (m', places')" "buckets_ok m'"
      "bucket_of m' = (bucket_of (ix_ids ix))(i := b)"
    using remove_from_law [of "ix_ids ix" at i places b places'] assms by (auto simp: KId index_ok_def index_bucket_def)
  show ?thesis using assms m' by (auto simp: KId index_remove_def index_ok_def index_bucket_def fun_eq_iff split: key.split)
next
  case (KAuthor i)
  obtain m' where m': "remove_from (ix_authors ix) i at places = Some (m', places')" "buckets_ok m'"
      "bucket_of m' = (bucket_of (ix_authors ix))(i := b)"
    using remove_from_law [of "ix_authors ix" at i places b places'] assms by (auto simp: KAuthor index_ok_def index_bucket_def)
  show ?thesis using assms m' by (auto simp: KAuthor index_remove_def index_ok_def index_bucket_def fun_eq_iff split: key.split)
next
  case (KTag name v)
  let ?m = "ix_tags ix ! unat name"
  have len: "unat name < length (ix_tags ix)" using assms(1) unat_u8 [of name] by (simp add: index_ok_def)
  then have "buckets_ok ?m" using assms(1) by (simp add: index_ok_def list_all_length)
  then obtain m' where m': "remove_from ?m v at places = Some (m', places')" "buckets_ok m'"
      "bucket_of m' = (bucket_of ?m)(v := b)" "posting_count ?m = Suc (posting_count m')"
    using remove_from_law [of ?m at v places b places'] assms by (auto simp: KTag index_bucket_def)
  have "list_all buckets_ok ((ix_tags ix)[unat name := m'])"
    using assms(1) m'(2) len by (simp add: index_ok_def list_all_length nth_list_update)
  then show ?thesis
    using assms m' len sum_list_count_update [OF len, of posting_count m']
    by (auto simp: KTag index_remove_def index_ok_def index_bucket_def fun_eq_iff nth_list_update unat_u8_eq split: key.split
        intro!: bexI [OF _ nth_mem [OF len]])
next
  case (KKind i)
  obtain m' where m': "remove_from (ix_kinds ix) i at places = Some (m', places')" "buckets_ok m'"
      "bucket_of m' = (bucket_of (ix_kinds ix))(i := b)"
    using remove_from_law [of "ix_kinds ix" at i places b places'] assms by (auto simp: KKind index_ok_def index_bucket_def)
  show ?thesis using assms m' by (auto simp: KKind index_remove_def index_ok_def index_bucket_def fun_eq_iff split: key.split)
next
  case KAny
  then show ?thesis using assms by (auto simp: index_remove_def index_ok_def index_bucket_def fun_eq_iff split: key.split)
qed

interpretation idx: posting_store index_ok index_bucket key_ok index_push index_remove
  by unfold_locales (fact index_push_law index_remove_law)+

lemma index_new_ok: "index_ok index_new" "index_bucket index_new k = []"
  by (auto simp: index_ok_def index_new_def index_bucket_def buckets_ok_def bucket_of_def posting_count_def unat_u8 list_all_iff split: key.split)

text \<open>An index without postings has no entries left.\<close>

lemma index_empty:
  assumes ok: "index_ok ix" and no: "\<And>k. index_bucket ix k = []"
  shows "ix = index_new"
proof -
  have empty: "m = []" if m: "buckets_ok m" "\<And>k. bucket_of m k = []" for m :: "'k buckets"
  proof (cases m)
    case (Cons kb m')
    then show ?thesis using m(1) m(2) [of "fst kb"] by (auto simp: buckets_ok_def bucket_of_def)
  qed simp
  have tags: "ix_tags ix ! i = []" if "i < 256" for i
  proof (rule empty)
    show "buckets_ok (ix_tags ix ! i)" using ok that by (simp add: index_ok_def list_all_length)
    have "unat (word_of_nat i :: u8) = i" using that by (simp add: unat_of_nat)
    then show "bucket_of (ix_tags ix ! i) k = []" for k using no [of "KTag (word_of_nat i) k"] by (simp add: index_bucket_def)
  qed
  then have "ix_tags ix = replicate 256 []" using ok by (intro nth_equalityI) (simp_all add: index_ok_def)
  moreover have "ix_ids ix = []" "ix_authors ix = []" "ix_kinds ix = []" "ix_any ix = []"
    using ok no [of "KId _"] no [of "KAuthor _"] no [of "KKind _"] no [of KAny]
    by (auto intro!: empty simp: index_ok_def index_bucket_def)
  ultimately show ?thesis using ok by (simp add: index_ok_def index_new_def posting_count_def sum_list_replicate)
qed

section \<open>The buckets of an event\<close>

definition event_keys :: "packed_event \<Rightarrow> key list" where
  "event_keys ev = KId (ev_id ev) # KAuthor (ev_pubkey ev) # map (\<lambda>(name, val). KTag name val) (filter_tags ev) @ [KKind (ev_kind ev), KAny]"

lemma run_tags_fold: "run_tags ts (\<lambda>name val s. (True, f name val s)) s = fold (\<lambda>(name, val). f name val) ts s"
  by (induction ts arbitrary: s) auto

lemma found_bucket: "(\<And>s. add [] s = s) \<Longrightarrow> found add (map_of m k) s = add (bucket_of m k) s"
  by (simp add: found_def bucket_of_def split: option.split)

text \<open>Looking an event up gives the callback the buckets of its keys, in order.\<close>

lemma index_lookup_fold:
  assumes ok: "index_ok ix" and add: "\<And>s. add [] s = s"
  shows "index_lookup ix ev add s = fold add (map (index_bucket ix) (event_keys ev)) s"
proof -
  have tag: "found add (tag_bucket ix name val) s = add (index_bucket ix (KTag name val)) s" for name val s
    using found_bucket [of add "ix_tags ix ! unat name" val s, OF add] add
    by (simp add: tag_bucket_def index_bucket_def Let_def bucket_of_def found_def)
  have zero: "index_bucket ix (KTag name val) = []" if "ix_tag_postings ix = 0" for name val
  proof -
    let ?m = "ix_tags ix ! unat name"
    have "unat name < length (ix_tags ix)" using ok unat_u8 [of name] by (simp add: index_ok_def)
    then have "?m \<in> set (ix_tags ix)" by simp
    with ok that have "posting_count ?m = 0" "buckets_ok ?m" by (auto simp: index_ok_def list_all_iff)
    then show ?thesis using posting_count_delete [of ?m val] by (simp add: buckets_ok_def index_bucket_def)
  qed
  have skip: "(if ix_tag_postings ix \<noteq> 0 then fold (\<lambda>(name, val). found add (tag_bucket ix name val)) ts s else s) =
      fold add (map (\<lambda>(name, val). index_bucket ix (KTag name val)) ts) s" for ts s
  proof (cases "ix_tag_postings ix = 0")
    case True
    then have "fold add (map (\<lambda>(name, val). index_bucket ix (KTag name val)) ts) s = s"
      using zero add by (induction ts) auto
    with True show ?thesis by simp
  next
    case False
    then show ?thesis using tag by (induction ts arbitrary: s) auto
  qed
  have guard: "(if m \<noteq> [] then found add (map_of m k) s else s) = add (bucket_of m k) s" for m :: "'k buckets" and k s
    using found_bucket [of add m k s, OF add] add by (cases m) (auto simp: bucket_of_def)
  show ?thesis
    unfolding index_lookup_def Let_def guard foreach_filter_run run_tags_fold skip
    by (simp add: event_keys_def index_bucket_def found_def comp_def case_prod_unfold)
qed

section \<open>The keys of a filter\<close>

definition set_ok :: "filter_set_bytes option \<Rightarrow> bool" where
  "set_ok s = (case s of None \<Rightarrow> True | Some fs \<Rightarrow> sorted_wrt (<) (fs_items fs) \<and> (\<forall>i \<in> set (fs_items fs). length i = 32))"

text \<open>What compiling a filter gives: sorted sets, ids and authors of 32 bytes, and no empty AND set.\<close>

definition filter_ok :: "nostr_filter \<Rightarrow> bool" where
  "filter_ok f \<longleftrightarrow> set_ok (f_ids f) \<and> set_ok (f_authors f) \<and> (\<forall>fu. f_kinds f = Some fu \<longrightarrow> sorted_wrt (<) (fu_items fu)) \<and>
     (\<forall>(t, fs) \<in> set (f_tags f). sorted_wrt (<) (fs_items fs)) \<and> (\<forall>(t, fs) \<in> set (f_and_tags f). fs_items fs \<noteq> [])"

definition filter_keys :: "nostr_filter \<Rightarrow> key list" where
  "filter_keys f = the (for_each_key f)"

lemma min_by_key_mem: "min_by_key g xs = Some x \<Longrightarrow> x \<in> set xs"
proof -
  have "foldl (\<lambda>m y. if g y < g m then y else m) a ys \<in> insert a (set ys)" for a ys
    by (induction ys arbitrary: a) auto
  then show "min_by_key g xs = Some x \<Longrightarrow> x \<in> set xs" by (auto simp: min_by_key_def split: list.splits)
qed

lemma min_by_key_None: "min_by_key g xs = None \<longleftrightarrow> xs = []"
  by (simp add: min_by_key_def split: list.split)

text \<open>Compiled filters always have their keys, and keys of ids and authors are 32 bytes long.\<close>

lemma for_each_key_ok:
  assumes "filter_ok f"
  shows "for_each_key f = Some (filter_keys f)" "list_all key_ok (filter_keys f)"
proof -
  have "\<exists>ks. for_each_key f = Some ks \<and> list_all key_ok ks"
    using assms
    by (auto simp: for_each_key_def filter_ok_def set_ok_def list_all_iff key_ok_def nth_opt_def split: option.split list.split prod.split)
  then show "for_each_key f = Some (filter_keys f)" "list_all key_ok (filter_keys f)" by (auto simp: filter_keys_def)
qed

lemma kind_bit_nonzero: "kind_bit k \<noteq> 0"
proof -
  let ?n = "unat (drop_bit 58 (k * 0x9E3779B97F4A7C15) :: u64)"
  have "?n = unat (k * 0x9E3779B97F4A7C15 :: u64) div 2 ^ 58" by (simp add: drop_bit_eq_div unat_div)
  also have "\<dots> < 64" using unsigned_less [of "k * 0x9E3779B97F4A7C15 :: u64", where 'a = nat] by (simp add: less_mult_imp_div_less)
  finally have "bit (kind_bit k) ?n" by (simp add: kind_bit_def bit_exp_iff)
  then show ?thesis by auto
qed

lemma kind_mask_bit:
  assumes "f_kinds f = None \<or> (\<exists>fu. f_kinds f = Some fu \<and> k \<in> set (fu_items fu))"
  shows "kind_mask f AND kind_bit k = kind_bit k"
proof -
  have "foldl (\<lambda>m kind. m OR kind_bit kind) acc ks AND kind_bit k = kind_bit k" if "k \<in> set ks \<or> acc AND kind_bit k = kind_bit k" for acc ks
    using that
  proof (induction ks arbitrary: acc)
    case (Cons x ks)
    have "(acc OR kind_bit x) AND kind_bit k = kind_bit k" if "x = k \<or> acc AND kind_bit k = kind_bit k"
      using that by (auto simp: bit.conj_disj_distrib2)
    with Cons show ?case by auto
  qed simp
  with assms show ?thesis by (auto simp: kind_mask_def split: option.split)
qed

lemma filter_match_kind:
  assumes "filter_ok f" "does_match_without_search f ev"
  shows "kind_mask f AND kind_bit (ev_kind ev) \<noteq> 0"
proof -
  have "f_kinds f = None \<or> (\<exists>fu. f_kinds f = Some fu \<and> ev_kind ev \<in> set (fu_items fu))"
    using assms by (auto simp: filter_ok_def does_match_without_search_def fu_match_iff split: if_splits option.splits)
  from kind_mask_bit [OF this] show ?thesis using kind_bit_nonzero by simp
qed

lemma tag_keys: "some_filter_tag hit ev \<Longrightarrow> \<exists>n v. hit n v \<and> KTag n v \<in> set (event_keys ev)"
  by (force simp: some_filter_tag_iff event_keys_def)

lemma filter_match_key:
  assumes ok: "filter_ok f" and m: "does_match_without_search f ev"
  shows "\<exists>k \<in> set (filter_keys f). k \<in> set (event_keys ev)"
proof -
  have ids: "KId (ev_id ev) \<in> set (event_keys ev)" "KAuthor (ev_pubkey ev) \<in> set (event_keys ev)" "KKind (ev_kind ev) \<in> set (event_keys ev)"
    "KAny \<in> set (event_keys ev)" by (simp_all add: event_keys_def)
  have sets: "ev_id ev \<in> set (fs_items fs)" if "f_ids f = Some fs" for fs
    using that ok m by (auto simp: filter_ok_def set_ok_def does_match_without_search_def fs_match_iff split: if_splits)
  have auth: "ev_pubkey ev \<in> set (fs_items fs)" if "f_authors f = Some fs" for fs
    using that ok m by (auto simp: filter_ok_def set_ok_def does_match_without_search_def fs_match_iff split: if_splits)
  have kind: "ev_kind ev \<in> set (fu_items fs)" if "f_kinds f = Some fs" for fs
    using that ok m by (auto simp: filter_ok_def does_match_without_search_def fu_match_iff split: if_splits)
  have tags: "\<exists>v \<in> set (fs_items fs). KTag t v \<in> set (event_keys ev)" if t: "(t, fs) \<in> set (f_tags f)" for t fs
  proof -
    from t m have "some_filter_tag (\<lambda>name val. name = t \<and> fs_match fs val) ev"
      by (auto simp: does_match_without_search_def list_all_iff split: if_splits)
    moreover from t ok have "sorted_wrt (<) (fs_items fs)" by (auto simp: filter_ok_def)
    ultimately show ?thesis using tag_keys by (fastforce simp: fs_match_iff)
  qed
  have ands: "\<exists>v. nth_opt (fs_items fs) 0 = Some v \<and> KTag t v \<in> set (event_keys ev)" if t: "(t, fs) \<in> set (f_and_tags f)" for t fs
  proof -
    from t ok have "fs_items fs ! 0 \<in> set (fs_items fs)" "0 < length (fs_items fs)" by (auto simp: filter_ok_def)
    moreover from this t m have "some_filter_tag (\<lambda>name c. name = t \<and> c = fs_items fs ! 0) ev"
      by (auto simp: does_match_without_search_def list_all_iff split: if_splits)
    ultimately show ?thesis using tag_keys by fastforce
  qed
  show ?thesis
  proof (cases "f_ids f \<noteq> None \<or> f_authors f \<noteq> None")
    case True
    then show ?thesis using sets auth ids by (cases "f_ids f") (auto simp: filter_keys_def for_each_key_def)
  next
    case no: False
    show ?thesis
    proof (cases "f_and_tags f")
      case (Cons tv rest)
      obtain t fs where tv: "tv = (t, fs)" by fastforce
      with ands [of t fs] Cons no show ?thesis by (auto simp: filter_keys_def for_each_key_def)
    next
      case Nil
      show ?thesis
      proof (cases "min_by_key (\<lambda>(_, values). fs_size values) (f_tags f)")
        case (Some tv)
        obtain t fs where tv: "tv = (t, fs)" by fastforce
        with min_by_key_mem [OF Some] tags [of t fs] Some Nil no show ?thesis by (auto simp: filter_keys_def for_each_key_def)
      next
        case None
        then show ?thesis using Nil no kind ids by (cases "f_kinds f") (auto simp: filter_keys_def for_each_key_def)
      qed
    qed
  qed
qed

section \<open>Compiled filters\<close>

definition lengths32 :: "nostr_filter \<Rightarrow> bool" where
  "lengths32 f \<longleftrightarrow> (\<forall>fs. f_ids f = Some fs \<or> f_authors f = Some fs \<longrightarrow> (\<forall>i \<in> set (fs_items fs). length i = 32))"

lemma fsb_parse_lengths:
  assumes "fsb_parse X v hexd 32 32 = Inr fs"
  shows "\<forall>i \<in> set (fs_items fs). length i = 32"
proof -
  from assms obtain arr st where "try_fold (fsb_item X hexd 32 32) ([], []) arr = Inr st" "fs_items fs = remdups_adj (sort (fst st))"
    by (auto simp: fsb_parse_def res_simps Let_def split: prod.splits if_splits)
  moreover have "\<forall>i \<in> set (fst st). length i = 32"
    by (rule try_fold_invariant [OF calculation(1), where I = "\<lambda>st. \<forall>i \<in> set (fst st). length i = 32"])
      (auto simp: fsb_item_def res_simps MAX_INDEXED_TAG_VAL_SIZE_def split: prod.splits if_splits)
  ultimately show ?thesis by simp
qed

lemma parse_key_lengths:
  assumes "parse_key X U st kv = Inr st'" "lengths32 (fst st)"
  shows "lengths32 (fst st')"
proof -
  obtain f n k v where st: "st = (f, n)" "kv = (k, v)" by fastforce
  consider (i) "key_ids X v st = Inr st'" | (a) "key_authors X v st = Inr st'" | (o) "f_ids (fst st') = f_ids f" "f_authors (fst st') = f_authors f"
    using assms(1)
    by (auto simp: st parse_key_def key_kinds_def key_tag_def key_and_tag_def key_search_def res_simps split: if_splits simp del: str_simps)
  then show ?thesis
  proof cases
    case i
    then show ?thesis using assms(2) fsb_parse_lengths by (auto simp: st key_ids_def res_simps lengths32_def map_err_eq_Inr split: if_splits)
  next
    case a
    then show ?thesis using assms(2) fsb_parse_lengths by (auto simp: st key_authors_def res_simps lengths32_def map_err_eq_Inr split: if_splits)
  next
    case o
    then show ?thesis using assms(2) by (simp add: st lengths32_def)
  qed
qed

lemma filter_parse_lengths:
  assumes "filter_parse X U v lim mt ma = Inr f"
  shows "lengths32 f"
proof -
  from assms obtain obj f0 n where run: "try_fold (parse_key X U) (empty_filter, 0) obj = Inr (f0, n)"
      and eq: "f_ids f = f_ids f0" "f_authors f = f_authors f0"
    by (cases v) (auto simp: filter_parse_def rbind_eq_Inr Let_def split: if_splits)
  have "lengths32 (fst (f0, n))"
    by (rule try_fold_invariant [OF run, where I = "\<lambda>st. lengths32 (fst st)"]) (auto simp: lengths32_def empty_filter_def dest: parse_key_lengths)
  with eq show ?thesis by (simp add: lengths32_def)
qed

lemma holds_set_sorted: "holds_set X hexd v (Some fs) \<Longrightarrow> sorted_wrt (<) (fs_items fs) \<and> fs_items fs \<noteq> []"
  by (auto simp: holds_set_def)

lemma filter_parse_ok:
  assumes p: "filter_parse X U v lim mt ma = Inr f" and wf: "wf_value v"
  shows "filter_ok f"
proof -
  obtain obj where v: "v = Object obj" using p by (cases v) (simp_all add: filter_parse_def)
  have keys: "btree_keys obj" using wf by (simp add: v)
  obtain f0 where h: "filter_holds X U (map_of obj) f0"
    and t: "f_tags f = filter (\<lambda>(_, alt). 0 < fs_size alt) (map (\<lambda>(t, alt). (t, alternatives f0 t alt)) (f_tags f0))"
    and eq: "f_ids f = f_ids f0" "f_authors f = f_authors f0" "f_kinds f = f_kinds f0" "f_and_tags f = f_and_tags f0"
    by (rule filter_parse_Inr [OF p [unfolded v] keys]) blast
  have ids: "holds_set X True (map_of obj (str ''ids'')) (f_ids f0)" "holds_set X True (map_of obj (str ''authors'')) (f_authors f0)"
    and keys': "btree_keys (f_tags f0)" "btree_keys (f_and_tags f0)"
    and sets: "holds_set X (hex_tag x) (map_of obj [0x23, x]) (map_of (f_tags f0) x)"
      "holds_set X (hex_tag x) (map_of obj [0x26, x]) (map_of (f_and_tags f0) x)" for x
    using h by (simp_all add: holds_defs del: str_simps)
  have tags: "sorted_wrt (<) (fs_items fs) \<and> fs_items fs \<noteq> []" if "(x, fs) \<in> set (f_tags f0) \<or> (x, fs) \<in> set (f_and_tags f0)" for x fs
  proof -
    have "map_of (f_tags f0) x = Some fs \<or> map_of (f_and_tags f0) x = Some fs" using that keys' by (auto dest: btree_keys_distinct)
    then show ?thesis using sets [of x] by (auto dest: holds_set_sorted)
  qed
  have "sorted_wrt (<) (fs_items (alternatives f0 x fs))" if "(x, fs) \<in> set (f_tags f0)" for x fs
    using tags [of x fs] that by (auto simp: alternatives_def fs_remove_all_def sorted_wrt_filter split: option.split)
  then have "\<forall>(x, fs) \<in> set (f_tags f). sorted_wrt (<) (fs_items fs)" by (auto simp: t)
  moreover have "\<forall>(x, fs) \<in> set (f_and_tags f). fs_items fs \<noteq> []" using tags by (auto simp: eq)
  moreover have "set_ok (f_ids f)" "set_ok (f_authors f)"
    using filter_parse_lengths [OF p] ids by (auto simp: set_ok_def lengths32_def eq dest: holds_set_sorted split: option.split)
  moreover have "\<forall>fu. f_kinds f = Some fu \<longrightarrow> sorted_wrt (<) (fu_items fu)" using h by (auto simp: eq holds_defs holds_kinds_def simp del: str_simps)
  ultimately show ?thesis by (simp add: filter_ok_def)
qed

definition group_ok :: "filter_group \<Rightarrow> bool" where
  "group_ok fg \<longleftrightarrow> list_all filter_ok (fg_filters fg)"

lemma from_req_ok:
  assumes "from_req X U arr lim mt ma = Inr fg" "list_all wf_value arr"
  shows "group_ok fg"
proof -
  have "try_fold (add_filter X U lim mt ma) default_group (drop 2 arr) = Inr fg" using assms(1) by (simp add: from_req_def split: if_splits)
  then show ?thesis
  proof (rule try_fold_invariant [where I = group_ok])
    show "group_ok default_group" by (simp add: group_ok_def default_group_def)
    fix g v g' assume "v \<in> set (drop 2 arr)" "group_ok g" "add_filter X U lim mt ma g v = Inr g'"
    moreover from this(1) assms(2) have "wf_value v" by (meson in_set_dropD list_all_iff)
    ultimately show "group_ok g'" using filter_parse_ok
      by (auto simp: add_filter_def res_simps group_ok_def split: if_splits)
  qed
qed

end
