(* ===== verification/Query_Slots.thy ===== *)
theory Query_Slots
  imports Query_Postings
begin

text \<open>
  The invariant of the live subscriptions: the postings of both indexes are those of the occupied slots, the
  connections name the occupied slots, and the other slots are free. Opening a subscription, replacing it,
  closing it and closing a connection keep the invariant and do not panic.
\<close>

unbundle bit_operations_syntax

section \<open>Slots and postings\<close>

text \<open>The postings of a subscription, in the order they are installed.\<close>

definition keys_of :: "nostr_filter list \<Rightarrow> ((bool \<times> key) \<times> u64) list" where
  "keys_of fs = concat (map (\<lambda>f. map (\<lambda>k. ((f_search f \<noteq> None, k), kind_mask f)) (filter_keys f)) fs)"

definition slot_keys :: "monitored \<Rightarrow> ((bool \<times> key) \<times> u64) list" where
  "slot_keys e = keys_of (fg_filters (sub_filter_group (mo_sub e)))"

definition slot_content :: "monitored \<Rightarrow> nat" where
  "slot_content e = (if group_requires_content (sub_filter_group (mo_sub e)) then 1 else 0)"

definition own_of :: "monitored option list \<Rightarrow> nat \<times> nat \<Rightarrow> ((bool \<times> key) \<times> u64) option" where
  "own_of slots = (\<lambda>(s, n). Option.bind (Option.bind (nth_opt slots s) id) (\<lambda>e. nth_opt (slot_keys e) n))"

definition key_count :: "monitored option \<Rightarrow> nat" where
  "key_count e = (case e of None \<Rightarrow> 0 | Some e \<Rightarrow> length (slot_keys e))"

definition total_keys :: "monitored option list \<Rightarrow> nat" where
  "total_keys slots = sum_list (map key_count slots)"

definition total_content :: "monitored option list \<Rightarrow> nat" where
  "total_content slots = sum_list (map (\<lambda>e. case e of None \<Rightarrow> 0 | Some e \<Rightarrow> slot_content e) slots)"

definition buckets_of :: "active_monitors \<Rightarrow> bool \<times> key \<Rightarrow> posting list" where
  "buckets_of st = (\<lambda>(b, k). index_bucket (which_index st b) k)"

definition indexed :: "active_monitors \<Rightarrow> (nat \<times> nat \<Rightarrow> ((bool \<times> key) \<times> u64) option) \<Rightarrow> bool" where
  "indexed st own \<longleftrightarrow> index_ok (am_index st) \<and> index_ok (am_search st) \<and> placed (buckets_of st) (am_places st) own"

definition entry_ok :: "monitored option \<Rightarrow> bool" where
  "entry_ok e = (case e of None \<Rightarrow> True | Some e \<Rightarrow> group_ok (sub_filter_group (mo_sub e)))"

definition core :: "active_monitors \<Rightarrow> bool" where
  "core st \<longleftrightarrow> indexed st (own_of (am_slots st)) \<and> map length (am_places st) = map key_count (am_slots st) \<and>
     length (am_seen st) = length (am_slots st) \<and> list_all entry_ok (am_slots st) \<and> am_content st = total_content (am_slots st)"

text \<open>States that differ only in the indexes and the places.\<close>

definition reindexed :: "active_monitors \<Rightarrow> active_monitors \<Rightarrow> bool" where
  "reindexed st st' \<longleftrightarrow> (\<exists>ix sx places. st' = st\<lparr> am_index := ix, am_search := sx, am_places := places \<rparr>)"

lemma reindexed_simps:
  assumes "reindexed st st'"
  shows "am_conns st' = am_conns st" "am_slots st' = am_slots st" "am_free st' = am_free st" "am_seen st' = am_seen st" "am_pass st' = am_pass st"
    "am_candidates st' = am_candidates st" "am_max_subs st' = am_max_subs st" "am_content st' = am_content st"
  using assms by (auto simp: reindexed_def)

lemma reindexed_refl: "reindexed st st"
  unfolding reindexed_def by (intro exI [of _ "am_index st"] exI [of _ "am_search st"] exI [of _ "am_places st"]) simp

lemma reindexed_set: "reindexed st ((set_index st b ix)\<lparr> am_places := p \<rparr>)"
  by (cases st) (auto simp: reindexed_def set_index_def)

lemma reindexed_trans: "reindexed st st1 \<Longrightarrow> reindexed st1 st2 \<Longrightarrow> reindexed st st2"
  unfolding reindexed_def by (elim exE) (simp, blast)

lemma buckets_of_set:
  "buckets_of ((set_index st b ix)\<lparr> am_places := p \<rparr>) = (\<lambda>(b', k). index_bucket (((which_index st)(b := ix)) b') k)"
  by (auto simp: buckets_of_def set_index_def which_index_def fun_eq_iff)

lemma indexed_set:
  assumes "indexed st own" "index_ok ix" "placed (\<lambda>(b', k). index_bucket (((which_index st)(b := ix)) b') k) p own'"
  shows "indexed ((set_index st b ix)\<lparr> am_places := p \<rparr>) own'"
  using assms unfolding indexed_def buckets_of_set by (auto simp: set_index_def)

lemma indexed_cong:
  "am_index st' = am_index st \<Longrightarrow> am_search st' = am_search st \<Longrightarrow> am_places st' = am_places st \<Longrightarrow> indexed st' own \<longleftrightarrow> indexed st own"
proof -
  assume eq: "am_index st' = am_index st" "am_search st' = am_search st" "am_places st' = am_places st"
  then have "which_index st' = which_index st" by (simp add: which_index_def fun_eq_iff)
  with eq show ?thesis by (simp add: indexed_def buckets_of_def)
qed

lemma placed_clear:
  assumes "placed bk places own" "\<And>n. own (slot, n) = None"
  shows "placed bk (places[slot := []]) own"
proof (rule placedI, goal_cases)
  case (1 s n k m)
  then show ?case using placed_own [OF assms(1) 1] assms(2) by (cases "s = slot") auto
next
  case (2 k j)
  then show ?case using placed_posting [OF assms(1) 2] assms(2) by (cases "po_slot (bk k ! j) = slot") auto
qed

lemma reindexed_places: "reindexed st st1 \<Longrightarrow> reindexed st (st1\<lparr> am_places := p \<rparr>)"
  unfolding reindexed_def by (elim exE) (simp, blast)

lemma indexed_which: "indexed st own \<Longrightarrow> index_ok (which_index st b)"
  by (simp add: indexed_def which_index_def)

lemma indexed_placed: "indexed st own \<Longrightarrow> placed (\<lambda>(b, k). index_bucket (which_index st b) k) (am_places st) own"
  by (simp add: indexed_def buckets_of_def)

text \<open>Adding a list of keys, one posting each.\<close>

lemma install_key_step:
  assumes ix: "indexed st own" and s: "slot < length (am_places st)" "own (slot, length (am_places st ! slot)) = None"
    and k: "key_ok k" and fin: "finite (dom own)" "card (dom own) < 2 ^ 32" "length (am_places st ! slot) < 2 ^ 32"
  shows "\<exists>st' at. install_key slot m b st k = Some st' \<and> reindexed st st' \<and> am_places st' = (am_places st)[slot := am_places st ! slot @ [at]] \<and>
    indexed st' (own((slot, length (am_places st ! slot)) \<mapsto> ((b, k), m)))"
proof -
  obtain i' at where i': "index_push (which_index st b) k \<lparr> po_slot = slot, po_nth = length (am_places st ! slot), po_kinds = m \<rparr> = Some (i', at)"
      "index_ok i'" "placed (\<lambda>(b', k). index_bucket (((which_index st)(b := i')) b') k) ((am_places st)[slot := am_places st ! slot @ [at]])
        (own((slot, length (am_places st ! slot)) \<mapsto> ((b, k), m)))"
    using idx.family_push [OF indexed_which [OF ix] k indexed_placed [OF ix] s fin(1,2)] by blast
  then show ?thesis using s(1) fin(3) indexed_set [OF ix i'(2,3)] reindexed_set
    by (auto simp: install_key_def position_def)
qed

lemma install_keys:
  assumes "indexed st own" "slot < length (am_places st)" "\<And>n. length (am_places st ! slot) \<le> n \<Longrightarrow> own (slot, n) = None"
    "list_all (\<lambda>((b, k), m). key_ok k) ks" "finite (dom own)" "card (dom own) + length ks < 2 ^ 32" "length (am_places st ! slot) + length ks < 2 ^ 32"
  shows "\<exists>st'. opt_fold (\<lambda>st ((b, k), m). install_key slot m b st k) st ks = Some st' \<and> reindexed st st' \<and>
    map length (am_places st') = (map length (am_places st))[slot := length (am_places st ! slot) + length ks] \<and>
    indexed st' (own ++ (\<lambda>(s, n). if s = slot \<and> length (am_places st ! slot) \<le> n then nth_opt ks (n - length (am_places st ! slot)) else None))"
  using assms
proof (induction ks arbitrary: st own)
  case Nil
  have "own ++ (\<lambda>(s, n). if s = slot \<and> length (am_places st ! slot) \<le> n then nth_opt [] (n - length (am_places st ! slot)) else None) = own"
    by (auto simp: fun_eq_iff map_add_def nth_opt_def split: option.split)
  with Nil show ?case by (simp add: reindexed_refl list_update_id map_update [symmetric])
next
  case (Cons x ks)
  obtain b k m where x: "x = ((b, k), m)" by (metis surj_pair)
  let ?l = "length (am_places st ! slot)"
  have "own (slot, ?l) = None" "key_ok k" "card (dom own) < 2 ^ 32" "?l < 2 ^ 32" using Cons.prems by (simp_all add: x)
  from install_key_step [OF Cons.prems(1,2) this(1,2) Cons.prems(5) this(3,4), of m b]
  obtain st1 at where st1: "install_key slot m b st k = Some st1" "reindexed st st1" "am_places st1 = (am_places st)[slot := am_places st ! slot @ [at]]"
      "indexed st1 (own((slot, ?l) \<mapsto> ((b, k), m)))" by blast
  have l1: "length (am_places st1 ! slot) = Suc ?l" "slot < length (am_places st1)" using st1(3) Cons.prems(2) by simp_all
  let ?own1 = "own((slot, ?l) \<mapsto> ((b, k), m))"
  have none: "?own1 (slot, n) = None" if "length (am_places st1 ! slot) \<le> n" for n using that Cons.prems(3) [of n] by (simp add: l1)
  have keys: "list_all (\<lambda>((b, k), m). key_ok k) ks" and fin: "finite (dom ?own1)" using Cons.prems(4,5) by simp_all
  have card: "card (dom ?own1) + length ks < 2 ^ 32" and len: "length (am_places st1 ! slot) + length ks < 2 ^ 32"
    using Cons.prems(3) [of ?l] Cons.prems(5-7) by (simp_all add: l1 domIff)
  from Cons.IH [OF st1(4) l1(2) none keys fin card len, unfolded l1(1)]
  obtain st' where st': "opt_fold (\<lambda>st ((b, k), m). install_key slot m b st k) st1 ks = Some st'" "reindexed st1 st'"
      "map length (am_places st') = (map length (am_places st1))[slot := Suc ?l + length ks]"
      "indexed st' (?own1 ++ (\<lambda>(s, n). if s = slot \<and> Suc ?l \<le> n then nth_opt ks (n - Suc ?l) else None))" by blast
  have "?own1 ++ (\<lambda>(s, n). if s = slot \<and> Suc ?l \<le> n then nth_opt ks (n - Suc ?l) else None) =
      own ++ (\<lambda>(s, n). if s = slot \<and> ?l \<le> n then nth_opt (x # ks) (n - ?l) else None)"
    using Cons.prems(3)
    by (auto simp: fun_eq_iff map_add_def nth_opt_def x nth_Cons' split: option.split)
  with st' st1 show ?case
    by (auto simp: x map_update intro: reindexed_trans)
qed

text \<open>Removing them again, in the same order.\<close>

lemma uninstall_key_step:
  assumes ix: "indexed st own" and o: "own (slot, n) = Some ((b, k), m)"
  shows "\<exists>st'. uninstall_key slot b (st, n) k = Some (st', n + 1) \<and> reindexed st st' \<and> map length (am_places st') = map length (am_places st) \<and>
    indexed st' (own((slot, n) := None))"
proof -
  obtain i' p' where i': "index_remove (which_index st b) k (am_places st ! slot ! n) (am_places st) = Some (i', p')" "index_ok i'"
      "map length p' = map length (am_places st)" "placed (\<lambda>(b', k). index_bucket (((which_index st)(b := i')) b') k) p' (own((slot, n) := None))"
    using idx.family_remove [OF indexed_which [OF ix] indexed_placed [OF ix] o] by blast
  with placed_own(1,2) [OF indexed_placed [OF ix] o] show ?thesis
    using indexed_set [OF ix i'(2,4)] reindexed_set by (auto simp: uninstall_key_def)
qed

lemma uninstall_keys:
  assumes "indexed st own" "\<And>i. i < length ks \<Longrightarrow> own (slot, n + i) = Some (ks ! i)"
  shows "\<exists>st'. opt_fold (\<lambda>s ((b, k), m). uninstall_key slot b s k) (st, n) ks = Some (st', n + length ks) \<and> reindexed st st' \<and>
    map length (am_places st') = map length (am_places st) \<and>
    indexed st' (\<lambda>(s, i). if s = slot \<and> n \<le> i \<and> i < n + length ks then None else own (s, i))"
  using assms
proof (induction ks arbitrary: st own n)
  case Nil
  have "(\<lambda>(s, i). if s = slot \<and> n \<le> i \<and> i < n + length [] then None else own (s, i)) = own" by (auto simp: fun_eq_iff)
  with Nil show ?case by (simp add: reindexed_refl)
next
  case (Cons x ks)
  obtain b k m where x: "x = ((b, k), m)" by (metis surj_pair)
  have "own (slot, n) = Some ((b, k), m)" using Cons.prems(2) [of 0] by (simp add: x)
  from uninstall_key_step [OF Cons.prems(1) this] obtain st1 where st1: "uninstall_key slot b (st, n) k = Some (st1, n + 1)" "reindexed st st1"
      "map length (am_places st1) = map length (am_places st)" "indexed st1 (own((slot, n) := None))" by blast
  have "(own((slot, n) := None)) (slot, n + 1 + i) = Some (ks ! i)" if "i < length ks" for i
    using Cons.prems(2) [of "Suc i"] that by simp
  from Cons.IH [OF st1(4) this] obtain st' where st': "opt_fold (\<lambda>s ((b, k), m). uninstall_key slot b s k) (st1, n + 1) ks = Some (st', n + 1 + length ks)"
      "reindexed st1 st'" "map length (am_places st') = map length (am_places st1)"
      "indexed st' (\<lambda>(s, i). if s = slot \<and> n + 1 \<le> i \<and> i < n + 1 + length ks then None else (own((slot, n) := None)) (s, i))" by blast
  have "(\<lambda>(s, i). if s = slot \<and> n + 1 \<le> i \<and> i < n + 1 + length ks then None else (own((slot, n) := None)) (s, i)) =
      (\<lambda>(s, i). if s = slot \<and> n \<le> i \<and> i < n + length (x # ks) then None else own (s, i))"
    by (auto simp: fun_eq_iff)
  with st' st1 show ?case by (auto simp: x intro: reindexed_trans)
qed

lemma opt_fold_map: "opt_fold f s (map g xs) = opt_fold (\<lambda>s x. f s (g x)) s xs"
  by (induction xs arbitrary: s) simp_all

lemma install_filters_flat:
  "list_all filter_ok fs \<Longrightarrow> opt_fold (install_filter slot) st fs = opt_fold (\<lambda>st ((b, k), m). install_key slot m b st k) st (keys_of fs)"
  by (induction fs arbitrary: st)
    (simp_all add: keys_of_def install_filter_def for_each_key_ok(1) opt_fold_append opt_fold_map)

lemma uninstall_filters_flat:
  "list_all filter_ok fs \<Longrightarrow> opt_fold (uninstall_filter slot) s fs = opt_fold (\<lambda>s ((b, k), m). uninstall_key slot b s k) s (keys_of fs)"
  by (induction fs arbitrary: s)
    (simp_all add: keys_of_def uninstall_filter_def for_each_key_ok(1) opt_fold_append opt_fold_map)

lemma keys_of_ok: "list_all filter_ok fs \<Longrightarrow> list_all (\<lambda>((b, k), m). key_ok k) (keys_of fs)"
  by (induction fs) (use for_each_key_ok(2) in \<open>auto simp: keys_of_def list_all_iff\<close>)

lemma own_of_Some:
  "own_of slots (s, n) = Some x \<longleftrightarrow> s < length slots \<and> (\<exists>e. slots ! s = Some e \<and> n < length (slot_keys e) \<and> slot_keys e ! n = x)"
  by (auto simp: own_of_def nth_opt_def Option.bind_eq_Some_conv split: if_splits)

lemma dom_own_of: "dom (own_of slots) = (SIGMA s:{..<length slots}. {..<key_count (slots ! s)})"
proof (rule set_eqI)
  fix x :: "nat \<times> nat"
  obtain s n where x: "x = (s, n)" by fastforce
  have "x \<in> dom (own_of slots) \<longleftrightarrow> (\<exists>y. own_of slots (s, n) = Some y)" by (auto simp: x)
  then show "x \<in> dom (own_of slots) \<longleftrightarrow> x \<in> (SIGMA s:{..<length slots}. {..<key_count (slots ! s)})"
    by (auto simp: own_of_Some x key_count_def split: option.splits)
qed

lemma card_own_of: "finite (dom (own_of slots))" "card (dom (own_of slots)) = total_keys slots"
  by (simp_all add: dom_own_of total_keys_def sum_list_sum_nth atLeast0LessThan)

lemma own_of_None: "slot < length slots \<Longrightarrow> own_of (slots[slot := None]) = (\<lambda>(s, n). if s = slot then None else own_of slots (s, n))"
  by (auto simp: own_of_def nth_opt_def fun_eq_iff nth_list_update)

lemma own_of_insert:
  "slot < length slots \<Longrightarrow> slots ! slot = None \<Longrightarrow>
    own_of (slots[slot := Some e]) = own_of slots ++ (\<lambda>(s, n). if s = slot \<and> 0 \<le> n then nth_opt (slot_keys e) (n - 0) else None)"
  by (auto simp: own_of_def nth_opt_def fun_eq_iff nth_list_update map_add_def split: option.split)

lemma list_all_update: "list_all P xs \<Longrightarrow> P x \<Longrightarrow> list_all P (xs[i := x])"
  using set_update_subset_insert [of xs i x] by (auto simp: list_all_iff)

lemma core_place_length: "core st \<Longrightarrow> s < length (am_slots st) \<Longrightarrow> s < length (am_places st) \<and> length (am_places st ! s) = key_count (am_slots st ! s)"
  unfolding core_def by (metis length_map nth_map)

lemma uninstall_core:
  assumes c: "core st" and s: "slot < length (am_slots st)" "am_slots st ! slot = Some e"
  shows "\<exists>st'. uninstall st slot = Some (st', e) \<and> core st' \<and>
    reindexed (st\<lparr> am_slots := (am_slots st)[slot := None], am_content := am_content st - slot_content e \<rparr>) st'"
proof -
  let ?fs = "fg_filters (sub_filter_group (mo_sub e))"
  let ?st0 = "st\<lparr> am_slots := (am_slots st)[slot := None], am_content := am_content st - slot_content e \<rparr>"
  have fs: "list_all filter_ok ?fs" using c s nth_mem [OF s(1)] by (auto simp: core_def list_all_iff entry_ok_def group_ok_def)
  have ix: "indexed ?st0 (own_of (am_slots st))" using c indexed_cong [of ?st0 st] by (simp add: core_def)
  have own: "own_of (am_slots st) (slot, 0 + i) = Some (slot_keys e ! i)" if "i < length (slot_keys e)" for i
    using that s by (simp add: own_of_Some)
  obtain st1 where st1: "opt_fold (\<lambda>s ((b, k), m). uninstall_key slot b s k) (?st0, 0) (slot_keys e) = Some (st1, 0 + length (slot_keys e))"
      "reindexed ?st0 st1" "map length (am_places st1) = map length (am_places ?st0)"
      "indexed st1 (\<lambda>(s, i). if s = slot \<and> 0 \<le> i \<and> i < 0 + length (slot_keys e) then None else own_of (am_slots st) (s, i))"
    using uninstall_keys [OF ix own] by blast
  have "(\<lambda>(s, i). if s = slot \<and> 0 \<le> i \<and> i < 0 + length (slot_keys e) then None else own_of (am_slots st) (s, i)) = own_of ((am_slots st)[slot := None])"
    unfolding own_of_None [OF s(1)] using s by (auto simp: fun_eq_iff own_of_def nth_opt_def)
  note i1 = st1(4) [unfolded this]
  define st' where "st' = st1\<lparr> am_places := (am_places st1)[slot := []] \<rparr>"
  have cont: "slot_content e \<le> am_content st" "am_content st - slot_content e = total_content ((am_slots st)[slot := None])"
    using c s sum_list_count_update [OF s(1), of "\<lambda>e. case e of None \<Rightarrow> 0 | Some e \<Rightarrow> slot_content e" None]
    by (simp_all add: core_def total_content_def)
  have re: "reindexed ?st0 st'" using st1(2) unfolding st'_def by (rule reindexed_places)
  have len: "slot < length (am_places st1)" using core_place_length [OF c s(1)] st1(3) by (auto dest: map_eq_imp_length_eq)
  have "uninstall st slot = Some (st', e)"
    using s st1(1) len cont(1) by (simp add: uninstall_def Let_def slot_content_def uninstall_filters_flat [OF fs] slot_keys_def st'_def)
  moreover have "indexed st' (own_of ((am_slots st)[slot := None]))"
  proof -
    have "placed (buckets_of st') ((am_places st1)[slot := []]) (own_of ((am_slots st)[slot := None]))"
      using i1 by (intro placed_clear) (simp_all add: indexed_def st'_def buckets_of_def which_index_def own_of_None [OF s(1)] cong: if_cong)
    then show ?thesis using i1 by (simp add: indexed_def st'_def)
  qed
  moreover have "map length (am_places st') = map key_count ((am_slots st)[slot := None])"
    using c st1(3) by (simp add: core_def st'_def map_update key_count_def)
  moreover have "list_all entry_ok ((am_slots st)[slot := None])"
    using c by (intro list_all_update) (simp_all add: core_def entry_ok_def)
  ultimately show ?thesis using re c cont by (auto simp: core_def [of st'] reindexed_simps [OF re]) (simp add: core_def)
qed

lemma install_core:
  assumes c: "core st" and s: "slot < length (am_slots st)" "am_slots st ! slot = None" and g: "group_ok (sub_filter_group (mo_sub e))"
    and bound: "total_keys (am_slots st) + length (slot_keys e) < 2 ^ 32"
  shows "\<exists>st'. install (st\<lparr> am_slots := (am_slots st)[slot := Some e] \<rparr>) slot = Some st' \<and> core st' \<and>
    reindexed (st\<lparr> am_slots := (am_slots st)[slot := Some e], am_content := am_content st + slot_content e \<rparr>) st'"
proof -
  let ?fs = "fg_filters (sub_filter_group (mo_sub e))"
  let ?st0 = "st\<lparr> am_slots := (am_slots st)[slot := Some e], am_content := am_content st + slot_content e \<rparr>"
  have fs: "list_all filter_ok ?fs" using g by (simp add: group_ok_def)
  have ix: "indexed ?st0 (own_of (am_slots st))" using c indexed_cong [of ?st0 st] by (simp add: core_def)
  have pl: "slot < length (am_places ?st0)" "length (am_places ?st0 ! slot) = 0"
    using core_place_length [OF c s(1)] s(2) by (simp_all add: key_count_def)
  have none: "own_of (am_slots st) (slot, n) = None" for n using s by (simp add: own_of_def)
  have b: "card (dom (own_of (am_slots st))) + length (slot_keys e) < 2 ^ 32" "length (am_places ?st0 ! slot) + length (slot_keys e) < 2 ^ 32"
    using bound pl(2) by (simp_all add: card_own_of)
  obtain st' where st': "opt_fold (\<lambda>st ((b, k), m). install_key slot m b st k) ?st0 (slot_keys e) = Some st'" "reindexed ?st0 st'"
      "map length (am_places st') = (map length (am_places ?st0))[slot := 0 + length (slot_keys e)]"
      "indexed st' (own_of (am_slots st) ++ (\<lambda>(s, n). if s = slot \<and> 0 \<le> n then nth_opt (slot_keys e) (n - 0) else None))"
    using install_keys [OF ix pl(1) none keys_of_ok [OF fs, folded slot_keys_def] card_own_of(1) b, unfolded pl(2)] by blast
  note i1 = st'(4) [folded own_of_insert [OF s]]
  have "install (st\<lparr> am_slots := (am_slots st)[slot := Some e] \<rparr>) slot = Some st'"
    using s(1) st'(1) by (simp add: install_def Let_def slot_content_def install_filters_flat [OF fs] slot_keys_def)
  moreover have "map length (am_places st') = map key_count ((am_slots st)[slot := Some e])"
    using c st'(3) by (simp add: core_def map_update key_count_def)
  moreover have "list_all entry_ok ((am_slots st)[slot := Some e])"
    using c g by (intro list_all_update) (simp_all add: core_def entry_ok_def)
  moreover have "am_content st + slot_content e = total_content ((am_slots st)[slot := Some e])"
    using c s sum_list_count_update [OF s(1), of "\<lambda>e. case e of None \<Rightarrow> 0 | Some e \<Rightarrow> slot_content e" "Some e"]
    by (simp add: core_def total_content_def)
  ultimately show ?thesis using st'(2) i1 c by (auto simp: core_def [of st'] reindexed_simps [OF st'(2)]) (simp add: core_def)
qed

section \<open>Connections\<close>

definition key_of :: "monitored \<Rightarrow> u64 \<times> bytes" where
  "key_of e = (sub_conn_id (mo_sub e), sub_sub_id (mo_sub e))"

definition conn_slots :: "(u64 \<times> (bytes \<times> nat) list) list \<Rightarrow> u64 \<times> bytes \<Rightarrow> nat option" where
  "conn_slots conns = (\<lambda>(c, sid). Option.bind (map_of conns c) (\<lambda>subs. map_of subs sid))"

definition conns_wf :: "(u64 \<times> (bytes \<times> nat) list) list \<Rightarrow> bool" where
  "conns_wf conns \<longleftrightarrow> distinct (map fst conns) \<and> (\<forall>(c, subs) \<in> set conns. distinct (map fst subs) \<and> subs \<noteq> [])"

text \<open>The connections name exactly the occupied slots.\<close>

definition linked :: "(u64 \<times> bytes \<Rightarrow> nat option) \<Rightarrow> monitored option list \<Rightarrow> bool" where
  "linked cs slots \<longleftrightarrow> (\<forall>k s. cs k = Some s \<longleftrightarrow> s < length slots \<and> map_option key_of (slots ! s) = Some k)"

definition view :: "active_monitors \<Rightarrow> u64 \<times> bytes \<Rightarrow> monitored option" where
  "view st k = Option.bind (conn_slots (am_conns st) k) (\<lambda>s. am_slots st ! s)"

text \<open>The slots in \<open>F\<close> are neither free nor occupied while a subscription is being opened.\<close>

definition mon_part :: "nat set \<Rightarrow> active_monitors \<Rightarrow> bool" where
  "mon_part F st \<longleftrightarrow> core st \<and> (\<forall>x \<in> set (am_seen st). x \<le> am_pass st) \<and> distinct (am_free st) \<and>
     set (am_free st) = {s. s < length (am_slots st) \<and> am_slots st ! s = None} - F"

definition mon_ok :: "active_monitors \<Rightarrow> bool" where
  "mon_ok st \<longleftrightarrow> mon_part {} st \<and> conns_wf (am_conns st) \<and> linked (conn_slots (am_conns st)) (am_slots st)"

lemma slot_of_conn: "slot_of st c sid = conn_slots (am_conns st) (c, sid)"
  by (simp add: slot_of_def conn_slots_def)

lemma linked_iff: "linked cs slots \<Longrightarrow> cs k = Some s \<longleftrightarrow> s < length slots \<and> map_option key_of (slots ! s) = Some k"
  unfolding linked_def by blast

lemma linkedD: "linked cs slots \<Longrightarrow> cs k = Some s \<Longrightarrow> s < length slots \<and> (\<exists>e. slots ! s = Some e \<and> key_of e = k)"
  by (auto simp: linked_iff)

lemma linkedI: "linked cs slots \<Longrightarrow> s < length slots \<Longrightarrow> slots ! s = Some e \<Longrightarrow> cs (key_of e) = Some s"
  by (simp add: linked_iff)

lemma linked_remove:
  assumes "linked cs slots" "cs k = Some s"
  shows "linked (cs(k := None)) (slots[s := None])"
  unfolding linked_def
proof (intro allI)
  fix k' s'
  have s: "s < length slots" "map_option key_of (slots ! s) = Some k" using linked_iff [OF assms(1)] assms(2) by blast+
  show "(cs(k := None)) k' = Some s' \<longleftrightarrow> s' < length (slots[s := None]) \<and> map_option key_of (slots[s := None] ! s') = Some k'"
    using linked_iff [OF assms(1), of k' s'] s assms(2) by (cases "s' = s"; cases "k' = k") auto
qed

lemma linked_insert:
  assumes "linked cs slots" "cs k = None" "s < length slots" "slots ! s = None" "key_of e = k"
  shows "linked (cs(k \<mapsto> s)) (slots[s := Some e])"
  unfolding linked_def
proof (intro allI)
  fix k' s'
  show "(cs(k \<mapsto> s)) k' = Some s' \<longleftrightarrow> s' < length (slots[s := Some e]) \<and> map_option key_of (slots[s := Some e] ! s') = Some k'"
    using linked_iff [OF assms(1), of k' s'] assms by (cases "s' = s"; cases "k' = k") auto
qed

lemma linked_snoc: "linked cs slots \<Longrightarrow> linked cs (slots @ [None])"
  unfolding linked_def by (intro allI) (auto simp: nth_append less_Suc_eq)

lemma view_linked:
  assumes "linked (conn_slots (am_conns st)) (am_slots st)"
  shows "view st k = Some e \<longleftrightarrow> (\<exists>s < length (am_slots st). am_slots st ! s = Some e \<and> key_of e = k)"
proof
  assume "view st k = Some e"
  then obtain s where "conn_slots (am_conns st) k = Some s" "am_slots st ! s = Some e" by (auto simp: view_def Option.bind_eq_Some_conv)
  with linkedD [OF assms] show "\<exists>s < length (am_slots st). am_slots st ! s = Some e \<and> key_of e = k" by fastforce
next
  assume "\<exists>s < length (am_slots st). am_slots st ! s = Some e \<and> key_of e = k"
  then show "view st k = Some e" using linkedI [OF assms] by (auto simp: view_def)
qed

lemma view_update:
  assumes "linked (conn_slots (am_conns st')) (am_slots st')" "conn_slots (am_conns st') = cs'" "am_slots st' = slots'"
    and "\<And>k'. k' \<noteq> k \<Longrightarrow> cs' k' = conn_slots (am_conns st) k'" "\<And>k' s. k' \<noteq> k \<Longrightarrow> cs' k' = Some s \<Longrightarrow> slots' ! s = am_slots st ! s"
  shows "view st' = (view st)(k := Option.bind (cs' k) (\<lambda>s. slots' ! s))"
proof
  fix k'
  show "view st' k' = ((view st)(k := Option.bind (cs' k) (\<lambda>s. slots' ! s))) k'"
    using assms by (cases "k' = k"; cases "cs' k'") (simp_all add: view_def)
qed

text \<open>Writing and deleting an entry of the connections.\<close>

lemma conn_slots_update:
  "conn_slots (AList.update c (AList.update sid s (case map_of conns c of None \<Rightarrow> [] | Some subs \<Rightarrow> subs)) conns) = (conn_slots conns)((c, sid) \<mapsto> s)"
  by (auto simp: conn_slots_def fun_eq_iff update_conv' split: option.split)

lemma conns_wf_update:
  assumes "conns_wf conns"
  shows "conns_wf (AList.update c (AList.update sid s (case map_of conns c of None \<Rightarrow> [] | Some subs \<Rightarrow> subs)) conns)"
proof -
  let ?subs = "case map_of conns c of None \<Rightarrow> [] | Some subs \<Rightarrow> subs"
  have "distinct (map fst ?subs)" using assms by (auto simp: conns_wf_def dest: map_of_SomeD split: option.split)
  define u where "u = AList.update sid s ?subs"
  have "distinct (map fst u)" "u \<noteq> []" unfolding u_def using \<open>distinct (map fst ?subs)\<close> by (simp_all add: distinct_update)
  with assms set_alist_update [of c u conns] show ?thesis
    unfolding u_def [symmetric] by (auto simp: conns_wf_def distinct_update)
qed

definition conns_delete :: "u64 \<Rightarrow> bytes \<Rightarrow> (bytes \<times> nat) list \<Rightarrow> (u64 \<times> (bytes \<times> nat) list) list \<Rightarrow> (u64 \<times> (bytes \<times> nat) list) list" where
  "conns_delete c sid subs conns = (if AList.delete sid subs = [] then AList.delete c conns else AList.update c (AList.delete sid subs) conns)"

lemma conn_slots_delete:
  assumes "map_of conns c = Some subs"
  shows "conn_slots (conns_delete c sid subs conns) = (conn_slots conns)((c, sid) := None)"
proof -
  have "map_of subs sid' = None" if "AList.delete sid subs = []" "sid' \<noteq> sid" for sid'
    using that delete_conv [of sid subs] by (metis fun_upd_apply map_of.simps(1))
  with assms show ?thesis by (auto simp: conns_delete_def conn_slots_def fun_eq_iff update_conv' delete_conv')
qed

lemma conns_wf_delete:
  assumes "conns_wf conns" "map_of conns c = Some subs"
  shows "conns_wf (conns_delete c sid subs conns)"
proof -
  have "distinct (map fst (AList.delete sid subs))" using assms by (auto simp: conns_wf_def distinct_delete dest: map_of_SomeD)
  with assms(1) set_alist_update [of c "AList.delete sid subs" conns] distinct_delete [of conns c] show ?thesis
    by (auto simp: conns_wf_def conns_delete_def distinct_update AList.delete_eq)
qed

section \<open>Opening and closing\<close>

definition kept :: "active_monitors \<Rightarrow> active_monitors \<Rightarrow> bool" where
  "kept st st' \<longleftrightarrow> am_conns st' = am_conns st \<and> am_pass st' = am_pass st \<and> am_max_subs st' = am_max_subs st"

lemma uninstall_part:
  assumes m: "mon_part F st" and s: "slot < length (am_slots st)" "am_slots st ! slot = Some e"
  shows "\<exists>st'. uninstall st slot = Some (st', e) \<and> mon_part (insert slot F) st' \<and> am_slots st' = (am_slots st)[slot := None] \<and>
    am_free st' = am_free st \<and> kept st st'"
proof -
  from m have c: "core st" by (simp add: mon_part_def)
  obtain st' where st': "uninstall st slot = Some (st', e)" "core st'"
      "reindexed (st\<lparr> am_slots := (am_slots st)[slot := None], am_content := am_content st - slot_content e \<rparr>) st'"
    using uninstall_core [OF c s] by blast
  note eqs = reindexed_simps [OF st'(3), simplified]
  have "set (am_free st) = {s. s < length (am_slots st') \<and> am_slots st' ! s = None} - insert slot F"
    using m s by (auto simp: mon_part_def eqs nth_list_update split: if_splits)
  with m st' show ?thesis by (auto simp: mon_part_def eqs kept_def)
qed

lemma release_part:
  assumes m: "mon_part {} st" and s: "slot < length (am_slots st)" "am_slots st ! slot \<noteq> None"
  shows "\<exists>st'. release st slot = Some st' \<and> mon_part {} st' \<and> am_slots st' = (am_slots st)[slot := None] \<and> kept st st'"
proof -
  from s(2) obtain e where e: "am_slots st ! slot = Some e" by blast
  obtain st1 where st1: "uninstall st slot = Some (st1, e)" "mon_part {slot} st1" "am_slots st1 = (am_slots st)[slot := None]"
      "am_free st1 = am_free st" "kept st st1"
    using uninstall_part [OF m s(1) e] by blast
  let ?st' = "st1\<lparr> am_free := am_free st1 @ [slot] \<rparr>"
  have "core ?st' \<longleftrightarrow> core st1" using indexed_cong [of ?st' st1] by (simp add: core_def)
  moreover have "set (am_free st1 @ [slot]) = {s. s < length (am_slots st1) \<and> am_slots st1 ! s = None}" "slot \<notin> set (am_free st1)"
    using st1(2) s(1) st1(3) by (auto simp: mon_part_def)
  ultimately have "mon_part {} ?st'" using st1(2) by (simp add: mon_part_def)
  with st1 show ?thesis by (auto simp: release_def kept_def)
qed

lemma install_part:
  assumes m: "mon_part {slot} st" and s: "slot < length (am_slots st)" "am_slots st ! slot = None" and g: "group_ok (sub_filter_group (mo_sub e))"
    and bound: "total_keys (am_slots st) + length (slot_keys e) < 2 ^ 32"
  shows "\<exists>st'. install (st\<lparr> am_slots := (am_slots st)[slot := Some e] \<rparr>) slot = Some st' \<and> mon_part {} st' \<and>
    am_slots st' = (am_slots st)[slot := Some e] \<and> kept st st'"
proof -
  from m have c: "core st" by (simp add: mon_part_def)
  obtain st' where st': "install (st\<lparr> am_slots := (am_slots st)[slot := Some e] \<rparr>) slot = Some st'" "core st'"
      "reindexed (st\<lparr> am_slots := (am_slots st)[slot := Some e], am_content := am_content st + slot_content e \<rparr>) st'"
    using install_core [OF c s g bound] by blast
  note eqs = reindexed_simps [OF st'(3), simplified]
  have "set (am_free st) = {s. s < length (am_slots st') \<and> am_slots st' ! s = None}"
    using m s by (auto simp: mon_part_def eqs nth_list_update split: if_splits)
  with m st' show ?thesis by (auto simp: mon_part_def eqs kept_def)
qed

lemma placed_snoc: "placed bk places own \<Longrightarrow> placed bk (places @ [[]]) own"
proof (rule placedI, goal_cases)
  case (1 s n k m)
  then show ?case using placed_own [OF 1] by (simp add: nth_append)
next
  case (2 k j)
  note p = placed_posting [OF 2]
  show ?case using p placed_own(1) [OF 2(1) p(1)] by (simp add: nth_append)
qed

lemma own_of_snoc: "own_of (slots @ [None]) = own_of slots"
  by (auto simp: own_of_def nth_opt_def nth_append fun_eq_iff)

lemma allocate_part:
  assumes m: "mon_part {} st" and bound: "length (am_slots st) < 2 ^ 32"
  shows "\<exists>st' s. allocate st = Some (st', s) \<and> mon_part {s} st' \<and> s < length (am_slots st') \<and> am_slots st' ! s = None \<and>
    (am_slots st' = am_slots st \<or> am_slots st' = am_slots st @ [None]) \<and> kept st st'"
proof (cases "am_free st = []")
  case False
  let ?s = "last (am_free st)" and ?st' = "st\<lparr> am_free := butlast (am_free st) \<rparr>"
  have "core ?st' \<longleftrightarrow> core st" using indexed_cong [of ?st' st] by (simp add: core_def)
  moreover have "set (am_free st) = insert ?s (set (butlast (am_free st)))" "?s \<notin> set (butlast (am_free st))" "distinct (butlast (am_free st))"
  proof -
    have f: "am_free st = butlast (am_free st) @ [?s]" using False by simp
    have "distinct (am_free st)" using m by (simp add: mon_part_def)
    then have "distinct (butlast (am_free st) @ [?s])" using f by metis
    then show "?s \<notin> set (butlast (am_free st))" "distinct (butlast (am_free st))" by simp_all
    show "set (am_free st) = insert ?s (set (butlast (am_free st)))" by (subst f) simp
  qed
  moreover have "set (am_free st) = {s. s < length (am_slots st) \<and> am_slots st ! s = None}" using m by (simp add: mon_part_def)
  ultimately have "mon_part {?s} ?st'" "?s < length (am_slots st)" "am_slots st ! ?s = None" using m by (auto simp: mon_part_def)
  with False show ?thesis by (auto simp: allocate_def kept_def)
next
  case True
  let ?s = "length (am_slots st)"
  let ?st' = "st\<lparr> am_slots := am_slots st @ [None], am_places := am_places st @ [[]], am_seen := am_seen st @ [0] \<rparr>"
  have c: "core st" using m by (simp add: mon_part_def)
  have "buckets_of ?st' = buckets_of st" by (auto simp: buckets_of_def which_index_def fun_eq_iff)
  then have "indexed ?st' (own_of (am_slots st @ [None]))" using c by (simp add: core_def indexed_def placed_snoc own_of_snoc)
  then have "core ?st'" using c by (simp add: core_def key_count_def entry_ok_def total_content_def)
  moreover have "{s. s < length (am_slots ?st') \<and> am_slots ?st' ! s = None} - {?s} = {}"
    using m True by (auto simp: mon_part_def nth_append less_Suc_eq)
  ultimately have "mon_part {?s} ?st'" using m True by (simp add: mon_part_def)
  with True bound show ?thesis by (auto simp: allocate_def position_def kept_def)
qed

lemma total_keys_None: "s < length slots \<Longrightarrow> total_keys (slots[s := None]) \<le> total_keys slots"
  using sum_list_count_update [of s slots key_count None] by (simp add: total_keys_def key_count_def)

text \<open>Opening a subscription, in its old slot or in a new one.\<close>

lemma take_slot_ok:
  assumes m: "mon_ok st" and bound: "length (am_slots st) < 2 ^ 32" and k: "k = (sub_conn_id sub, sub_sub_id sub)"
  shows "\<exists>st' s. take_slot st sub = Some (st', s) \<and> mon_part {s} st' \<and> s < length (am_slots st') \<and> am_slots st' ! s = None \<and>
    conns_wf (am_conns st') \<and> conn_slots (am_conns st') = (conn_slots (am_conns st))(k \<mapsto> s) \<and>
    linked ((conn_slots (am_conns st))(k := None)) (am_slots st') \<and>
    total_keys (am_slots st') \<le> total_keys (am_slots st) \<and> length (am_slots st') \<le> Suc (length (am_slots st)) \<and>
    am_max_subs st' = am_max_subs st \<and> am_pass st' = am_pass st \<and>
    (\<forall>s' < length (am_slots st). s' \<noteq> s \<longrightarrow> am_slots st' ! s' = am_slots st ! s')"
proof (cases "conn_slots (am_conns st) k")
  case (Some s)
  have l: "linked (conn_slots (am_conns st)) (am_slots st)" and p: "mon_part {} st" and w: "conns_wf (am_conns st)" using m by (simp_all add: mon_ok_def)
  from linkedD [OF l Some] obtain e where s: "s < length (am_slots st)" "am_slots st ! s = Some e" by blast
  obtain st' where st': "uninstall st s = Some (st', e)" "mon_part {s} st'" "am_slots st' = (am_slots st)[s := None]" "kept st st'"
    using uninstall_part [OF p s] by blast
  have "(conn_slots (am_conns st))(k \<mapsto> s) = conn_slots (am_conns st)" using Some by auto
  moreover have "take_slot st sub = Some (st', s)" using Some st'(1) by (simp add: take_slot_def slot_of_conn k)
  ultimately show ?thesis using st' s w linked_remove [OF l Some] total_keys_None [OF s(1)] by (auto simp: kept_def)
next
  case None
  have l: "linked (conn_slots (am_conns st)) (am_slots st)" and p: "mon_part {} st" and w: "conns_wf (am_conns st)" using m by (simp_all add: mon_ok_def)
  obtain st1 s where st1: "allocate st = Some (st1, s)" "mon_part {s} st1" "s < length (am_slots st1)" "am_slots st1 ! s = None"
      "am_slots st1 = am_slots st \<or> am_slots st1 = am_slots st @ [None]" "kept st st1"
    using allocate_part [OF p bound] by blast
  let ?subs = "case map_of (am_conns st1) (sub_conn_id sub) of None \<Rightarrow> [] | Some subs \<Rightarrow> subs"
  let ?st' = "st1\<lparr> am_conns := AList.update (sub_conn_id sub) (AList.update (sub_sub_id sub) s ?subs) (am_conns st1) \<rparr>"
  have "core ?st' \<longleftrightarrow> core st1" using indexed_cong [of ?st' st1] by (simp add: core_def)
  then have "mon_part {s} ?st'" using st1(2) by (simp add: mon_part_def)
  moreover have "take_slot st sub = Some (?st', s)" using None st1(1) by (simp add: take_slot_def slot_of_conn k Let_def)
  moreover have "(conn_slots (am_conns st))(k := None) = conn_slots (am_conns st)" using None by auto
  then have "linked ((conn_slots (am_conns st))(k := None)) (am_slots st1)" using st1(5) l linked_snoc by auto
  moreover have "total_keys (am_slots st1) = total_keys (am_slots st)" using st1(5) by (auto simp: total_keys_def key_count_def)
  ultimately show ?thesis using st1 w by (auto simp: kept_def k conn_slots_update conns_wf_update nth_append)
qed

lemma monitors_insert_ok:
  assumes m: "mon_ok st" and g: "group_ok (sub_filter_group sub)" and e: "e = \<lparr> mo_sub = sub, mo_pending = pending \<rparr>"
    and bound: "length (am_slots st) < 2 ^ 32" "total_keys (am_slots st) + length (slot_keys e) < 2 ^ 32"
  shows "\<exists>st'. monitors_insert st sub pending = Some st' \<and> mon_ok st' \<and> view st' = (view st)(key_of e \<mapsto> e) \<and>
    am_max_subs st' = am_max_subs st \<and> am_pass st' = am_pass st \<and>
    total_keys (am_slots st') \<le> total_keys (am_slots st) + length (slot_keys e) \<and> length (am_slots st') \<le> Suc (length (am_slots st))"
proof -
  let ?k = "key_of e" and ?cs = "conn_slots (am_conns st)"
  have k: "?k = (sub_conn_id sub, sub_sub_id sub)" and g': "group_ok (sub_filter_group (mo_sub e))" using g by (simp_all add: key_of_def e)
  obtain st1 s where st1: "take_slot st sub = Some (st1, s)" "mon_part {s} st1" "s < length (am_slots st1)" "am_slots st1 ! s = None"
      "conns_wf (am_conns st1)" "conn_slots (am_conns st1) = ?cs(?k \<mapsto> s)" "linked (?cs(?k := None)) (am_slots st1)"
      "total_keys (am_slots st1) \<le> total_keys (am_slots st)" "length (am_slots st1) \<le> Suc (length (am_slots st))"
      "am_max_subs st1 = am_max_subs st" "am_pass st1 = am_pass st"
      and same: "\<forall>s' < length (am_slots st). s' \<noteq> s \<longrightarrow> am_slots st1 ! s' = am_slots st ! s'"
    using take_slot_ok [OF m bound(1) k] by blast
  have "total_keys (am_slots st1) + length (slot_keys e) < 2 ^ 32" using st1(8) bound(2) by simp
  from install_part [OF st1(2-4) g' this] obtain st' where st': "install (st1\<lparr> am_slots := (am_slots st1)[s := Some e] \<rparr>) s = Some st'"
      "mon_part {} st'" "am_slots st' = (am_slots st1)[s := Some e]" "kept st1 st'" by blast
  have cs': "conn_slots (am_conns st') = ?cs(?k \<mapsto> s)" using st'(4) st1(6) by (simp add: kept_def)
  have "linked ((?cs(?k := None))(?k \<mapsto> s)) ((am_slots st1)[s := Some e])" by (rule linked_insert [OF st1(7)]) (use st1 in simp_all)
  then have l': "linked (conn_slots (am_conns st')) (am_slots st')" by (simp add: cs' st'(3))
  have "view st' = (view st)(?k := Option.bind ((?cs(?k \<mapsto> s)) ?k) (\<lambda>s. am_slots st' ! s))"
  proof (rule view_update [OF l' cs' refl])
    fix k' s' assume ne: "k' \<noteq> ?k" and c: "(?cs(?k \<mapsto> s)) k' = Some s'"
    then have "?cs k' = Some s'" by simp
    with linkedD [of ?cs "am_slots st" k' s'] m have "s' < length (am_slots st)" by (simp add: mon_ok_def)
    moreover have "s' \<noteq> s"
      using ne c linked_iff [OF st1(7), of k' s] st1(4) by (cases "s' = s") simp_all
    ultimately show "am_slots st' ! s' = am_slots st ! s'" using same st'(3) by simp
  qed simp
  moreover have "total_keys (am_slots st') = total_keys (am_slots st1) + length (slot_keys e)"
    using sum_list_count_update [OF st1(3), of key_count "Some e"] st1(4) by (simp add: total_keys_def st'(3) key_count_def)
  moreover have "monitors_insert st sub pending = Some st'" using st1(1,3) st'(1) by (simp add: monitors_insert_def e)
  ultimately show ?thesis using st' st1 l' by (auto simp: mon_ok_def kept_def)
qed

text \<open>What an operation that opens no subscription changes: the view, and nothing grows.\<close>

definition moved :: "active_monitors \<Rightarrow> (u64 \<times> bytes \<Rightarrow> monitored option) \<Rightarrow> active_monitors \<Rightarrow> bool" where
  "moved st v st' \<longleftrightarrow> mon_ok st' \<and> view st' = v \<and> am_max_subs st' = am_max_subs st \<and> am_pass st' = am_pass st \<and>
     total_keys (am_slots st') \<le> total_keys (am_slots st) \<and> length (am_slots st') = length (am_slots st)"

lemma moved_refl: "mon_ok st \<Longrightarrow> moved st (view st) st"
  by (simp add: moved_def)

lemma moved_trans: "moved st v st1 \<Longrightarrow> moved st1 v' st2 \<Longrightarrow> moved st v' st2"
  by (auto simp: moved_def)

lemma view_None: "mon_ok st \<Longrightarrow> view st k = None \<longleftrightarrow> conn_slots (am_conns st) k = None"
  using linkedD [of "conn_slots (am_conns st)" "am_slots st" k]
  by (cases "conn_slots (am_conns st) k") (auto simp: mon_ok_def view_def)

lemma remove_sub_ok:
  assumes m: "mon_ok st"
  shows "\<exists>st'. remove_sub st c sid = Some st' \<and> moved st ((view st)((c, sid) := None)) st'"
proof (cases "conn_slots (am_conns st) (c, sid)")
  case None
  then have "(view st)((c, sid) := None) = view st" using view_None [OF m, of "(c, sid)"] None by (simp add: fun_upd_idem)
  moreover have "remove_sub st c sid = Some st" using None
    by (auto simp: remove_sub_def conn_slots_def split: option.split bind_splits)
  ultimately show ?thesis using moved_refl [OF m] by simp
next
  case (Some s)
  then obtain subs where subs: "map_of (am_conns st) c = Some subs" "map_of subs sid = Some s"
    by (auto simp: conn_slots_def Option.bind_eq_Some_conv)
  have l: "linked (conn_slots (am_conns st)) (am_slots st)" and p: "mon_part {} st" and w: "conns_wf (am_conns st)" using m by (simp_all add: mon_ok_def)
  let ?st1 = "st\<lparr> am_conns := conns_delete c sid subs (am_conns st) \<rparr>"
  have "core ?st1 \<longleftrightarrow> core st" using indexed_cong [of ?st1 st] by (simp add: core_def)
  then have p1: "mon_part {} ?st1" using p by (simp add: mon_part_def)
  have s: "s < length (am_slots st)" "am_slots st ! s \<noteq> None" using linkedD [OF l Some] by auto
  obtain st' where st': "release ?st1 s = Some st'" "mon_part {} st'" "am_slots st' = (am_slots st)[s := None]" "kept ?st1 st'"
    using release_part [OF p1, of s] s by auto
  have cs': "conn_slots (am_conns st') = (conn_slots (am_conns st))((c, sid) := None)"
    using st'(4) conn_slots_delete [OF subs(1)] by (simp add: kept_def)
  have l': "linked (conn_slots (am_conns st')) (am_slots st')" using linked_remove [OF l Some] by (simp add: cs' st'(3))
  have "view st' = (view st)((c, sid) := Option.bind (((conn_slots (am_conns st))((c, sid) := None)) (c, sid)) (\<lambda>s. am_slots st' ! s))"
  proof (rule view_update [OF l' cs' refl])
    fix k' s' assume ne: "k' \<noteq> (c, sid)" and c: "((conn_slots (am_conns st))((c, sid) := None)) k' = Some s'"
    then have "s' \<noteq> s" using linked_iff [OF l, of k' s] linked_iff [OF l, of "(c, sid)" s] Some by auto
    then show "am_slots st' ! s' = am_slots st ! s'" by (simp add: st'(3))
  qed simp
  moreover have "remove_sub st c sid = Some st'" using subs st'(1) by (simp add: remove_sub_def conns_delete_def Let_def)
  moreover have "conns_wf (am_conns st')" using st'(4) conns_wf_delete [OF w subs(1)] by (simp add: kept_def)
  ultimately show ?thesis using st' l' total_keys_None [OF s(1)] by (auto simp: moved_def mon_ok_def kept_def)
qed

text \<open>Closing a connection.\<close>

lemma release_all:
  assumes "mon_part {} st" "distinct ss" "\<And>s. s \<in> set ss \<Longrightarrow> s < length (am_slots st) \<and> am_slots st ! s \<noteq> None"
  shows "\<exists>st'. opt_fold release st ss = Some st' \<and> mon_part {} st' \<and> kept st st' \<and> length (am_slots st') = length (am_slots st) \<and>
    total_keys (am_slots st') \<le> total_keys (am_slots st) \<and> (\<forall>s. am_slots st' ! s = (if s \<in> set ss then None else am_slots st ! s))"
  using assms
proof (induction ss arbitrary: st)
  case Nil
  then show ?case by (simp add: kept_def)
next
  case (Cons s ss)
  have s: "s < length (am_slots st)" "am_slots st ! s \<noteq> None" using Cons.prems(3) by auto
  obtain st1 where st1: "release st s = Some st1" "mon_part {} st1" "am_slots st1 = (am_slots st)[s := None]" "kept st st1"
    using release_part [OF Cons.prems(1) s] by blast
  have occ: "i < length (am_slots st1) \<and> am_slots st1 ! i \<noteq> None" if "i \<in> set ss" for i
    using Cons.prems(2) Cons.prems(3) [of i] that by (cases "i = s") (simp_all add: st1(3))
  have "distinct ss" using Cons.prems(2) by simp
  from Cons.IH [OF st1(2) this occ]
  obtain st' where st': "opt_fold release st1 ss = Some st'" "mon_part {} st'" "kept st1 st'" "length (am_slots st') = length (am_slots st1)"
      "total_keys (am_slots st') \<le> total_keys (am_slots st1)" "\<forall>s. am_slots st' ! s = (if s \<in> set ss then None else am_slots st1 ! s)" by blast
  have "am_slots st' ! i = (if i \<in> set (s # ss) then None else am_slots st ! i)" for i
    using st'(6) s(1) by (cases "i = s") (simp_all add: st1(3))
  with st1 st' total_keys_None [OF s(1)] show ?case by (auto simp: kept_def)
qed

lemma close_conn_ok:
  assumes m: "mon_ok st"
  shows "\<exists>st'. close_conn st c = Some st' \<and> moved st (\<lambda>k. if fst k = c then None else view st k) st'"
proof (cases "map_of (am_conns st) c")
  case None
  then have "(\<lambda>k. if fst k = c then None else view st k) = view st" by (auto simp: view_def conn_slots_def fun_eq_iff)
  moreover have "close_conn st c = Some st" using None by (simp add: close_conn_def)
  ultimately show ?thesis using moved_refl [OF m] by simp
next
  case (Some subs)
  have l: "linked (conn_slots (am_conns st)) (am_slots st)" and p: "mon_part {} st" and w: "conns_wf (am_conns st)" using m by (simp_all add: mon_ok_def)
  have d: "distinct (map fst subs)" using w Some by (auto simp: conns_wf_def dest: map_of_SomeD)
  have cs: "conn_slots (am_conns st) (c, sid) = map_of subs sid" for sid using Some by (simp add: conn_slots_def)
  have in_subs: "s \<in> set (map snd subs) \<longleftrightarrow> (\<exists>sid. conn_slots (am_conns st) (c, sid) = Some s)" for s
    using d by (force simp: cs)
  have inj: "sid = sid'" if "map_of subs sid = Some s" "map_of subs sid' = Some s" for sid sid' s
    using that linked_iff [OF l, of "(c, sid)" s] linked_iff [OF l, of "(c, sid')" s] by (auto simp: cs)
  have dist: "distinct (map snd subs)"
  proof (rule distinct_conv_nth [THEN iffD2], intro allI impI)
    fix i j assume ij: "i < length (map snd subs)" "j < length (map snd subs)" "i \<noteq> j"
    have "map_of subs (fst (subs ! i)) = Some (snd (subs ! i))" if "i < length subs" for i using d that by simp
    with ij d inj [of "fst (subs ! i)" "snd (subs ! i)" "fst (subs ! j)"] show "map snd subs ! i \<noteq> map snd subs ! j"
      by (auto simp: distinct_conv_nth)
  qed
  let ?st1 = "st\<lparr> am_conns := AList.delete c (am_conns st) \<rparr>"
  have "core ?st1 \<longleftrightarrow> core st" using indexed_cong [of ?st1 st] by (simp add: core_def)
  then have p1: "mon_part {} ?st1" using p by (simp add: mon_part_def)
  have occ: "s < length (am_slots ?st1) \<and> am_slots ?st1 ! s \<noteq> None" if "s \<in> set (map snd subs)" for s
    using that linkedD [OF l] unfolding in_subs by fastforce
  obtain st' where st': "opt_fold release ?st1 (map snd subs) = Some st'" "mon_part {} st'" "kept ?st1 st'" "length (am_slots st') = length (am_slots st)"
      "total_keys (am_slots st') \<le> total_keys (am_slots st)"
      "\<And>s. am_slots st' ! s = (if s \<in> set (map snd subs) then None else am_slots st ! s)"
    using release_all [OF p1 dist occ] by auto
  have cs': "conn_slots (am_conns st') k = (if fst k = c then None else conn_slots (am_conns st) k)" for k
    using st'(3) by (cases k) (simp add: kept_def conn_slots_def delete_conv')
  have other: "s \<notin> set (map snd subs)" if "fst k \<noteq> c" "conn_slots (am_conns st) k = Some s" for k s
    using that linked_iff [OF l] unfolding in_subs by (metis fst_conv option.inject)
  have "linked (conn_slots (am_conns st')) (am_slots st')"
    unfolding linked_def cs'
  proof (intro allI)
    fix k s
    have "s \<in> set (map snd subs)" if "s < length (am_slots st)" "map_option key_of (am_slots st ! s) = Some k" "fst k = c"
      using that linked_iff [OF l, of k s] unfolding in_subs by (metis prod.collapse)
    then show "(if fst k = c then None else conn_slots (am_conns st) k) = Some s \<longleftrightarrow> s < length (am_slots st') \<and> map_option key_of (am_slots st' ! s) = Some k"
      using linked_iff [OF l, of k s] other [of k s] st'(4,6) by auto
  qed
  moreover have "conns_wf (am_conns st')"
    using w st'(3) distinct_delete [of "am_conns st" c] by (auto simp: kept_def conns_wf_def AList.delete_eq)
  moreover have "view st' = (\<lambda>k. if fst k = c then None else view st k)"
  proof
    fix k
    show "view st' k = (if fst k = c then None else view st k)"
      using other [of k] st'(6) by (cases "conn_slots (am_conns st) k") (simp_all add: view_def cs')
  qed
  ultimately show ?thesis using st' Some by (auto simp: close_conn_def moved_def mon_ok_def kept_def)
qed

end
