(* ===== verification/Query_Live.thy ===== *)
theory Query_Live
  imports Query_Slots
begin

text \<open>
  What the live subscriptions promise: the operations of \<open>ActiveMonitors\<close> behave like operations on a plain
  map from connection and subscription id to subscription, do not panic, deliver each event to exactly the
  subscriptions that match it, and leave no postings behind.
\<close>

unbundle bit_operations_syntax

section \<open>Changes inside a slot\<close>

text \<open>What the index depends on: the key and the filters of a subscription.\<close>

definition ident :: "monitored \<Rightarrow> (u64 \<times> bytes) \<times> filter_group" where
  "ident e = (key_of e, sub_filter_group (mo_sub e))"

lemma same_ident:
  assumes m: "mon_ok st" and eq: "map (map_option ident) slots' = map (map_option ident) (am_slots st)"
  shows "mon_ok (st\<lparr> am_slots := slots' \<rparr>)" "total_keys slots' = total_keys (am_slots st)" "length slots' = length (am_slots st)"
proof -
  show len: "length slots' = length (am_slots st)" using eq by (metis length_map)
  have at: "map_option ident (slots' ! i) = map_option ident (am_slots st ! i)" if "i < length (am_slots st)" for i
    using eq that len by (metis nth_map)
  have derived: "map f slots' = map f (am_slots st)" if "\<And>x y. map_option ident x = map_option ident y \<Longrightarrow> f x = f y" for f :: "monitored option \<Rightarrow> 'b"
    by (rule nth_equalityI) (simp_all add: len that [OF at])
  have kc: "map key_count slots' = map key_count (am_slots st)"
    by (rule derived) (auto simp: key_count_def slot_keys_def ident_def split: option.splits)
  have "map entry_ok slots' = map entry_ok (am_slots st)"
    by (rule derived) (auto simp: entry_ok_def ident_def split: option.splits)
  moreover have "list_all entry_ok xs \<longleftrightarrow> False \<notin> set (map entry_ok xs)" for xs by (auto simp: list_all_iff)
  ultimately have eo: "list_all entry_ok slots' \<longleftrightarrow> list_all entry_ok (am_slots st)" by metis
  have "map (\<lambda>e. case e of None \<Rightarrow> 0 | Some e \<Rightarrow> slot_content e) slots' = map (\<lambda>e. case e of None \<Rightarrow> 0 | Some e \<Rightarrow> slot_content e) (am_slots st)"
  proof (rule derived)
    fix x y assume "map_option ident x = map_option ident y"
    then show "(case x of None \<Rightarrow> 0 | Some e \<Rightarrow> slot_content e) = (case y of None \<Rightarrow> 0 | Some e \<Rightarrow> slot_content e)"
      by (cases x; cases y) (simp_all add: slot_content_def ident_def)
  qed
  then have tc: "total_content slots' = total_content (am_slots st)" by (simp add: total_content_def)
  show "total_keys slots' = total_keys (am_slots st)" by (simp add: total_keys_def kc)
  have own: "own_of slots' = own_of (am_slots st)"
  proof
    fix x :: "nat \<times> nat"
    obtain s n where x: "x = (s, n)" by fastforce
    show "own_of slots' x = own_of (am_slots st) x"
      using at [of s] len by (cases "slots' ! s"; cases "am_slots st ! s") (auto simp: x own_of_def nth_opt_def slot_keys_def ident_def)
  qed
  have linked: "linked cs slots' \<longleftrightarrow> linked cs (am_slots st)" for cs
  proof -
    have "s < length slots' \<and> map_option key_of (slots' ! s) = Some k \<longleftrightarrow> s < length (am_slots st) \<and> map_option key_of (am_slots st ! s) = Some k" for s k
      using at [of s] len by (cases "slots' ! s"; cases "am_slots st ! s") (auto simp: ident_def)
    then show ?thesis unfolding linked_def by simp
  qed
  have "slots' ! s = None \<longleftrightarrow> am_slots st ! s = None" if "s < length (am_slots st)" for s
    using at [OF that] by (cases "slots' ! s"; cases "am_slots st ! s") simp_all
  then have none: "{s. s < length slots' \<and> slots' ! s = None} = {s. s < length (am_slots st) \<and> am_slots st ! s = None}"
    using len by auto
  have "indexed (st\<lparr> am_slots := slots' \<rparr>) own' \<longleftrightarrow> indexed st own'" for own' by (rule indexed_cong) simp_all
  then show "mon_ok (st\<lparr> am_slots := slots' \<rparr>)"
    using m len by (simp add: mon_ok_def mon_part_def core_def own linked none [unfolded len] kc eo tc)
qed

lemma entry_view: "mon_ok st \<Longrightarrow> entry st c sid = Some (view st (c, sid))"
  using linkedD [of "conn_slots (am_conns st)" "am_slots st" "(c, sid)"]
  by (auto simp: mon_ok_def entry_def view_def slot_of_conn split: option.split)

lemma set_entry_ok:
  assumes m: "mon_ok st" and v: "view st (c, sid) = Some e" and i: "ident e' = ident e"
  shows "moved st ((view st)((c, sid) \<mapsto> e')) (set_entry st c sid e')"
proof -
  have l: "linked (conn_slots (am_conns st)) (am_slots st)" using m by (simp add: mon_ok_def)
  obtain s where s: "conn_slots (am_conns st) (c, sid) = Some s" "am_slots st ! s = Some e" using v by (auto simp: view_def Option.bind_eq_Some_conv)
  have len: "s < length (am_slots st)" using linkedD [OF l s(1)] by blast
  let ?slots = "(am_slots st)[s := Some e']"
  have eq: "map (map_option ident) ?slots = map (map_option ident) (am_slots st)"
    using s(2) i len by (simp add: map_update list_update_same_conv)
  note same = same_ident [OF m eq]
  have set: "set_entry st c sid e' = st\<lparr> am_slots := ?slots \<rparr>" using s(1) by (simp add: set_entry_def slot_of_conn)
  have l': "linked (conn_slots (am_conns (st\<lparr> am_slots := ?slots \<rparr>))) (am_slots (st\<lparr> am_slots := ?slots \<rparr>))" using same(1) by (simp add: mon_ok_def)
  have "view (st\<lparr> am_slots := ?slots \<rparr>) = (view st)((c, sid) := Option.bind (conn_slots (am_conns st) (c, sid)) (\<lambda>s. ?slots ! s))"
  proof (rule view_update [OF l'])
    fix k' s' assume ne: "k' \<noteq> (c, sid)" and c: "conn_slots (am_conns st) k' = Some s'"
    then have "s' \<noteq> s" using linked_iff [OF l, of k' s] linked_iff [OF l, of "(c, sid)" s] s(1) by auto
    then show "?slots ! s' = am_slots st ! s'" by simp
  qed simp_all
  with same s(1) len show ?thesis by (simp add: set moved_def)
qed

lemma pending_mut_ok:
  assumes m: "mon_ok st"
  shows "\<exists>st'. pending_mut st c sid f = Some st' \<and>
    moved st ((view st)((c, sid) := map_option (\<lambda>e. e\<lparr> mo_pending := map_option f (mo_pending e) \<rparr>) (view st (c, sid)))) st'"
proof (cases "view st (c, sid)")
  case None
  then have "(view st)((c, sid) := None) = view st" by auto
  then show ?thesis using None moved_refl [OF m] by (simp add: pending_mut_def entry_view [OF m])
next
  case (Some e)
  then show ?thesis using set_entry_ok [OF m Some, of "e\<lparr> mo_pending := map_option f (mo_pending e) \<rparr>"]
    by (simp add: pending_mut_def entry_view [OF m] ident_def key_of_def)
qed

definition finishes :: "u64 \<Rightarrow> monitored \<Rightarrow> bool" where
  "finishes generation e \<longleftrightarrow> sub_generation (mo_sub e) = generation \<and> mo_pending e \<noteq> None"

definition finished :: "u64 \<Rightarrow> monitored \<Rightarrow> monitored" where
  "finished delivered e = e\<lparr> mo_pending := None, mo_sub := (mo_sub e)\<lparr> sub_latest_event_id := max (sub_latest_event_id (mo_sub e)) delivered \<rparr> \<rparr>"

lemma finish_pending_ok:
  assumes m: "mon_ok st"
  shows "\<exists>st'. finish_pending st c sid g d = Some (st', Option.bind (view st (c, sid)) (\<lambda>e. if finishes g e then mo_pending e else None)) \<and>
    moved st ((view st)((c, sid) := map_option (\<lambda>e. if finishes g e then finished d e else e) (view st (c, sid)))) st'"
proof (cases "\<exists>e. view st (c, sid) = Some e \<and> finishes g e")
  case True
  then obtain e where e: "view st (c, sid) = Some e" "finishes g e" by blast
  from set_entry_ok [OF m e(1), of "finished d e"] e show ?thesis
    by (auto simp: finish_pending_def entry_view [OF m] ident_def key_of_def finished_def finishes_def)
next
  case False
  then have "(view st)((c, sid) := map_option (\<lambda>e. if finishes g e then finished d e else e) (view st (c, sid))) = view st"
    by (cases "view st (c, sid)") auto
  with False moved_refl [OF m] show ?thesis
    by (cases "view st (c, sid)") (auto simp: finish_pending_def entry_view [OF m] finishes_def split: option.split)
qed

section \<open>Candidates\<close>

definition touched :: "u64 \<Rightarrow> posting list \<Rightarrow> nat set" where
  "touched kind ps = {po_slot p | p. p \<in> set ps \<and> po_kinds p AND kind \<noteq> 0}"

lemma touched_simps [simp]:
  "touched kind [] = {}" "touched kind (p # ps) = (if po_kinds p AND kind = 0 then touched kind ps else insert (po_slot p) (touched kind ps))"
  by (auto simp: touched_def)

text \<open>A pass takes each slot once.\<close>

lemma add_postings:
  assumes "\<And>p. p \<in> set ps \<Longrightarrow> po_slot p < length seen" "\<And>s. s < length seen \<Longrightarrow> seen ! s = pass \<longleftrightarrow> s \<in> set cs" "distinct cs"
  shows "\<exists>seen' cs'. opt_fold (add_posting pass kind) (seen, cs) ps = Some (seen', cs') \<and> length seen' = length seen \<and>
    distinct cs' \<and> set cs' = set cs \<union> touched kind ps \<and> set seen' \<subseteq> insert pass (set seen)"
  using assms
proof (induction ps arbitrary: seen cs)
  case Nil
  then show ?case by auto
next
  case (Cons p ps)
  let ?s = "po_slot p"
  have s: "?s < length seen" using Cons.prems(1) by simp
  have rest: "\<And>p. p \<in> set ps \<Longrightarrow> po_slot p < length seen" using Cons.prems(1) by simp
  show ?case
  proof (cases "po_kinds p AND kind = 0 \<or> seen ! ?s = pass")
    case True
    then have "?s \<in> set cs" if "po_kinds p AND kind \<noteq> 0" using that Cons.prems(2) s by simp
    with True Cons.IH [OF rest Cons.prems(2,3)] s show ?thesis by (auto simp: add_posting_def)
  next
    case False
    have mark: "seen[?s := pass] ! i = pass \<longleftrightarrow> i \<in> set (cs @ [?s])" if "i < length (seen[?s := pass])" for i
      using Cons.prems(2) [of i] that s by (cases "i = ?s") auto
    have d: "distinct (cs @ [?s])" using False Cons.prems(2,3) s by simp
    have sub: "set (seen[?s := pass]) \<subseteq> insert pass (set seen)" by (rule set_update_subset_insert)
    have step: "add_posting pass kind (seen, cs) p = Some (seen[?s := pass], cs @ [?s])" using False s by (simp add: add_posting_def)
    obtain seen' cs' where r: "opt_fold (add_posting pass kind) (seen[?s := pass], cs @ [?s]) ps = Some (seen', cs')"
        "length seen' = length seen" "distinct cs'" "set cs' = set (cs @ [?s]) \<union> touched kind ps" "set seen' \<subseteq> insert pass (set (seen[?s := pass]))"
      using Cons.IH [OF _ mark d] rest by auto
    from r False sub step show ?thesis by auto
  qed
qed

lemma fold_opt_concat:
  "fold (\<lambda>bucket s. Option.bind s (\<lambda>s. opt_fold f s bucket)) bs s0 = Option.bind s0 (\<lambda>s. opt_fold f s (concat bs))"
  by (induction bs arbitrary: s0) (simp_all add: opt_fold_append Option.bind_assoc)

definition postings_for :: "active_monitors \<Rightarrow> packed_event \<Rightarrow> bool \<Rightarrow> posting list" where
  "postings_for st ev b = concat (map (\<lambda>k. buckets_of st (b, k)) (event_keys ev))"

lemma collect_fold:
  assumes "mon_ok st"
  shows "collect st ev search_only =
    Option.bind (opt_fold (add_posting (am_pass st + 1) (kind_bit (ev_kind ev))) (am_seen st, [])
      ((if search_only then [] else postings_for st ev False) @ postings_for st ev True)) (\<lambda>(seen, candidates).
    Some (st\<lparr> am_pass := am_pass st + 1, am_seen := seen, am_candidates := candidates \<rparr>))"
proof -
  let ?f = "add_posting (am_pass st + 1) (kind_bit (ev_kind ev))"
  let ?add = "\<lambda>bucket s. Option.bind s (\<lambda>s. opt_fold ?f s bucket)"
  have nil: "?add [] s = s" for s by (cases s) simp_all
  have ok: "index_ok (am_index st)" "index_ok (am_search st)" using assms by (simp_all add: mon_ok_def mon_part_def core_def indexed_def)
  have look: "index_lookup (which_index st b) ev ?add s = fold ?add (map (\<lambda>k. buckets_of st (b, k)) (event_keys ev)) s" for b s
    using index_lookup_fold [where ix = "which_index st b" and add = ?add, OF _ nil, of ev s] ok by (simp add: which_index_def buckets_of_def)
  note look [of False, unfolded which_index_def] look [of True, unfolded which_index_def]
  then show ?thesis
    by (cases search_only) (simp_all add: collect_def Let_def postings_for_def fold_opt_concat opt_fold_append)
qed

definition occupied :: "active_monitors \<Rightarrow> nat \<Rightarrow> bool" where
  "occupied st s \<longleftrightarrow> s < length (am_slots st) \<and> am_slots st ! s \<noteq> None"

lemma mon_placed: "mon_ok st \<Longrightarrow> placed (buckets_of st) (am_places st) (own_of (am_slots st))"
  by (simp add: mon_ok_def mon_part_def core_def indexed_def)

lemma postings_occupied:
  assumes m: "mon_ok st" and p: "p \<in> set (postings_for st ev b)"
  shows "occupied st (po_slot p)"
proof -
  from p obtain k j where "j < length (buckets_of st (b, k))" "p = buckets_of st (b, k) ! j"
    by (auto simp: postings_for_def in_set_conv_nth)
  with placed_posting(1) [OF mon_placed [OF m], of j "(b, k)"] show ?thesis by (auto simp: own_of_Some occupied_def)
qed

text \<open>A subscription with a filter that matches an event, its search aside, is a candidate.\<close>

lemma match_touched:
  assumes m: "mon_ok st" and s: "s < length (am_slots st)" "am_slots st ! s = Some e"
    and f: "f \<in> set (fg_filters (sub_filter_group (mo_sub e)))" "does_match_without_search f ev"
  shows "s \<in> touched (kind_bit (ev_kind ev)) (postings_for st ev (f_search f \<noteq> None))"
proof -
  let ?b = "f_search f \<noteq> None"
  have "entry_ok (am_slots st ! s)" using m s(1) by (simp add: mon_ok_def mon_part_def core_def list_all_length)
  then have ok: "filter_ok f" using s(2) f(1) by (simp add: entry_ok_def group_ok_def list_all_iff)
  obtain k where k: "k \<in> set (filter_keys f)" "k \<in> set (event_keys ev)" using filter_match_key [OF ok f(2)] by blast
  have "((?b, k), kind_mask f) \<in> set (slot_keys e)" using f(1) k(1) by (auto simp: slot_keys_def keys_of_def)
  then obtain n where n: "n < length (slot_keys e)" "slot_keys e ! n = ((?b, k), kind_mask f)" by (auto simp: in_set_conv_nth)
  then have own: "own_of (am_slots st) (s, n) = Some ((?b, k), kind_mask f)" using s by (simp add: own_of_Some)
  note at = placed_own(3,4) [OF mon_placed [OF m] own]
  have "\<lparr> po_slot = s, po_nth = n, po_kinds = kind_mask f \<rparr> \<in> set (buckets_of st (?b, k))" using at by (metis nth_mem)
  then have "\<lparr> po_slot = s, po_nth = n, po_kinds = kind_mask f \<rparr> \<in> set (postings_for st ev ?b)" using k(2) by (auto simp: postings_for_def)
  then show ?thesis using filter_match_kind [OF ok f(2)] unfolding touched_def by force
qed

lemma touched_append: "touched kind (ps @ qs) = touched kind ps \<union> touched kind qs"
  by (auto simp: touched_def)

lemma word_less_plus_one: "x \<noteq> - 1 \<Longrightarrow> x < x + 1"
  for x :: u64
proof -
  assume "x \<noteq> - 1"
  then have "unat x \<noteq> unat (- 1 :: u64)" using unsigned_word_eqI [where 'a = nat] by blast
  then have "Suc (unat x) < 2 ^ 64" using unat_le_max [of x] by (simp add: unat_minus_one_word)
  then show ?thesis by (simp add: word_less_nat_alt unat_word_ariths)
qed

lemma collect_ok:
  assumes m: "mon_ok st" and pass: "am_pass st \<noteq> - 1"
  shows "\<exists>st'. collect st ev search_only = Some st' \<and> mon_ok st' \<and> am_conns st' = am_conns st \<and> am_slots st' = am_slots st \<and>
    am_max_subs st' = am_max_subs st \<and> am_pass st' = am_pass st + 1 \<and> distinct (am_candidates st') \<and>
    (\<forall>s \<in> set (am_candidates st'). occupied st s) \<and>
    set (am_candidates st') = (if search_only then {} else touched (kind_bit (ev_kind ev)) (postings_for st ev False)) \<union>
      touched (kind_bit (ev_kind ev)) (postings_for st ev True)"
proof -
  let ?ps = "(if search_only then [] else postings_for st ev False) @ postings_for st ev True"
  have occ: "occupied st (po_slot p)" if "p \<in> set ?ps" for p using that postings_occupied [OF m] by (auto split: if_splits)
  have seen: "length (am_seen st) = length (am_slots st)" "\<And>x. x \<in> set (am_seen st) \<Longrightarrow> x \<le> am_pass st"
    using m by (auto simp: mon_ok_def mon_part_def core_def)
  have less: "am_pass st < am_pass st + 1" using pass word_less_plus_one by blast
  have fresh: "am_seen st ! s = am_pass st + 1 \<longleftrightarrow> s \<in> set []" if "s < length (am_seen st)" for s
    using seen(2) [of "am_seen st ! s"] that less by auto
  have slots: "po_slot p < length (am_seen st)" if "p \<in> set ?ps" for p using occ [OF that] seen(1) by (simp add: occupied_def)
  obtain seen' cs where r: "opt_fold (add_posting (am_pass st + 1) (kind_bit (ev_kind ev))) (am_seen st, []) ?ps = Some (seen', cs)"
      "length seen' = length (am_seen st)" "distinct cs" "set cs = set [] \<union> touched (kind_bit (ev_kind ev)) ?ps"
      "set seen' \<subseteq> insert (am_pass st + 1) (set (am_seen st))"
    using add_postings [OF slots fresh distinct.simps(1) [THEN iffD2, OF TrueI], where kind = "kind_bit (ev_kind ev)"] by blast
  let ?st' = "st\<lparr> am_pass := am_pass st + 1, am_seen := seen', am_candidates := cs \<rparr>"
  have "x \<le> am_pass st + 1" if "x \<in> set seen'" for x using that r(5) seen(2) [of x] less by auto
  moreover have "indexed ?st' own \<longleftrightarrow> indexed st own" for own by (rule indexed_cong) simp_all
  ultimately have "mon_ok ?st'" using m r(2) by (simp add: mon_ok_def mon_part_def core_def)
  moreover have "collect st ev search_only = Some ?st'" using r(1) by (simp add: collect_fold [OF m])
  moreover have "occupied st s" if "s \<in> set cs" for s using that r(4) occ by (auto simp: touched_def)
  ultimately show ?thesis using r(3,4) by (auto simp: touched_append)
qed

section \<open>Delivery\<close>

definition takes :: "u64 option \<Rightarrow> packed_event \<Rightarrow> bytes list option \<Rightarrow> monitored \<Rightarrow> bool" where
  "takes lev ev terms e \<longleftrightarrow> (case lev of None \<Rightarrow> True | Some l \<Rightarrow> sub_latest_event_id (mo_sub e) < l) \<and>
     group_match_with_search_terms (sub_filter_group (mo_sub e)) ev terms"

definition bumped :: "u64 option \<Rightarrow> monitored \<Rightarrow> monitored" where
  "bumped lev e = (case lev of None \<Rightarrow> e | Some l \<Rightarrow> e\<lparr> mo_sub := (mo_sub e)\<lparr> sub_latest_event_id := l \<rparr> \<rparr>)"

definition recipient_of :: "monitored \<Rightarrow> recipient" where
  "recipient_of e = \<lparr> rc_conn_id = sub_conn_id (mo_sub e), rc_sub_id = sub_sub_id (mo_sub e), rc_pending = (mo_pending e \<noteq> None),
     rc_generation = sub_generation (mo_sub e) \<rparr>"

definition recipient_key :: "recipient \<Rightarrow> u64 \<times> bytes" where
  "recipient_key r = (rc_conn_id r, rc_sub_id r)"

definition after_event :: "u64 option \<Rightarrow> packed_event \<Rightarrow> bytes list option \<Rightarrow> monitored option \<Rightarrow> monitored option" where
  "after_event lev ev terms = map_option (\<lambda>e. if takes lev ev terms e then bumped lev e else e)"

lemma recipient_key_of [simp]: "recipient_key (recipient_of e) = key_of e"
  by (simp add: recipient_key_def recipient_of_def key_of_def)

lemma bumped_ident [simp]: "ident (bumped lev e) = ident e"
  by (simp add: bumped_def ident_def key_of_def split: option.split)

lemma after_event_ident: "map_option ident (after_event lev ev terms x) = map_option ident x"
  by (cases x) (simp_all add: after_event_def)

lemma process_slot_step:
  assumes "s < length slots" "slots ! s = Some e"
  shows "process_slot lev ev terms (slots, rs) s = Some (slots[s := after_event lev ev terms (slots ! s)],
    rs @ (if takes lev ev terms e then [recipient_of e] else []))"
  using assms list_update_id [of slots s]
  by (cases lev) (auto simp: process_slot_def Let_def takes_def after_event_def bumped_def recipient_of_def not_le)

lemma process_slots:
  assumes "distinct cs" "\<And>s. s \<in> set cs \<Longrightarrow> s < length slots \<and> slots ! s \<noteq> None"
  shows "\<exists>slots'. opt_fold (process_slot lev ev terms) (slots, rs) cs =
      Some (slots', rs @ map recipient_of (filter (takes lev ev terms) (map (\<lambda>s. the (slots ! s)) cs))) \<and>
    length slots' = length slots \<and> (\<forall>s. slots' ! s = (if s \<in> set cs then after_event lev ev terms (slots ! s) else slots ! s))"
  using assms
proof (induction cs arbitrary: slots rs)
  case (Cons s cs)
  obtain e where e: "s < length slots" "slots ! s = Some e" using Cons.prems(2) [of s] by auto
  let ?slots1 = "slots[s := after_event lev ev terms (slots ! s)]"
  have other: "?slots1 ! i = slots ! i" if "i \<noteq> s" for i using that by simp
  have occ: "i < length ?slots1 \<and> ?slots1 ! i \<noteq> None" if "i \<in> set cs" for i
    using Cons.prems(1) Cons.prems(2) [of i] that by (cases "i = s") simp_all
  have map_eq: "map (\<lambda>i. the (?slots1 ! i)) cs = map (\<lambda>i. the (slots ! i)) cs"
    using Cons.prems(1) other by (intro map_cong refl arg_cong [of _ _ the]) (metis distinct.simps(2))
  have "distinct cs" using Cons.prems(1) by simp
  from Cons.IH [OF this occ, of "rs @ (if takes lev ev terms e then [recipient_of e] else [])", unfolded map_eq]
  obtain slots' where r: "opt_fold (process_slot lev ev terms) (?slots1, rs @ (if takes lev ev terms e then [recipient_of e] else [])) cs =
        Some (slots', (rs @ (if takes lev ev terms e then [recipient_of e] else [])) @ map recipient_of (filter (takes lev ev terms) (map (\<lambda>s. the (slots ! s)) cs)))"
      "length slots' = length ?slots1" "\<And>i. slots' ! i = (if i \<in> set cs then after_event lev ev terms (?slots1 ! i) else ?slots1 ! i)" by blast
  have "slots' ! i = (if i \<in> set (s # cs) then after_event lev ev terms (slots ! i) else slots ! i)" for i
    using r(3) [of i] Cons.prems(1) e(1) by (cases "i = s") auto
  with r e show ?case by (simp add: process_slot_step)
qed simp

lemma takes_touched:
  assumes m: "mon_ok st" and s: "s < length (am_slots st)" "am_slots st ! s = Some e" and t: "takes lev ev terms e"
  shows "s \<in> touched (kind_bit (ev_kind ev)) (postings_for st ev False) \<union> touched (kind_bit (ev_kind ev)) (postings_for st ev True)"
proof -
  obtain f where f: "f \<in> set (fg_filters (sub_filter_group (mo_sub e)))" "does_match_without_search f ev"
    using t by (auto simp: takes_def group_match_with_search_terms_def list_ex_iff does_match_with_search_terms_def split: if_splits)
  from match_touched [OF m s f] show ?thesis by (cases "f_search f = None") auto
qed

lemma sorted_recipients:
  assumes "distinct (map recipient_key rs)"
  shows "sorted_wrt (<) (map recipient_key (sort_key (\<lambda>r. (rc_conn_id r, rc_sub_id r)) rs))"
proof -
  let ?k = "\<lambda>r. (rc_conn_id r, rc_sub_id r)"
  have k: "recipient_key = ?k" by (simp add: recipient_key_def fun_eq_iff)
  have "distinct (map ?k (sort_key ?k rs))" using assms by (simp add: k distinct_map)
  then show ?thesis unfolding k strict_sorted_iff by simp
qed

lemma process_inner_ok:
  assumes m: "mon_ok st" and pass: "am_pass st \<noteq> - 1"
  shows "\<exists>st' rs. process_inner st lev ev terms = Some (st', rs) \<and> mon_ok st' \<and> view st' = (\<lambda>k. after_event lev ev terms (view st k)) \<and>
    am_max_subs st' = am_max_subs st \<and> am_pass st' = am_pass st + 1 \<and> total_keys (am_slots st') = total_keys (am_slots st) \<and>
    length (am_slots st') = length (am_slots st) \<and> sorted_wrt (<) (map recipient_key rs) \<and>
    set rs = {recipient_of e | k e. view st k = Some e \<and> takes lev ev terms e}"
proof -
  have l: "linked (conn_slots (am_conns st)) (am_slots st)" using m by (simp add: mon_ok_def)
  obtain st1 where st1: "collect st ev False = Some st1" "mon_ok st1" "am_conns st1 = am_conns st" "am_slots st1 = am_slots st"
      "am_max_subs st1 = am_max_subs st" "am_pass st1 = am_pass st + 1" "distinct (am_candidates st1)" "\<forall>s \<in> set (am_candidates st1). occupied st s"
      "set (am_candidates st1) = touched (kind_bit (ev_kind ev)) (postings_for st ev False) \<union> touched (kind_bit (ev_kind ev)) (postings_for st ev True)"
    using collect_ok [OF m pass, of ev False] by auto
  define cs where "cs = am_candidates st1"
  define es where "es = filter (takes lev ev terms) (map (\<lambda>s. the (am_slots st ! s)) cs)"
  have occ: "s < length (am_slots st) \<and> am_slots st ! s \<noteq> None" if "s \<in> set cs" for s using st1(8) that by (auto simp: cs_def occupied_def)
  obtain slots' where r: "opt_fold (process_slot lev ev terms) (am_slots st, []) cs = Some (slots', [] @ map recipient_of es)"
      "length slots' = length (am_slots st)" "\<And>s. slots' ! s = (if s \<in> set cs then after_event lev ev terms (am_slots st ! s) else am_slots st ! s)"
    using process_slots [OF st1(7) [folded cs_def] occ, of lev ev terms "[]"] by (auto simp: es_def)
  have all: "slots' ! s = after_event lev ev terms (am_slots st ! s)" if "s < length (am_slots st)" for s
    using r(3) takes_touched [OF m that, of _ lev ev terms] st1(9) by (cases "am_slots st ! s") (auto simp: cs_def after_event_def)
  have "map (map_option ident) slots' = map (map_option ident) (am_slots st1)"
    using all r(2) by (intro nth_equalityI) (simp_all add: st1(4) after_event_ident)
  note same = same_ident [OF st1(2) this]
  let ?st' = "st1\<lparr> am_slots := slots' \<rparr>"
  have v: "view ?st' k = after_event lev ev terms (view st k)" for k
    using all linkedD [OF l, of k] by (cases "conn_slots (am_conns st) k") (auto simp: view_def st1(3) after_event_def)
  have es: "set es = {e. \<exists>k. view st k = Some e \<and> takes lev ev terms e}"
  proof (intro set_eqI iffI)
    fix e assume "e \<in> set es"
    then obtain s where s: "s \<in> set cs" "e = the (am_slots st ! s)" "takes lev ev terms e" by (auto simp: es_def)
    from occ [OF s(1)] s(2) have "s < length (am_slots st) \<and> am_slots st ! s = Some e" by auto
    then have "view st (key_of e) = Some e" unfolding view_linked [OF l] by blast
    with s(3) show "e \<in> {e. \<exists>k. view st k = Some e \<and> takes lev ev terms e}" by blast
  next
    fix e assume "e \<in> {e. \<exists>k. view st k = Some e \<and> takes lev ev terms e}"
    then obtain s where s: "s < length (am_slots st)" "am_slots st ! s = Some e" "takes lev ev terms e" unfolding view_linked [OF l] by blast
    then have "s \<in> set cs" using takes_touched [OF m s] st1(9) by (simp add: cs_def)
    with s show "e \<in> set es" by (force simp: es_def)
  qed
  have "distinct (map (\<lambda>s. key_of (the (am_slots st ! s))) cs)"
  proof -
    have "inj_on (\<lambda>s. key_of (the (am_slots st ! s))) (set cs)"
      using occ linkedI [OF l] by (intro inj_onI) (metis option.collapse option.inject)
    then show ?thesis using st1(7) by (simp add: distinct_map cs_def)
  qed
  then have "distinct (map key_of (map (\<lambda>s. the (am_slots st ! s)) cs))" by (simp add: comp_def)
  then have "distinct (map key_of es)" unfolding es_def by (rule distinct_map_filter)
  then have "distinct (map recipient_key (map recipient_of es))" by (simp add: comp_def)
  from sorted_recipients [OF this] show ?thesis
    using same v es st1 r(1) by (auto simp: process_inner_def cs_def)
qed

lemma event_requires_content_ok:
  assumes m: "mon_ok st" and pass: "am_pass st \<noteq> - 1"
  shows "\<exists>st'. event_requires_content st ev = Some (st', \<exists>k e f. view st k = Some e \<and> f \<in> set (fg_filters (sub_filter_group (mo_sub e))) \<and>
      f_search f \<noteq> None \<and> does_match_without_search f ev) \<and>
    mon_ok st' \<and> view st' = view st \<and> am_max_subs st' = am_max_subs st \<and> am_pass st' \<in> {am_pass st, am_pass st + 1} \<and>
    am_slots st' = am_slots st"
proof (cases "requires_content st")
  case False
  have "am_content st = total_content (am_slots st)" and l: "linked (conn_slots (am_conns st)) (am_slots st)"
    using m by (simp_all add: mon_ok_def mon_part_def core_def)
  then have zero: "(case x of None \<Rightarrow> 0 | Some e \<Rightarrow> slot_content e) = 0" if "x \<in> set (am_slots st)" for x
    using that False by (simp add: requires_content_def total_content_def)
  have "f_search f = None" if "view st k = Some e" "f \<in> set (fg_filters (sub_filter_group (mo_sub e)))" for k e f
  proof -
    have "Some e \<in> set (am_slots st)" using that(1) unfolding view_linked [OF l] by (metis nth_mem)
    from zero [OF this] that(2) show ?thesis by (auto simp: slot_content_def group_requires_content_def list_ex_iff split: if_splits)
  qed
  then have "\<not> (\<exists>k e f. view st k = Some e \<and> f \<in> set (fg_filters (sub_filter_group (mo_sub e))) \<and> f_search f \<noteq> None \<and> does_match_without_search f ev)"
    by metis
  with False m show ?thesis by (simp add: event_requires_content_def)
next
  case True
  have l: "linked (conn_slots (am_conns st)) (am_slots st)" using m by (simp add: mon_ok_def)
  obtain st1 where st1: "collect st ev True = Some st1" "mon_ok st1" "am_conns st1 = am_conns st" "am_slots st1 = am_slots st"
      "am_max_subs st1 = am_max_subs st" "am_pass st1 = am_pass st + 1" "\<forall>s \<in> set (am_candidates st1). occupied st s"
      "set (am_candidates st1) = touched (kind_bit (ev_kind ev)) (postings_for st ev True)"
    using collect_ok [OF m pass, of ev True] by auto
  let ?needs = "\<lambda>e. \<exists>f \<in> set (fg_filters (sub_filter_group (mo_sub e))). f_search f \<noteq> None \<and> does_match_without_search f ev"
  have any: "opt_fold (slot_needs_content st1 ev) b cs = Some (b \<or> (\<exists>s \<in> set cs. ?needs (the (am_slots st ! s))))"
    if "\<And>s. s \<in> set cs \<Longrightarrow> occupied st s" for b cs
    using that
  proof (induction cs arbitrary: b)
    case (Cons s cs)
    then obtain e where e: "s < length (am_slots st)" "am_slots st ! s = Some e" by (auto simp: occupied_def)
    then have "slot_needs_content st1 ev b s = Some (b \<or> ?needs e)" by (simp add: slot_needs_content_def st1(4) list_ex_iff)
    with Cons e show ?case by simp
  qed simp
  have "(\<exists>s \<in> set (am_candidates st1). ?needs (the (am_slots st ! s))) \<longleftrightarrow> (\<exists>k e. view st k = Some e \<and> ?needs e)"
  proof
    assume "\<exists>s \<in> set (am_candidates st1). ?needs (the (am_slots st ! s))"
    then show "\<exists>k e. view st k = Some e \<and> ?needs e" using st1(7) unfolding view_linked [OF l] occupied_def by (metis option.collapse)
  next
    assume "\<exists>k e. view st k = Some e \<and> ?needs e"
    then obtain s e f where s: "s < length (am_slots st)" "am_slots st ! s = Some e"
      and f: "f \<in> set (fg_filters (sub_filter_group (mo_sub e)))" "does_match_without_search f ev" "f_search f \<noteq> None"
      unfolding view_linked [OF l] by blast
    from match_touched [OF m s f(1,2)] f(3) have "s \<in> set (am_candidates st1)" by (simp add: st1(8))
    then show "\<exists>s \<in> set (am_candidates st1). ?needs (the (am_slots st ! s))" using s f by force
  qed
  then have "(\<exists>s \<in> set (am_candidates st1). ?needs (the (am_slots st ! s))) \<longleftrightarrow> (\<exists>k e f. view st k = Some e \<and>
      f \<in> set (fg_filters (sub_filter_group (mo_sub e))) \<and> f_search f \<noteq> None \<and> does_match_without_search f ev)" by blast
  with True st1 any [of "am_candidates st1" False] show ?thesis
    by (auto simp: event_requires_content_def view_def fun_eq_iff)
qed

section \<open>Refused subscriptions\<close>

definition report :: "(subscription \<Rightarrow> 'r option) \<Rightarrow> monitored \<Rightarrow> (u64 \<times> bytes \<times> u64 \<times> 'r) option" where
  "report refusal e = map_option (\<lambda>r. (sub_conn_id (mo_sub e), sub_sub_id (mo_sub e), sub_generation (mo_sub e), r)) (refusal (mo_sub e))"

definition report_key :: "u64 \<times> bytes \<times> u64 \<times> 'r \<Rightarrow> u64 \<times> bytes" where
  "report_key = (\<lambda>(c, sid, _, _). (c, sid))"

definition all_keys :: "(u64 \<times> (bytes \<times> nat) list) list \<Rightarrow> (u64 \<times> bytes) list" where
  "all_keys conns = concat (map (\<lambda>(c, subs). map (\<lambda>(sid, _). (c, sid)) subs) conns)"

lemma all_keys_Cons: "all_keys ((c, subs) # conns) = map (\<lambda>sid. (c, sid)) (map fst subs) @ all_keys conns"
  by (simp add: all_keys_def case_prod_unfold)

lemma fst_all_keys: "fst ` set (all_keys conns) \<subseteq> set (map fst conns)"
  by (force simp: all_keys_def)

lemma all_keys_distinct: "conns_wf conns \<Longrightarrow> distinct (all_keys conns)"
proof (induction conns)
  case (Cons x conns)
  obtain c subs where x: "x = (c, subs)" by fastforce
  from Cons.prems have wf: "conns_wf conns" "distinct (map fst subs)" "c \<notin> set (map fst conns)" by (auto simp: x conns_wf_def)
  have "distinct (map (\<lambda>sid. (c, sid)) (map fst subs))" using wf(2) by (simp only: distinct_map) (simp add: inj_on_def)
  moreover have "set (map (\<lambda>sid. (c, sid)) (map fst subs)) \<inter> set (all_keys conns) = {}" using fst_all_keys [of conns] wf(3) by force
  ultimately show ?case using Cons.IH [OF wf(1)] by (simp add: x all_keys_Cons)
qed (simp add: all_keys_def)

lemma conn_slots_Cons: "conn_slots ((c, subs) # conns) (c', sid) = (if c' = c then map_of subs sid else conn_slots conns (c', sid))"
  by (simp add: conn_slots_def)

lemma all_keys_slots:
  "conns_wf conns \<Longrightarrow> map (\<lambda>k. conn_slots conns k) (all_keys conns) = map Some (concat (map (\<lambda>(c, subs). map snd subs) conns))"
proof (induction conns)
  case (Cons x conns)
  obtain c subs where x: "x = (c, subs)" by fastforce
  from Cons.prems have wf: "conns_wf conns" "distinct (map fst subs)" "c \<notin> set (map fst conns)" by (auto simp: x conns_wf_def)
  have "map (conn_slots (x # conns)) (map (\<lambda>sid. (c, sid)) (map fst subs)) = map Some (map snd subs)"
    using wf(2) by (auto simp: x conn_slots_Cons)
  moreover have "map (conn_slots (x # conns)) (all_keys conns) = map (conn_slots conns) (all_keys conns)"
    using fst_all_keys [of conns] wf(3) by (intro map_cong) (force simp: x conn_slots_Cons)+
  ultimately show ?case using Cons.IH [OF wf(1)] by (simp add: x all_keys_Cons)
qed (simp add: all_keys_def)

lemma set_all_keys:
  assumes "conns_wf conns"
  shows "set (all_keys conns) = dom (conn_slots conns)"
proof (intro set_eqI iffI)
  fix k assume "k \<in> set (all_keys conns)"
  then have "conn_slots conns k \<in> set (map Some (concat (map (\<lambda>(c, subs). map snd subs) conns)))"
    unfolding all_keys_slots [OF assms, symmetric] by simp
  then show "k \<in> dom (conn_slots conns)" by auto
next
  fix k assume "k \<in> dom (conn_slots conns)"
  then obtain subs s where "map_of conns (fst k) = Some subs" "map_of subs (snd k) = Some s"
    by (cases k) (auto simp: conn_slots_def Option.bind_eq_Some_conv)
  then show "k \<in> set (all_keys conns)" by (cases k) (force simp: all_keys_def dest: map_of_SomeD)
qed

lemma opt_fold_concat: "opt_fold (\<lambda>s x. opt_fold g s (h x)) s xs = opt_fold g s (concat (map h xs))"
  by (induction xs arbitrary: s) (simp_all add: opt_fold_append)

lemma map_filter_map_cong: "(\<And>x. x \<in> set xs \<Longrightarrow> f (g x) = h x) \<Longrightarrow> List.map_filter f (map g xs) = List.map_filter h xs"
  by (induction xs) (auto simp: map_filter_simps split: option.split)

lemma set_map_filter: "set (List.map_filter f xs) = {y. \<exists>x \<in> set xs. f x = Some y}"
  by (induction xs) (auto simp: map_filter_simps split: option.split)

lemma refused_in_fold:
  assumes "\<And>s. s \<in> set ss \<Longrightarrow> occupied st s"
  shows "opt_fold (refused_in st refusal) acc ss = Some (acc @ List.map_filter (\<lambda>s. report refusal (the (am_slots st ! s))) ss)"
  using assms
proof (induction ss arbitrary: acc)
  case (Cons s ss)
  then obtain e where e: "s < length (am_slots st)" "am_slots st ! s = Some e" by (auto simp: occupied_def)
  then have "refused_in st refusal acc s = Some (acc @ (case report refusal e of None \<Rightarrow> [] | Some r \<Rightarrow> [r]))"
    by (simp add: refused_in_def report_def split: option.split)
  with Cons e show ?case by (simp add: map_filter_simps split: option.split)
qed (simp add: map_filter_simps)

lemma remove_all_ok:
  assumes "mon_ok st"
  shows "\<exists>st'. opt_fold (\<lambda>st r. remove_sub st (fst r) (fst (snd r))) st rs = Some st' \<and>
    moved st (\<lambda>k. if k \<in> report_key ` set rs then None else view st k) st'"
  using assms
proof (induction rs arbitrary: st)
  case Nil
  then show ?case using moved_refl by simp
next
  case (Cons r rs)
  obtain c sid g x where r: "r = (c, sid, g, x)" by (metis prod_cases4)
  obtain st1 where st1: "remove_sub st c sid = Some st1" "moved st ((view st)((c, sid) := None)) st1" using remove_sub_ok [OF Cons.prems] by blast
  then have ok: "mon_ok st1" and v: "view st1 = (view st)((c, sid) := None)" by (simp_all add: moved_def)
  obtain st' where st': "opt_fold (\<lambda>st r. remove_sub st (fst r) (fst (snd r))) st1 rs = Some st'"
      "moved st1 (\<lambda>k. if k \<in> report_key ` set rs then None else view st1 k) st'" using Cons.IH [OF ok] by blast
  have "(\<lambda>k. if k \<in> report_key ` set rs then None else view st1 k) = (\<lambda>k. if k \<in> report_key ` set (r # rs) then None else view st k)"
    by (auto simp: v r report_key_def fun_eq_iff)
  with st1 st' moved_trans [OF st1(2)] show ?case by (auto simp: r)
qed

lemma view_key: "mon_ok st \<Longrightarrow> view st k = Some e \<Longrightarrow> key_of e = k"
  using view_linked [of st k e] by (auto simp: mon_ok_def)

lemma report_key_of: "report refusal e = Some r \<Longrightarrow> report_key r = key_of e"
  by (auto simp: report_def report_key_def key_of_def)

lemma refused_list:
  assumes m: "mon_ok st"
  shows "\<exists>rs. opt_fold (\<lambda>refused (_, subs). opt_fold (refused_in st refusal) refused (map snd subs)) [] (am_conns st) = Some rs \<and>
    distinct (map report_key rs) \<and> set rs = {r. \<exists>k e. view st k = Some e \<and> report refusal e = Some r}"
proof -
  have l: "linked (conn_slots (am_conns st)) (am_slots st)" and w: "conns_wf (am_conns st)" using m by (simp_all add: mon_ok_def)
  let ?ss = "concat (map (\<lambda>(c, subs). map snd subs) (am_conns st))" and ?ks = "all_keys (am_conns st)"
  have "?ss = map the (map Some ?ss)" by (simp add: comp_def)
  then have ss: "?ss = map (\<lambda>k. the (conn_slots (am_conns st) k)) ?ks" unfolding all_keys_slots [OF w, symmetric] by (simp add: comp_def)
  have key: "\<exists>e. view st k = Some e \<and> key_of e = k \<and> am_slots st ! the (conn_slots (am_conns st) k) = Some e \<and>
      occupied st (the (conn_slots (am_conns st) k))" if "k \<in> set ?ks" for k
    using that linkedD [OF l, of k] unfolding set_all_keys [OF w] by (auto simp: view_def occupied_def)
  define rs where "rs = List.map_filter (\<lambda>k. report refusal (the (view st k))) ?ks"
  have "List.map_filter (\<lambda>s. report refusal (the (am_slots st ! s))) ?ss = rs"
    unfolding ss rs_def using key by (intro map_filter_map_cong) (metis option.sel)
  moreover have "occupied st s" if "s \<in> set ?ss" for s using that key unfolding ss by auto
  ultimately have "opt_fold (\<lambda>refused (_, subs). opt_fold (refused_in st refusal) refused (map snd subs)) [] (am_conns st) = Some rs"
    using refused_in_fold [of ?ss st refusal "[]"] opt_fold_concat [of "refused_in st refusal" "\<lambda>(_, subs). map snd subs" "[]" "am_conns st"]
    by (simp add: case_prod_unfold)
  moreover have "map report_key rs = filter (\<lambda>k. report refusal (the (view st k)) \<noteq> None) ?ks"
    unfolding rs_def List.map_filter_def map_map comp_def using key report_key_of by (intro map_idI) fastforce
  then have "distinct (map report_key rs)" using all_keys_distinct [OF w] by simp
  moreover have "k \<in> set ?ks \<longleftrightarrow> (\<exists>e. view st k = Some e)" for k
    using view_None [OF m, of k] unfolding set_all_keys [OF w] by (cases "view st k") auto
  then have "(\<exists>k \<in> set ?ks. report refusal (the (view st k)) = Some r) \<longleftrightarrow> (\<exists>k e. view st k = Some e \<and> report refusal e = Some r)" for r
    by (metis option.sel)
  then have "set rs = {r. \<exists>k e. view st k = Some e \<and> report refusal e = Some r}" unfolding rs_def set_map_filter by blast
  ultimately show ?thesis by blast
qed

lemma remove_refused_ok:
  assumes m: "mon_ok st"
  shows "\<exists>st' rs. remove_refused st refusal = Some (st', rs) \<and> distinct (map report_key rs) \<and>
    set rs = {r. \<exists>k e. view st k = Some e \<and> report refusal e = Some r} \<and>
    moved st (\<lambda>k. Option.bind (view st k) (\<lambda>e. if refusal (mo_sub e) = None then Some e else None)) st'"
proof -
  obtain rs where rs: "opt_fold (\<lambda>refused (_, subs). opt_fold (refused_in st refusal) refused (map snd subs)) [] (am_conns st) = Some rs"
      "distinct (map report_key rs)" and set: "set rs = {r. \<exists>k e. view st k = Some e \<and> report refusal e = Some r}"
    using refused_list [OF m] by blast
  obtain st' where st': "opt_fold (\<lambda>st r. remove_sub st (fst r) (fst (snd r))) st rs = Some st'"
      "moved st (\<lambda>k. if k \<in> report_key ` set rs then None else view st k) st'" using remove_all_ok [OF m] by blast
  have "(\<lambda>k. if k \<in> report_key ` set rs then None else view st k) = (\<lambda>k. Option.bind (view st k) (\<lambda>e. if refusal (mo_sub e) = None then Some e else None))"
  proof
    fix k
    have "k \<in> report_key ` set rs \<longleftrightarrow> (\<exists>e. view st k = Some e \<and> refusal (mo_sub e) \<noteq> None)"
    proof
      assume "k \<in> report_key ` set rs"
      then obtain r k' e where r: "k = report_key r" "view st k' = Some e" "report refusal e = Some r" unfolding set by blast
      then show "\<exists>e. view st k = Some e \<and> refusal (mo_sub e) \<noteq> None" using report_key_of [OF r(3)] view_key [OF m r(2)] by (auto simp: report_def)
    next
      assume "\<exists>e. view st k = Some e \<and> refusal (mo_sub e) \<noteq> None"
      then obtain e r where e: "view st k = Some e" "report refusal e = Some r" by (auto simp: report_def)
      then have "report_key r = k" using report_key_of [OF e(2)] view_key [OF m e(1)] by simp
      moreover have "r \<in> set rs" unfolding set using e by blast
      ultimately show "k \<in> report_key ` set rs" by blast
    qed
    then show "(if k \<in> report_key ` set rs then None else view st k) = Option.bind (view st k) (\<lambda>e. if refusal (mo_sub e) = None then Some e else None)"
      by (cases "view st k") auto
  qed
  with st' rs set show ?thesis by (auto simp: remove_refused_def case_prod_unfold)
qed

lemma open_count:
  assumes m: "mon_ok st"
  shows "(case map_of (am_conns st) c of None \<Rightarrow> 0 | Some conn \<Rightarrow> length conn) = card {sid. view st (c, sid) \<noteq> None}"
proof (cases "map_of (am_conns st) c")
  case None
  then show ?thesis by (simp add: view_def conn_slots_def)
next
  case (Some conn)
  have "distinct (map fst conn)" using m Some by (auto simp: mon_ok_def conns_wf_def dest: map_of_SomeD)
  moreover have "{sid. view st (c, sid) \<noteq> None} = set (map fst conn)"
    using view_None [OF m] Some by (auto simp: conn_slots_def map_of_eq_None_iff)
  ultimately show ?thesis using Some distinct_card [of "map fst conn"] by simp
qed

section \<open>Runs of operations\<close>

datatype 'r live_op =
    AddSub subscription u64 | AddPending subscription pending_buffer | RemoveSub u64 bytes | RemoveRefused "subscription \<Rightarrow> 'r option"
  | CloseConn u64 | EditPending u64 bytes "pending_buffer \<Rightarrow> pending_buffer" | FinishPending u64 bytes u64 u64 | SetMaxSubs nat
  | Process u64 packed_event "bytes list option" | ProcessEphemeral packed_event "bytes list option" | NeedsContent packed_event | Lookup u64 bytes

datatype 'r live_out =
    Done | Opened bool | Refused "(u64 \<times> bytes \<times> u64 \<times> 'r) list" | Finished "pending_buffer option" | Recipients "recipient list"
  | Needs bool | Found "subscription option" "u64 option"

definition live_exec :: "active_monitors \<Rightarrow> 'r live_op \<Rightarrow> (active_monitors \<times> 'r live_out) option" where
  "live_exec st op = (case op of
     AddSub sub at_id \<Rightarrow> map_option (\<lambda>(st, b). (st, Opened b)) (add_sub st sub at_id)
   | AddPending sub buffer \<Rightarrow> map_option (\<lambda>st. (st, Done)) (add_pending st sub buffer)
   | RemoveSub c sid \<Rightarrow> map_option (\<lambda>st. (st, Done)) (remove_sub st c sid)
   | RemoveRefused refusal \<Rightarrow> map_option (\<lambda>(st, rs). (st, Refused rs)) (remove_refused st refusal)
   | CloseConn c \<Rightarrow> map_option (\<lambda>st. (st, Done)) (close_conn st c)
   | EditPending c sid f \<Rightarrow> map_option (\<lambda>st. (st, Done)) (pending_mut st c sid f)
   | FinishPending c sid g d \<Rightarrow> map_option (\<lambda>(st, b). (st, Finished b)) (finish_pending st c sid g d)
   | SetMaxSubs n \<Rightarrow> Some (set_max_subs st n, Done)
   | Process lev ev terms \<Rightarrow> map_option (\<lambda>(st, rs). (st, Recipients rs)) (process st lev ev terms)
   | ProcessEphemeral ev terms \<Rightarrow> map_option (\<lambda>(st, rs). (st, Recipients rs)) (process_ephemeral st ev terms)
   | NeedsContent ev \<Rightarrow> map_option (\<lambda>(st, b). (st, Needs b)) (event_requires_content st ev)
   | Lookup c sid \<Rightarrow> Option.bind (subscription_at st c sid) (\<lambda>sub. map_option (\<lambda>g. (st, Found sub g)) (pending_generation st c sid)))"

fun live_run :: "active_monitors \<Rightarrow> 'r live_op list \<Rightarrow> (active_monitors \<times> 'r live_out list) option" where
  "live_run st [] = Some (st, [])"
| "live_run st (op # ops) = Option.bind (live_exec st op) (\<lambda>(st1, out). map_option (\<lambda>(st2, outs). (st2, out # outs)) (live_run st1 ops))"

text \<open>The specification: the open subscriptions by connection and subscription id, and the cap.\<close>

type_synonym live_spec = "(u64 \<times> bytes \<Rightarrow> monitored option) \<times> nat"

definition sub_key :: "subscription \<Rightarrow> u64 \<times> bytes" where
  "sub_key sub = (sub_conn_id sub, sub_sub_id sub)"

definition full :: "live_spec \<Rightarrow> subscription \<Rightarrow> bool" where
  "full = (\<lambda>(m, cap) sub. m (sub_key sub) = None \<and> cap \<le> card {sid. m (sub_conn_id sub, sid) \<noteq> None})"

inductive live_step :: "live_spec \<Rightarrow> 'r live_op \<Rightarrow> 'r live_out \<Rightarrow> live_spec \<Rightarrow> bool" where
  refuse: "full (m, cap) sub \<Longrightarrow> live_step (m, cap) (AddSub sub at_id) (Opened False) (m, cap)"
| add: "\<not> full (m, cap) sub \<Longrightarrow> live_step (m, cap) (AddSub sub at_id) (Opened True) (m(sub_key sub \<mapsto> \<lparr> mo_sub = sub, mo_pending = None \<rparr>), cap)"
| add_pending: "live_step (m, cap) (AddPending sub buffer) Done (m(sub_key sub \<mapsto> \<lparr> mo_sub = sub, mo_pending = Some buffer \<rparr>), cap)"
| remove: "live_step (m, cap) (RemoveSub c sid) Done (m((c, sid) := None), cap)"
| remove_refused: "distinct (map report_key rs) \<Longrightarrow> set rs = {r. \<exists>k e. m k = Some e \<and> report refusal e = Some r} \<Longrightarrow>
    live_step (m, cap) (RemoveRefused refusal) (Refused rs) (\<lambda>k. Option.bind (m k) (\<lambda>e. if refusal (mo_sub e) = None then Some e else None), cap)"
| close: "live_step (m, cap) (CloseConn c) Done (\<lambda>k. if fst k = c then None else m k, cap)"
| edit: "live_step (m, cap) (EditPending c sid f) Done
    (m((c, sid) := map_option (\<lambda>e. e\<lparr> mo_pending := map_option f (mo_pending e) \<rparr>) (m (c, sid))), cap)"
| finish: "live_step (m, cap) (FinishPending c sid g d) (Finished (Option.bind (m (c, sid)) (\<lambda>e. if finishes g e then mo_pending e else None)))
    (m((c, sid) := map_option (\<lambda>e. if finishes g e then finished d e else e) (m (c, sid))), cap)"
| set_cap: "live_step (m, cap) (SetMaxSubs n) Done (m, n)"
| process: "sorted_wrt (<) (map recipient_key rs) \<Longrightarrow> set rs = {recipient_of e | k e. m k = Some e \<and> takes (Some lev) ev terms e} \<Longrightarrow>
    live_step (m, cap) (Process lev ev terms) (Recipients rs) (\<lambda>k. after_event (Some lev) ev terms (m k), cap)"
| ephemeral: "sorted_wrt (<) (map recipient_key rs) \<Longrightarrow> set rs = {recipient_of e | k e. m k = Some e \<and> takes None ev terms e} \<Longrightarrow>
    live_step (m, cap) (ProcessEphemeral ev terms) (Recipients rs) (m, cap)"
| needs: "live_step (m, cap) (NeedsContent ev) (Needs (\<exists>k e f. m k = Some e \<and> f \<in> set (fg_filters (sub_filter_group (mo_sub e))) \<and>
    f_search f \<noteq> None \<and> does_match_without_search f ev)) (m, cap)"
| lookup: "live_step (m, cap) (Lookup c sid) (Found (map_option mo_sub (m (c, sid)))
    (Option.bind (m (c, sid)) (\<lambda>e. map_option (\<lambda>_. sub_generation (mo_sub e)) (mo_pending e)))) (m, cap)"

inductive live_trace :: "live_spec \<Rightarrow> 'r live_op list \<Rightarrow> 'r live_out list \<Rightarrow> live_spec \<Rightarrow> bool" where
  nil: "live_trace sp [] [] sp"
| cons: "live_step sp op out sp1 \<Longrightarrow> live_trace sp1 ops outs sp2 \<Longrightarrow> live_trace sp (op # ops) (out # outs) sp2"

inductive_cases live_trace_NilE: "live_trace sp [] outs sp'"
inductive_cases live_trace_ConsE: "live_trace sp (op # ops) outs sp'"

section \<open>Refinement\<close>

text \<open>Subscriptions are opened with filters compiled from a request.\<close>

definition compiled :: "filter_group \<Rightarrow> bool" where
  "compiled fg \<longleftrightarrow> (\<exists>X U arr lim mt ma. from_req X U arr lim mt ma = Inr fg \<and> list_all wf_value arr)"

definition opens :: "'r live_op \<Rightarrow> subscription option" where
  "opens op = (case op of AddSub sub _ \<Rightarrow> Some sub | AddPending sub _ \<Rightarrow> Some sub | _ \<Rightarrow> None)"

definition op_ok :: "'r live_op \<Rightarrow> bool" where
  "op_ok op = (case opens op of None \<Rightarrow> True | Some sub \<Rightarrow> compiled (sub_filter_group sub))"

text \<open>The slot and the postings an operation may add.\<close>

definition op_cost :: "'r live_op \<Rightarrow> nat" where
  "op_cost op = (case opens op of None \<Rightarrow> 0 | Some sub \<Rightarrow> Suc (length (keys_of (fg_filters (sub_filter_group sub)))))"

lemma compiled_ok: "compiled fg \<Longrightarrow> group_ok fg"
  unfolding compiled_def using from_req_ok by blast

definition simulates :: "active_monitors \<Rightarrow> 'r live_op \<Rightarrow> bool" where
  "simulates st op \<longleftrightarrow> (\<exists>st' out. live_exec st op = Some (st', out) \<and> live_step (view st, am_max_subs st) op out (view st', am_max_subs st') \<and>
     mon_ok st' \<and> total_keys (am_slots st') \<le> total_keys (am_slots st) + op_cost op \<and>
     length (am_slots st') \<le> length (am_slots st) + op_cost op \<and> unat (am_pass st') \<le> Suc (unat (am_pass st)))"

lemma simulatesI:
  assumes "live_exec st op = Some (st', out)" "moved st v st'" "live_step (view st, am_max_subs st) op out (v, am_max_subs st)"
  shows "simulates st op"
  unfolding simulates_def using assms by (intro exI [of _ st'] exI [of _ out]) (auto simp: moved_def)

lemma insert_simulates:
  assumes m: "mon_ok st" and ok: "compiled (sub_filter_group sub)"
    and b: "total_keys (am_slots st) + n < 2 ^ 32" "length (am_slots st) + n < 2 ^ 32" "n = Suc (length (keys_of (fg_filters (sub_filter_group sub))))"
  shows "\<exists>st'. monitors_insert st sub p = Some st' \<and> mon_ok st' \<and> view st' = (view st)(sub_key sub \<mapsto> \<lparr> mo_sub = sub, mo_pending = p \<rparr>) \<and>
    am_max_subs st' = am_max_subs st \<and> am_pass st' = am_pass st \<and> total_keys (am_slots st') \<le> total_keys (am_slots st) + n \<and>
    length (am_slots st') \<le> length (am_slots st) + n"
proof -
  let ?e = "\<lparr> mo_sub = sub, mo_pending = p \<rparr>"
  have keys: "length (slot_keys ?e) < n" "key_of ?e = sub_key sub" by (simp_all add: b(3) slot_keys_def key_of_def sub_key_def)
  have "length (am_slots st) < 2 ^ 32" "total_keys (am_slots st) + length (slot_keys ?e) < 2 ^ 32" using b(1,2) keys(1) by simp_all
  from monitors_insert_ok [OF m compiled_ok [OF ok] refl this] keys show ?thesis unfolding b(3) by (force simp: slot_keys_def)
qed

lemma add_sub_simulates:
  assumes m: "mon_ok st" and ok: "compiled (sub_filter_group sub)"
    and op: "op = AddSub sub at_id" and b: "total_keys (am_slots st) + op_cost op < 2 ^ 32" "length (am_slots st) + op_cost op < 2 ^ 32"
  shows "simulates st op"
proof -
  have repl: "(case map_of (am_conns st) (sub_conn_id sub) of None \<Rightarrow> False | Some conn \<Rightarrow> map_of conn (sub_sub_id sub) \<noteq> None) \<longleftrightarrow>
      view st (sub_key sub) \<noteq> None"
    using view_None [OF m, of "sub_key sub"] by (simp add: conn_slots_def sub_key_def split: option.split)
  have full: "full (view st, am_max_subs st) sub \<longleftrightarrow> view st (sub_key sub) = None \<and>
      am_max_subs st \<le> (case map_of (am_conns st) (sub_conn_id sub) of None \<Rightarrow> 0 | Some conn \<Rightarrow> length conn)"
    by (simp add: full_def open_count [OF m])
  show ?thesis
  proof (cases "full (view st, am_max_subs st) sub")
    case True
    then have "add_sub st sub at_id = Some (st, False)" using repl full by (simp add: add_sub_def Let_def)
    then show ?thesis unfolding op
      by (intro simulatesI [OF _ moved_refl [OF m] live_step.refuse [OF True]]) (simp add: live_exec_def)
  next
    case False
    obtain st' where st': "monitors_insert st sub None = Some st'" "mon_ok st'" "view st' = (view st)(sub_key sub \<mapsto> \<lparr> mo_sub = sub, mo_pending = None \<rparr>)"
        "am_max_subs st' = am_max_subs st" "am_pass st' = am_pass st" "total_keys (am_slots st') \<le> total_keys (am_slots st) + op_cost op"
        "length (am_slots st') \<le> length (am_slots st) + op_cost op"
      using insert_simulates [OF m ok b] by (auto simp: op op_cost_def opens_def)
    have "add_sub st sub at_id = Some (st', True)" using False st'(1) unfolding full by (simp add: add_sub_def Let_def repl)
    then have ex: "live_exec st op = Some (st', Opened True)" by (simp add: live_exec_def op)
    from live_step.add [OF False, of at_id] have "live_step (view st, am_max_subs st) op (Opened True) (view st', am_max_subs st')"
      by (simp add: op st'(3,4))
    with ex st' show ?thesis unfolding simulates_def by auto
  qed
qed

lemma add_pending_simulates:
  assumes m: "mon_ok st" and ok: "compiled (sub_filter_group sub)"
    and op: "op = AddPending sub buffer" and b: "total_keys (am_slots st) + op_cost op < 2 ^ 32" "length (am_slots st) + op_cost op < 2 ^ 32"
  shows "simulates st op"
proof -
  obtain st' where st': "monitors_insert st sub (Some buffer) = Some st'" "mon_ok st'"
      "view st' = (view st)(sub_key sub \<mapsto> \<lparr> mo_sub = sub, mo_pending = Some buffer \<rparr>)"
      "am_max_subs st' = am_max_subs st" "am_pass st' = am_pass st" "total_keys (am_slots st') \<le> total_keys (am_slots st) + op_cost op"
      "length (am_slots st') \<le> length (am_slots st) + op_cost op"
    using insert_simulates [OF m ok b] by (auto simp: op op_cost_def opens_def)
  have ex: "live_exec st op = Some (st', Done)" using st'(1) by (simp add: live_exec_def add_pending_def op)
  have "live_step (view st, am_max_subs st) op Done (view st', am_max_subs st')"
    unfolding op st'(3,4) by (rule live_step.add_pending)
  with ex st' show ?thesis unfolding simulates_def by auto
qed

lemma unat_pass: "x \<noteq> - 1 \<Longrightarrow> unat (x + 1) = Suc (unat x)" for x :: u64
  using word_less_plus_one [of x] by (simp add: word_less_nat_alt unat_word_ariths mod_Suc split: if_splits)

lemma after_ephemeral: "after_event None ev terms x = x"
  by (cases x) (simp_all add: after_event_def bumped_def)

lemma process_simulates:
  assumes m: "mon_ok st" and pass: "am_pass st \<noteq> - 1"
  shows "simulates st (Process lev ev terms)" "simulates st (ProcessEphemeral ev terms)"
proof -
  obtain st' rs where p: "process_inner st (Some lev) ev terms = Some (st', rs)" "mon_ok st'" "view st' = (\<lambda>k. after_event (Some lev) ev terms (view st k))"
      "am_max_subs st' = am_max_subs st" "am_pass st' = am_pass st + 1" "total_keys (am_slots st') = total_keys (am_slots st)"
      "length (am_slots st') = length (am_slots st)" "sorted_wrt (<) (map recipient_key rs)"
      "set rs = {recipient_of e | k e. view st k = Some e \<and> takes (Some lev) ev terms e}"
    using process_inner_ok [OF m pass, of "Some lev" ev terms] by blast
  have "live_step (view st, am_max_subs st) (Process lev ev terms) (Recipients rs) (view st', am_max_subs st')"
    unfolding p(3,4) by (rule live_step.process [OF p(8,9)])
  with p pass show "simulates st (Process lev ev terms)"
    unfolding simulates_def by (auto simp: live_exec_def process_def unat_pass)
next
  obtain st' rs where p: "process_inner st None ev terms = Some (st', rs)" "mon_ok st'" "view st' = (\<lambda>k. after_event None ev terms (view st k))"
      "am_max_subs st' = am_max_subs st" "am_pass st' = am_pass st + 1" "total_keys (am_slots st') = total_keys (am_slots st)"
      "length (am_slots st') = length (am_slots st)" "sorted_wrt (<) (map recipient_key rs)"
      "set rs = {recipient_of e | k e. view st k = Some e \<and> takes None ev terms e}"
    using process_inner_ok [OF m pass, of None ev terms] by blast
  have v: "view st' = view st" unfolding p(3) by (simp add: after_ephemeral)
  have "live_step (view st, am_max_subs st) (ProcessEphemeral ev terms) (Recipients rs) (view st', am_max_subs st')"
    unfolding v p(4) by (rule live_step.ephemeral [OF p(8,9)])
  with p pass show "simulates st (ProcessEphemeral ev terms)"
    unfolding simulates_def by (auto simp: live_exec_def process_ephemeral_def unat_pass)
qed

lemma exec_simulates:
  assumes m: "mon_ok st" and ok: "op_ok op" and pass: "am_pass st \<noteq> - 1"
    and b: "total_keys (am_slots st) + op_cost op < 2 ^ 32" "length (am_slots st) + op_cost op < 2 ^ 32"
  shows "simulates st op"
proof (cases op)
  case (AddSub sub at_id)
  then show ?thesis using add_sub_simulates [OF m _ AddSub b] ok by (simp add: op_ok_def opens_def)
next
  case (AddPending sub buffer)
  then show ?thesis using add_pending_simulates [OF m _ AddPending b] ok by (simp add: op_ok_def opens_def)
next
  case (RemoveSub c sid)
  obtain st' where st': "remove_sub st c sid = Some st'" "moved st ((view st)((c, sid) := None)) st'" using remove_sub_ok [OF m] by blast
  show ?thesis unfolding RemoveSub by (rule simulatesI [OF _ st'(2) live_step.remove]) (simp add: live_exec_def st'(1))
next
  case (RemoveRefused refusal)
  obtain st' rs where st': "remove_refused st refusal = Some (st', rs)" "distinct (map report_key rs)"
      "set rs = {r. \<exists>k e. view st k = Some e \<and> report refusal e = Some r}"
      "moved st (\<lambda>k. Option.bind (view st k) (\<lambda>e. if refusal (mo_sub e) = None then Some e else None)) st'"
    using remove_refused_ok [OF m] by blast
  show ?thesis unfolding RemoveRefused
    by (rule simulatesI [OF _ st'(4) live_step.remove_refused [OF st'(2,3)]]) (simp add: live_exec_def st'(1))
next
  case (CloseConn c)
  obtain st' where st': "close_conn st c = Some st'" "moved st (\<lambda>k. if fst k = c then None else view st k) st'" using close_conn_ok [OF m] by blast
  show ?thesis unfolding CloseConn by (rule simulatesI [OF _ st'(2) live_step.close]) (simp add: live_exec_def st'(1))
next
  case (EditPending c sid f)
  obtain st' where st': "pending_mut st c sid f = Some st'"
      "moved st ((view st)((c, sid) := map_option (\<lambda>e. e\<lparr> mo_pending := map_option f (mo_pending e) \<rparr>) (view st (c, sid)))) st'"
    using pending_mut_ok [OF m] by blast
  show ?thesis unfolding EditPending by (rule simulatesI [OF _ st'(2) live_step.edit]) (simp add: live_exec_def st'(1))
next
  case (FinishPending c sid g d)
  obtain st' where st': "finish_pending st c sid g d = Some (st', Option.bind (view st (c, sid)) (\<lambda>e. if finishes g e then mo_pending e else None))"
      "moved st ((view st)((c, sid) := map_option (\<lambda>e. if finishes g e then finished d e else e) (view st (c, sid)))) st'"
    using finish_pending_ok [OF m] by blast
  show ?thesis unfolding FinishPending by (rule simulatesI [OF _ st'(2) live_step.finish]) (simp add: live_exec_def st'(1))
next
  case (SetMaxSubs n)
  let ?st' = "st\<lparr> am_max_subs := n \<rparr>"
  have "indexed ?st' own \<longleftrightarrow> indexed st own" for own by (rule indexed_cong) simp_all
  then have "mon_ok ?st'" using m by (simp add: mon_ok_def mon_part_def core_def)
  moreover have "view ?st' = view st" by (simp add: view_def fun_eq_iff)
  moreover have "live_exec st op = Some (?st', Done)" by (simp add: SetMaxSubs live_exec_def set_max_subs_def)
  moreover have "live_step (view st, am_max_subs st) op Done (view st, n)" unfolding SetMaxSubs by (rule live_step.set_cap)
  ultimately show ?thesis unfolding simulates_def by (intro exI [of _ ?st'] exI [of _ Done]) simp
next
  case (Process lev ev terms)
  then show ?thesis using process_simulates(1) [OF m pass] by simp
next
  case (ProcessEphemeral ev terms)
  then show ?thesis using process_simulates(2) [OF m pass] by simp
next
  case (NeedsContent ev)
  let ?b = "\<exists>k e f. view st k = Some e \<and> f \<in> set (fg_filters (sub_filter_group (mo_sub e))) \<and> f_search f \<noteq> None \<and> does_match_without_search f ev"
  obtain st' where st': "event_requires_content st ev = Some (st', ?b)" "mon_ok st'" "view st' = view st" "am_max_subs st' = am_max_subs st"
      "am_pass st' \<in> {am_pass st, am_pass st + 1}" "am_slots st' = am_slots st"
    using event_requires_content_ok [OF m pass, of ev] by blast
  have "live_step (view st, am_max_subs st) op (Needs ?b) (view st', am_max_subs st')" unfolding NeedsContent st'(3,4) by (rule live_step.needs)
  moreover have "live_exec st op = Some (st', Needs ?b)" unfolding NeedsContent by (simp only: live_exec_def live_op.case st'(1) option.map prod.case)
  moreover have "unat (am_pass st') \<le> Suc (unat (am_pass st))" using st'(5) unat_pass [OF pass] by auto
  ultimately show ?thesis unfolding simulates_def using st'(2,6) by (intro exI [of _ st'] exI [of _ "Needs ?b"]) simp
next
  case (Lookup c sid)
  have "live_exec st (Lookup c sid) = Some (st, Found (map_option mo_sub (view st (c, sid)))
      (Option.bind (view st (c, sid)) (\<lambda>e. map_option (\<lambda>_. sub_generation (mo_sub e)) (mo_pending e))))"
    by (simp add: live_exec_def subscription_at_def pending_generation_def entry_view [OF m])
  from simulatesI [OF this moved_refl [OF m] live_step.lookup] show ?thesis by (simp add: Lookup)
qed

end
