(* ===== verification/Query_Trace.thy ===== *)
theory Query_Trace
  imports Query_Live
begin

text \<open>
  Properties of the live subscriptions over runs of operations: the runs refine the specification, closing the
  connections empties the indexes, and no stored event is delivered twice to a subscription.
\<close>

section \<open>Runs\<close>

lemma monitors_new_ok: "mon_ok (monitors_new cap)" "view (monitors_new cap) = Map.empty" "am_slots (monitors_new cap) = []"
  "am_pass (monitors_new cap) = 0" "am_max_subs (monitors_new cap) = cap"
proof -
  have "buckets_of (monitors_new cap) k = []" for k
    by (cases k; cases "fst k") (simp_all add: buckets_of_def which_index_def monitors_new_def index_new_ok)
  then have "placed (buckets_of (monitors_new cap)) [] (own_of [])"
    by (intro placedI) (simp_all add: own_of_def nth_opt_def)
  then show "mon_ok (monitors_new cap)"
    by (simp add: mon_ok_def mon_part_def core_def indexed_def monitors_new_def index_new_ok total_content_def conns_wf_def linked_def conn_slots_def)
qed (simp_all add: monitors_new_def view_def conn_slots_def fun_eq_iff)

text \<open>A valid run: compiled filters, fewer than \<open>2 ^ 32\<close> slots and postings in all, and fewer than \<open>2 ^ 64\<close> passes.\<close>

definition valid_run :: "'r live_op list \<Rightarrow> bool" where
  "valid_run ops \<longleftrightarrow> (\<forall>op \<in> set ops. op_ok op) \<and> sum_list (map op_cost ops) < 2 ^ 32 \<and> length ops < 2 ^ 64 - 1"

lemma run_simulates:
  assumes "mon_ok st" "\<forall>op \<in> set ops. op_ok op" "total_keys (am_slots st) + sum_list (map op_cost ops) < 2 ^ 32"
    "length (am_slots st) + sum_list (map op_cost ops) < 2 ^ 32" "unat (am_pass st) + length ops < 2 ^ 64 - 1"
  shows "\<exists>st' outs. live_run st ops = Some (st', outs) \<and> live_trace (view st, am_max_subs st) ops outs (view st', am_max_subs st') \<and>
    length outs = length ops \<and> mon_ok st'"
  using assms
proof (induction ops arbitrary: st)
  case Nil
  then show ?case using live_trace.nil by simp
next
  case (Cons op ops)
  have pass: "am_pass st \<noteq> - 1" using Cons.prems(5) by (auto simp: unat_minus_one_word)
  have "simulates st op" by (rule exec_simulates) (use Cons.prems pass in simp_all)
  then obtain st1 out where st1: "live_exec st op = Some (st1, out)" "live_step (view st, am_max_subs st) op out (view st1, am_max_subs st1)" "mon_ok st1"
      "total_keys (am_slots st1) \<le> total_keys (am_slots st) + op_cost op" "length (am_slots st1) \<le> length (am_slots st) + op_cost op"
      "unat (am_pass st1) \<le> Suc (unat (am_pass st))"
    unfolding simulates_def by blast
  obtain st' outs where st': "live_run st1 ops = Some (st', outs)" "live_trace (view st1, am_max_subs st1) ops outs (view st', am_max_subs st')"
      "length outs = length ops" "mon_ok st'"
    using Cons.IH [OF st1(3)] Cons.prems st1(4-6) by auto
  from live_trace.cons [OF st1(2) st'(2)] st1(1) st' show ?case by auto
qed

lemma valid_run_simulates:
  assumes "valid_run ops"
  shows "\<exists>st outs. live_run (monitors_new cap) ops = Some (st, outs) \<and> live_trace (Map.empty, cap) ops outs (view st, am_max_subs st) \<and>
    length outs = length ops \<and> mon_ok st"
  using run_simulates [OF monitors_new_ok(1), of ops cap] assms by (simp add: monitors_new_ok total_keys_def valid_run_def)

text \<open>Without open subscriptions nothing is left.\<close>

lemma empty_view:
  assumes m: "mon_ok st" and v: "\<And>k. view st k = None"
  shows "monitors_is_empty st \<and> am_index st = index_new \<and> am_search st = index_new \<and> am_content st = 0 \<and> list_all (\<lambda>e. e = None) (am_slots st)"
proof -
  have w: "conns_wf (am_conns st)" and l: "linked (conn_slots (am_conns st)) (am_slots st)" and c: "core st" using m by (simp_all add: mon_ok_def mon_part_def)
  have none: "am_slots st ! s = None" if "s < length (am_slots st)" for s
    using view_linked [OF l] v that by (metis not_Some_eq)
  have "conn_slots (am_conns st) = Map.empty" by (rule ext) (metis view_None [OF m] v)
  then have keys: "all_keys (am_conns st) = []" using set_all_keys [OF w] by simp
  have "am_conns st = []"
  proof (cases "am_conns st")
    case (Cons x conns)
    obtain c subs where x: "x = (c, subs)" by fastforce
    have "subs \<noteq> []" using w by (simp add: Cons x conns_wf_def)
    with keys show ?thesis by (simp add: Cons x all_keys_Cons)
  qed
  moreover have "own_of (am_slots st) x = None" for x using none by (cases x) (auto simp: own_of_def nth_opt_def)
  then have empty: "buckets_of st k = []" for k
    using placed_posting(1) [OF mon_placed [OF m], of 0 k] by (cases "buckets_of st k") auto
  have "index_bucket (which_index st b) k = []" for b k using empty [of "(b, k)"] by (simp add: buckets_of_def)
  from this [of False] this [of True] have "am_index st = index_new" "am_search st = index_new"
    using c index_empty by (auto simp: which_index_def core_def indexed_def)
  moreover have "total_content (am_slots st) = 0"
    using none by (auto simp: total_content_def in_set_conv_nth)
  then have "am_content st = 0" using c by (simp add: core_def)
  ultimately show ?thesis using none by (simp add: monitors_is_empty_def list_all_length)
qed

section \<open>What a run does to one subscription\<close>

definition spec_keys :: "(u64 \<times> bytes \<Rightarrow> monitored option) \<Rightarrow> bool" where
  "spec_keys m \<longleftrightarrow> (\<forall>k e. m k = Some e \<longrightarrow> key_of e = k)"

definition latest :: "(u64 \<times> bytes \<Rightarrow> monitored option) \<Rightarrow> u64 \<times> bytes \<Rightarrow> u64 option" where
  "latest m k = map_option (\<lambda>e. sub_latest_event_id (mo_sub e)) (m k)"

definition opens_key :: "'r live_op \<Rightarrow> (u64 \<times> bytes) option" where
  "opens_key op = map_option sub_key (opens op)"

definition delivered :: "u64 \<times> bytes \<Rightarrow> 'r live_op \<Rightarrow> 'r live_out \<Rightarrow> u64 list" where
  "delivered k op out = (case op of Process lev ev terms \<Rightarrow> (case out of Recipients rs \<Rightarrow> if k \<in> recipient_key ` set rs then [lev] else [] | _ \<Rightarrow> []) | _ \<Rightarrow> [])"

definition deliveries :: "u64 \<times> bytes \<Rightarrow> 'r live_op list \<Rightarrow> 'r live_out list \<Rightarrow> u64 list" where
  "deliveries k ops outs = concat (map2 (delivered k) ops outs)"

lemma deliveries_Cons: "deliveries k (op # ops) (out # outs) = delivered k op out @ deliveries k ops outs"
  by (simp add: deliveries_def)

lemma key_of_kept:
  "key_of (e\<lparr> mo_pending := p \<rparr>) = key_of e" "key_of (finished d e) = key_of e" "key_of (bumped lev e) = key_of e"
  "key_of \<lparr> mo_sub = sub, mo_pending = p \<rparr> = sub_key sub"
  by (simp_all add: key_of_def finished_def bumped_def sub_key_def split: option.split)

lemma step_keys:
  assumes "live_step sp op out sp'" "spec_keys (fst sp)"
  shows "spec_keys (fst sp')"
  using assms
  by (cases rule: live_step.cases)
    (auto simp: spec_keys_def key_of_kept after_event_def Option.bind_eq_Some_conv split: if_splits simp del: split_paired_All)

text \<open>A subscription that is not opened anew does not appear, and its cursor does not go back.\<close>

lemma step_latest:
  assumes "live_step sp op out sp'" "opens_key op \<noteq> Some k" "latest (fst sp') k = Some l'"
  shows "\<exists>l. latest (fst sp) k = Some l \<and> l \<le> l'"
  using assms
  by (cases rule: live_step.cases)
    (auto simp: latest_def opens_key_def opens_def after_event_def bumped_def takes_def finished_def Option.bind_eq_Some_conv split: if_splits)

lemma step_delivered:
  assumes st: "live_step sp op out sp'" and keys: "spec_keys (fst sp)" and d: "l \<in> set (delivered k op out)"
  shows "\<exists>l0. latest (fst sp) k = Some l0 \<and> l0 < l" "latest (fst sp') k = Some l" "delivered k op out = [l]"
proof -
  obtain ev terms rs where op: "op = Process l ev terms" "out = Recipients rs" "k \<in> recipient_key ` set rs"
    using d by (auto simp: delivered_def split: live_op.splits live_out.splits if_splits)
  from st [unfolded op(1,2)] obtain m cap where sp: "sp = (m, cap)" "sp' = (\<lambda>k. after_event (Some l) ev terms (m k), cap)"
    and rs: "set rs = {recipient_of e | k e. m k = Some e \<and> takes (Some l) ev terms e}"
    by (cases rule: live_step.cases) auto
  obtain k' e where e: "m k' = Some e" "takes (Some l) ev terms e" "k = key_of e" using op(3) unfolding rs by auto
  then have k: "m k = Some e" using keys unfolding spec_keys_def sp fst_conv by metis
  then show "\<exists>l0. latest (fst sp) k = Some l0 \<and> l0 < l" "latest (fst sp') k = Some l"
    using e(2) by (simp_all add: latest_def sp takes_def after_event_def bumped_def)
  show "delivered k op out = [l]" using op by (simp add: delivered_def)
qed

lemma trace_delivers:
  assumes "live_trace sp ops outs sp'" "spec_keys (fst sp)" "\<And>op. op \<in> set ops \<Longrightarrow> opens_key op \<noteq> Some k"
  shows "sorted_wrt (<) (deliveries k ops outs) \<and> (\<forall>l \<in> set (deliveries k ops outs). \<exists>l0. latest (fst sp) k = Some l0 \<and> l0 < l)"
  using assms
proof (induction rule: live_trace.induct)
  case (nil sp)
  then show ?case by (simp add: deliveries_def)
next
  case (cons sp op out sp1 ops outs sp2)
  have IH: "sorted_wrt (<) (deliveries k ops outs)" "\<And>l. l \<in> set (deliveries k ops outs) \<Longrightarrow> \<exists>l0. latest (fst sp1) k = Some l0 \<and> l0 < l"
    using cons.IH step_keys [OF cons.hyps(1) cons.prems(1)] cons.prems(2) by simp_all
  have k: "opens_key op \<noteq> Some k" using cons.prems(2) by simp
  have later: "\<exists>l0. latest (fst sp) k = Some l0 \<and> l0 < l" if l: "l \<in> set (deliveries k ops outs)" for l
    using IH(2) [OF l] step_latest [OF cons.hyps(1) k] by fastforce
  show ?case
  proof (cases "delivered k op out")
    case Nil
    then show ?thesis using IH(1) later by (simp add: deliveries_Cons)
  next
    case (Cons d ds)
    then have d: "d \<in> set (delivered k op out)" by simp
    note now = step_delivered [OF cons.hyps(1) cons.prems(1) d]
    have "d < l" if "l \<in> set (deliveries k ops outs)" for l using IH(2) [OF that] now(2) by simp
    then show ?thesis using IH(1) later now by (simp add: deliveries_Cons)
  qed
qed

lemma live_trace_append:
  assumes "live_trace sp (ops1 @ ops2) outs sp'"
  shows "\<exists>outs1 outs2 sp1. outs = outs1 @ outs2 \<and> live_trace sp ops1 outs1 sp1 \<and> live_trace sp1 ops2 outs2 sp'"
  using assms
proof (induction ops1 arbitrary: sp outs)
  case Nil
  then show ?case by (intro exI [of _ "[]"] exI [of _ outs] exI [of _ sp]) (simp add: live_trace.nil)
next
  case (Cons op ops1)
  from Cons.prems obtain out outs' sp0 where o: "outs = out # outs'" "live_step sp op out sp0" "live_trace sp0 (ops1 @ ops2) outs' sp'"
    by (auto elim: live_trace_ConsE)
  from Cons.IH [OF o(3)] obtain outs1 outs2 sp1 where "outs' = outs1 @ outs2" "live_trace sp0 ops1 outs1 sp1" "live_trace sp1 ops2 outs2 sp'" by blast
  with o live_trace.cons [OF o(2)] show ?case
    by (intro exI [of _ "out # outs1"] exI [of _ outs2] exI [of _ sp1]) simp
qed

lemma live_trace_length: "live_trace sp ops outs sp' \<Longrightarrow> length outs = length ops"
  by (induction rule: live_trace.induct) simp_all

lemma trace_keys: "live_trace sp ops outs sp' \<Longrightarrow> spec_keys (fst sp) \<Longrightarrow> spec_keys (fst sp')"
  by (induction rule: live_trace.induct) (auto dest: step_keys)

text \<open>What is open was opened.\<close>

lemma trace_opened:
  "live_trace sp ops outs sp' \<Longrightarrow> latest (fst sp') k \<noteq> None \<Longrightarrow> latest (fst sp) k \<noteq> None \<or> (\<exists>op \<in> set ops. opens_key op = Some k)"
proof (induction rule: live_trace.induct)
  case (cons sp op out sp1 ops outs sp2)
  then show ?case using step_latest [OF cons.hyps(1), of k] by (cases "opens_key op = Some k") auto
qed simp

lemma trace_closed:
  "live_trace sp (map CloseConn cs) outs sp' \<Longrightarrow> fst sp' k = (if fst k \<in> set cs then None else fst sp k)"
proof (induction cs arbitrary: sp outs)
  case Nil
  then show ?case by (auto elim: live_trace_NilE)
next
  case (Cons c cs)
  from Cons.prems obtain out outs' sp1 where s: "live_step sp (CloseConn c) out sp1" "live_trace sp1 (map CloseConn cs) outs' sp'" "outs = out # outs'"
    by (auto elim: live_trace_ConsE)
  from s(1) have "fst sp1 k = (if fst k = c then None else fst sp k)" by (cases rule: live_step.cases) simp
  with Cons.IH [OF s(2)] show ?case by simp
qed

section \<open>Properties\<close>

text \<open>C2: every run of operations on the live subscriptions, however opened, replaced, refused, closed, finished
  and matched, goes through without a panic and gives the outputs of the specification on a plain map from
  connection and subscription id to subscription. In particular each event goes to exactly the open
  subscriptions whose filters match it and whose cursor is below it, in order, and the relay reads an event's
  content exactly when an open search filter may need it. The indexes, the kind masks, the slots, the
  candidate passes and the swap removals change nothing. The run opens subscriptions with compiled filters,
  needs fewer than \<open>2 ^ 32\<close> slots and postings in all, and makes fewer than \<open>2 ^ 64\<close> passes.\<close>

theorem live_refines:
  assumes "valid_run ops"
  shows "\<exists>st outs sp. live_run (monitors_new cap) ops = Some (st, outs) \<and> live_trace (Map.empty, cap) ops outs sp"
  using valid_run_simulates [OF assms] by blast

definition sample_sub :: subscription where
  "sample_sub = \<lparr> sub_conn_id = 1, sub_sub_id = str ''s'', sub_filter_group = sample_group, sub_count_only = False,
     sub_latest_event_id = 3, sub_generation = 0, sub_auth_challenged = False \<rparr>"

definition sample_ops :: "unit live_op list" where
  "sample_ops = [AddSub sample_sub 0, Process 5 sample_packed None, Process 5 sample_packed None]"

lemma sample_valid: "valid_run (sample_ops @ map CloseConn [1])"
proof -
  have "compiled sample_group" unfolding compiled_def using sample_req_group sample_req_wf by blast
  moreover have "length (keys_of (fg_filters sample_group)) = 1"
    by (simp add: keys_of_def sample_group_def filter_keys_def for_each_key_def empty_filter_def)
  ultimately show ?thesis
    by (simp add: valid_run_def sample_ops_def op_ok_def op_cost_def opens_def sample_sub_def)
qed

definition sample_out :: "unit live_out list" where
  "sample_out = [Opened True, Recipients [\<lparr> rc_conn_id = 1, rc_sub_id = str ''s'', rc_pending = False, rc_generation = 0 \<rparr>], Recipients [], Done]"

lemma sample_takes: "takes (Some 5) sample_packed None \<lparr> mo_sub = sample_sub \<lparr> sub_latest_event_id := n \<rparr>, mo_pending = None \<rparr> \<longleftrightarrow> n < 5"
  using sample_group_matches by (simp add: takes_def sample_sub_def)

lemma sole_recipient:
  assumes "sorted_wrt (<) (map recipient_key rs)" "set rs \<subseteq> {r}"
  shows "rs = (if r \<in> set rs then [r] else [])"
proof -
  have "distinct rs" using assms(1) by (simp add: strict_sorted_iff distinct_map)
  then have "length rs = card (set rs)" by (simp add: distinct_card)
  moreover have "set rs = {} \<or> set rs = {r}" by (rule subset_singletonD [OF assms(2)])
  ultimately show ?thesis
  proof (elim disjE)
    assume "length rs = card (set rs)" and r: "set rs = {r}"
    then obtain x where "rs = [x]" by (auto simp: length_Suc_conv)
    with r show ?thesis by simp
  qed simp
qed

text \<open>A subscription of one filter gets the event once: its cursor keeps the second out.\<close>

lemma sample_trace:
  assumes "live_trace (Map.empty, 10) (sample_ops @ map CloseConn [1]) outs sp"
  shows "outs = sample_out"
proof -
  let ?k = "(1, str ''s'') :: u64 \<times> bytes"
  let ?e = "\<lambda>n. \<lparr> mo_sub = sample_sub \<lparr> sub_latest_event_id := n \<rparr>, mo_pending = None \<rparr>"
  let ?r = "\<lparr> rc_conn_id = 1, rc_sub_id = str ''s'', rc_pending = False, rc_generation = 0 \<rparr>"
  have e: "\<lparr> mo_sub = sample_sub, mo_pending = None \<rparr> = ?e 3" "sub_key sample_sub = ?k" by (simp_all add: sample_sub_def sub_key_def)
  have rec: "recipient_of (?e n) = ?r" for n by (simp add: recipient_of_def sample_sub_def)
  have after: "(\<lambda>k. after_event (Some 5) sample_packed None (([?k \<mapsto> ?e 3]) k)) = [?k \<mapsto> ?e 5]"
    by (auto simp: after_event_def sample_takes bumped_def fun_eq_iff)
  from assms obtain o1 o2 o3 o4 s1 s2 s3 s4 where o: "outs = [o1, o2, o3, o4]"
    and t: "live_step (Map.empty, 10) (AddSub sample_sub 0) o1 s1" "live_step s1 (Process 5 sample_packed None) o2 s2"
      "live_step s2 (Process 5 sample_packed None) o3 s3" "live_step s3 (CloseConn 1) o4 s4"
    unfolding sample_ops_def by (auto elim!: live_trace_ConsE live_trace_NilE)
  have "\<not> full (Map.empty, 10) sample_sub" by (simp add: full_def)
  with t(1) have s1: "o1 = Opened True" "s1 = ([?k \<mapsto> ?e 3], 10)" by (cases rule: live_step.cases; simp add: e)+
  from t(2) [unfolded s1] obtain rs where rs: "o2 = Recipients rs" "s2 = ([?k \<mapsto> ?e 5], 10)" "sorted_wrt (<) (map recipient_key rs)"
      "set rs = {recipient_of e | k e. [?k \<mapsto> ?e 3] k = Some e \<and> takes (Some 5) sample_packed None e}"
    by (cases rule: live_step.cases) (use after in auto)
  have "set rs = {?r}" unfolding rs(4) using sample_takes [of 3] rec [of 3] by auto
  with sole_recipient [OF rs(3), of ?r] have 2: "o2 = Recipients [?r]" by (simp add: rs(1))
  from t(3) [unfolded rs(2)] obtain rs' where rs': "o3 = Recipients rs'" "set rs' = {recipient_of e | k e. [?k \<mapsto> ?e 5] k = Some e \<and> takes (Some 5) sample_packed None e}"
    by (cases rule: live_step.cases) auto
  have "set rs' = {}" unfolding rs'(2) using sample_takes [of 5] by auto
  moreover from t(4) have "o4 = Done" by (cases rule: live_step.cases)
  ultimately show ?thesis using o s1(1) 2 rs'(1) by (simp add: sample_out_def)
qed

theorem live_refines_witness:
  "\<exists>st sp. live_run (monitors_new 10) (sample_ops @ map CloseConn [1]) = Some (st, sample_out) \<and>
    live_trace (Map.empty, 10) (sample_ops @ map CloseConn [1]) sample_out sp"
  using live_refines [OF sample_valid, of 10] sample_trace by blast

text \<open>C8: no stored event is delivered twice to a subscription. From any point of a run, as long as a
  subscription is not opened anew, the stored events it is given have strictly increasing ids, whether it is
  pending, becomes live or is edited in between.\<close>

theorem delivered_once:
  assumes "valid_run (ops1 @ ops2)" "\<forall>op \<in> set ops2. opens_key op \<noteq> Some k"
  shows "\<exists>st outs1 outs2. live_run (monitors_new cap) (ops1 @ ops2) = Some (st, outs1 @ outs2) \<and> length outs1 = length ops1 \<and>
    length outs2 = length ops2 \<and> sorted_wrt (<) (deliveries k ops2 outs2)"
proof -
  obtain st outs where run: "live_run (monitors_new cap) (ops1 @ ops2) = Some (st, outs)"
      "live_trace (Map.empty, cap) (ops1 @ ops2) outs (view st, am_max_subs st)"
    using valid_run_simulates [OF assms(1)] by blast
  obtain outs1 outs2 sp where parts: "outs = outs1 @ outs2" "live_trace (Map.empty, cap) ops1 outs1 sp" "live_trace sp ops2 outs2 (view st, am_max_subs st)"
    using live_trace_append [OF run(2)] by blast
  have "spec_keys (fst sp)" using trace_keys [OF parts(2)] by (simp add: spec_keys_def)
  then have "sorted_wrt (<) (deliveries k ops2 outs2)" using trace_delivers [OF parts(3)] assms(2) by blast
  with run(1) parts show ?thesis using live_trace_length by blast
qed

theorem delivered_once_witness:
  "\<exists>st. live_run (monitors_new 10) ([AddSub sample_sub 0] @ (tl sample_ops @ map CloseConn [1])) = Some (st, sample_out) \<and>
    deliveries (1, str ''s'') (tl sample_ops @ map CloseConn [1]) (tl sample_out) = [5] \<and>
    sorted_wrt (<) (deliveries (1, str ''s'') (tl sample_ops @ map CloseConn [1]) (tl sample_out))"
proof -
  let ?ops = "[AddSub sample_sub 0] @ (tl sample_ops @ map CloseConn [1])"
  have ops: "?ops = sample_ops @ map CloseConn [1]" by (simp add: sample_ops_def)
  have k: "\<forall>op \<in> set (tl sample_ops @ map CloseConn [1]). opens_key op \<noteq> Some (1, str ''s'')"
    by (simp add: sample_ops_def opens_key_def opens_def)
  obtain st where run: "live_run (monitors_new 10) ?ops = Some (st, sample_out)"
    using valid_run_simulates [OF sample_valid, of 10] sample_trace unfolding ops by blast
  obtain outs1 outs2 where o: "sample_out = outs1 @ outs2" "length outs1 = length [AddSub sample_sub 0 :: unit live_op]"
      "sorted_wrt (<) (deliveries (1, str ''s'') (tl sample_ops @ map CloseConn [1]) outs2)"
    using delivered_once [OF sample_valid [folded ops] k, of 10] run by auto
  then have "outs2 = tl sample_out" by (cases outs1) (simp_all add: sample_out_def)
  moreover have "deliveries (1, str ''s'') (tl sample_ops @ map CloseConn [1]) (tl sample_out) = [5]"
    by (simp add: deliveries_def delivered_def sample_ops_def sample_out_def recipient_key_def)
  ultimately show ?thesis using run o(3) by simp
qed

text \<open>C9: closing the connections of every subscription that was opened leaves nothing behind: no connection, no
  occupied slot, no posting, key or bucket in either index, and no subscription counted as needing content.\<close>

theorem closing_empties:
  assumes "valid_run (ops @ map CloseConn cs)" "\<forall>op \<in> set ops. \<forall>sub. opens op = Some sub \<longrightarrow> sub_conn_id sub \<in> set cs"
  shows "\<exists>st outs. live_run (monitors_new cap) (ops @ map CloseConn cs) = Some (st, outs) \<and> monitors_is_empty st \<and>
    am_index st = index_new \<and> am_search st = index_new \<and> am_content st = 0 \<and> list_all (\<lambda>e. e = None) (am_slots st)"
proof -
  obtain st outs where run: "live_run (monitors_new cap) (ops @ map CloseConn cs) = Some (st, outs)"
      "live_trace (Map.empty, cap) (ops @ map CloseConn cs) outs (view st, am_max_subs st)" and m: "mon_ok st"
    using valid_run_simulates [OF assms(1)] by blast
  obtain outs1 outs2 sp where parts: "live_trace (Map.empty, cap) ops outs1 sp" "live_trace sp (map CloseConn cs) outs2 (view st, am_max_subs st)"
      "outs = outs1 @ outs2"
    using live_trace_append [OF run(2)] by blast
  have "view st k = None" for k
  proof (cases "fst k \<in> set cs")
    case True
    then show ?thesis using trace_closed [OF parts(2), of k] by simp
  next
    case False
    then have "\<not> (\<exists>op \<in> set ops. opens_key op = Some k)" using assms(2) by (auto simp: opens_key_def sub_key_def)
    then have "fst sp k = None" using trace_opened [OF parts(1), of k] by (cases "fst sp k") (auto simp: latest_def)
    with False show ?thesis using trace_closed [OF parts(2), of k] by simp
  qed
  with empty_view [OF m] run(1) show ?thesis by blast
qed

theorem closing_empties_witness:
  "\<exists>st outs. live_run (monitors_new 10) (sample_ops @ map CloseConn [1]) = Some (st, outs) \<and> monitors_is_empty st \<and>
    am_index st = index_new \<and> am_search st = index_new \<and> am_content st = 0 \<and> list_all (\<lambda>e. e = None) (am_slots st)"
  by (rule closing_empties [OF sample_valid]) (simp add: sample_ops_def opens_def sample_sub_def)

end
