(* ===== verification/Query_Hll.thy ===== *)
theory Query_Hll
  imports Query_Filter
begin

text \<open>
  The HyperLogLog registers of NIP-45 counts, \<open>wok-query/src/hll.rs\<close>: which filters get a sketch, how a public key
  enters it and how it is printed. A register holds the highest rank of the keys that fall on it, so a sketch depends only on the
  set of keys and the sketches of two relays merge by the maximum.
\<close>

unbundle bit_operations_syntax

section \<open>The code\<close>

record hyper_log_log =
  hll_offset :: nat
  hll_registers :: bytes

text \<open>\<open>try_into\<close> to an array of 32 bytes.\<close>

definition to_array_32 :: "bytes \<Rightarrow> bytes option" where
  "to_array_32 b = (if length b = 32 then Some b else None)"

definition str_from_utf8 :: "bytes \<Rightarrow> bytes option" where
  "str_from_utf8 b = (if utf8_valid b then Some b else None)"

definition res_ok :: "'e + 'a \<Rightarrow> 'a option" where
  "res_ok r = (case r of Inl _ \<Rightarrow> None | Inr x \<Rightarrow> Some x)"

definition hll_seed :: "ext \<Rightarrow> u8 \<Rightarrow> bytes \<Rightarrow> bytes option" where
  "hll_seed X tag val =
     (if tag = 0x65 \<or> tag = 0x70 then to_array_32 val
      else if length val = 64 then
        (case Option.bind (str_from_utf8 val) (\<lambda>hex. res_ok (from_lower_hex_exact X hex)) of
           Some b \<Rightarrow> to_array_32 b
         | None \<Rightarrow> Some (sha256 X val))
      else
        (case Option.bind (str_from_utf8 val) (\<lambda>address. res_ok (parse_a_tag X address)) of
           Some (_, pubkey, _) \<Rightarrow> Some pubkey
         | None \<Rightarrow> Some (sha256 X val)))"

definition offset_for_filter :: "ext \<Rightarrow> nostr_filter \<Rightarrow> nat option" where
  "offset_for_filter X f =
     (if f_and_tags f \<noteq> [] \<or> length (f_tags f) \<noteq> 1 then None
      else case hd (f_tags f) of (tag, vals) \<Rightarrow>
        if fs_size vals \<noteq> 1 then None
        else map_option (\<lambda>seed. unat (drop_bit 4 (seed ! 16)) + 8) (hll_seed X tag (fs_original vals 0)))"

definition for_filter :: "ext \<Rightarrow> nostr_filter \<Rightarrow> hyper_log_log option" where
  "for_filter X f = map_option (\<lambda>offset. \<lparr> hll_offset = offset, hll_registers = replicate 256 0 \<rparr>) (offset_for_filter X f)"

definition leading_zeros :: "u64 \<Rightarrow> nat" where
  "leading_zeros v = 64 - bit_length (unat v)"

definition add_pubkey :: "hyper_log_log \<Rightarrow> bytes \<Rightarrow> hyper_log_log" where
  "add_pubkey h pubkey =
     (if length pubkey < hll_offset h + 8 then h
      else let window = slice (hll_offset h) (hll_offset h + 8) pubkey;
               register = unat (window ! 0);
               v = foldl (\<lambda>v byte. push_bit 8 v OR ucast byte) (0 :: u64) (drop 1 window);
               rank = as_u8 ((leading_zeros v - 8) + 1)
           in h \<lparr> hll_registers := (hll_registers h)[register := max (hll_registers h ! register) rank] \<rparr>)"

definition encode_hex :: "hyper_log_log \<Rightarrow> bytes" where
  "encode_hex h = concat (map (\<lambda>r. [hex_char (unat (drop_bit 4 r)), hex_char (unat (r AND 0x0f))]) (hll_registers h))"

section \<open>Ranks\<close>

text \<open>The register and the rank of a key: one more than the leading zeros of the seven bytes after the register's.\<close>

definition key_register :: "nat \<Rightarrow> bytes \<Rightarrow> nat" where
  "key_register offset k = unat (k ! offset)"

definition key_rank :: "nat \<Rightarrow> bytes \<Rightarrow> nat" where
  "key_rank offset k = 57 - bit_length (be_nat (slice (offset + 1) (offset + 8) k))"

lemma bit_length_bound: "n < 2 ^ k \<Longrightarrow> bit_length n \<le> k"
proof (induction k arbitrary: n)
  case 0
  then show ?case by (simp add: bit_length.simps)
next
  case (Suc k)
  then show ?case using Suc.IH [of "n div 2"] by (subst bit_length.simps) auto
qed

lemma key_rank_bounds: "1 \<le> key_rank offset k" "key_rank offset k \<le> 57"
proof -
  have "length (slice (offset + 1) (offset + 8) k) \<le> 7" by (simp add: slice_def)
  then have "be_nat (slice (offset + 1) (offset + 8) k) < 2 ^ 56"
    using le_nat_bound [of "rev (slice (offset + 1) (offset + 8) k)"] power_increasing [of _ 7 "256 :: nat"]
    by (fastforce simp: be_nat_def)
  then show "1 \<le> key_rank offset k" "key_rank offset k \<le> 57"
    using bit_length_bound [of _ 56] by (fastforce simp: key_rank_def)+
qed

lemma be_bytes_fold: "foldl (\<lambda>v byte. push_bit 8 v OR ucast byte) (0 :: u64) bs = of_nat (be_nat bs)"
proof (induction bs rule: rev_induct)
  case (snoc b bs)
  have "unat b < 2 ^ 8" using unsigned_less [of b, where 'a = nat] by simp
  then show ?case using snoc append_bits [of b 8 "be_nat bs", where 'a = 64] by (simp add: be_nat_def add.commute mult.commute)
qed (simp add: be_nat_def)

lemma add_pubkey_registers:
  assumes "hll_offset h + 8 \<le> length k"
  shows "add_pubkey h k = h \<lparr> hll_registers := (hll_registers h)[key_register (hll_offset h) k :=
    max (hll_registers h ! key_register (hll_offset h) k) (as_u8 (key_rank (hll_offset h) k))] \<rparr>"
proof -
  define o1 where "o1 = hll_offset h"
  define w where "w = slice (o1 + 1) (o1 + 8) k"
  have sl: "slice o1 (o1 + 8) k = k ! o1 # w" using slice_Suc [of o1 "o1 + 8" k] assms by (simp add: w_def o1_def)
  have "be_nat w < 2 ^ 56"
    using le_nat_bound [of "rev w"] assms by (simp add: be_nat_def w_def length_slice o1_def)
  then have "unat (of_nat (be_nat w) :: u64) = be_nat w" "bit_length (be_nat w) \<le> 56"
    using bit_length_bound by (simp_all add: unsigned_of_nat take_bit_nat_eq_self)
  then have "leading_zeros (of_nat (be_nat w)) - 8 + 1 = key_rank o1 k"
    by (simp add: leading_zeros_def key_rank_def w_def)
  then show ?thesis
    using assms by (simp add: add_pubkey_def Let_def be_bytes_fold sl key_register_def flip: o1_def)
qed

lemma offset_bounds:
  assumes "for_filter X f = Some h"
  shows "8 \<le> hll_offset h" "hll_offset h \<le> 23" "hll_registers h = replicate 256 0"
proof -
  have "unat (drop_bit 4 b) \<le> 15" for b :: u8
    using unsigned_less [of b, where 'a = nat] by (subst unsigned_drop_bit_eq) (simp add: drop_bit_eq_div take_bit_nat_eq_self)
  then show "8 \<le> hll_offset h" "hll_offset h \<le> 23" "hll_registers h = replicate 256 0"
    using assms by (auto simp: for_filter_def offset_for_filter_def split: if_splits prod.splits)
qed

section \<open>Sketches\<close>

lemma unat_max: "unat (max a b) = max (unat a) (unat b)" for a b :: u8
  by (simp add: max_def word_le_nat_alt)

lemma sketch_registers:
  assumes "hll_offset h \<le> 24" "length (hll_registers h) = 256" "\<forall>k \<in> set ks. length k = 32"
  shows "hll_offset (foldl add_pubkey h ks) = hll_offset h \<and> length (hll_registers (foldl add_pubkey h ks)) = 256 \<and>
    (\<forall>j < 256. unat (hll_registers (foldl add_pubkey h ks) ! j) =
       Max (insert (unat (hll_registers h ! j)) (key_rank (hll_offset h) ` {k \<in> set ks. key_register (hll_offset h) k = j})))"
  using assms(3)
proof (induction ks rule: rev_induct)
  case Nil
  then show ?case using assms(2) by simp
next
  case (snoc k ks)
  define h' where "h' = foldl add_pubkey h ks"
  define o1 where "o1 = hll_offset h"
  note IH = snoc.IH [folded h'_def o1_def]
  have "hll_offset h' + 8 \<le> length k" using IH snoc.prems assms(1) by (simp add: o1_def)
  then have step: "foldl add_pubkey h (ks @ [k]) = h' \<lparr> hll_registers := (hll_registers h')[key_register o1 k :=
      max (hll_registers h' ! key_register o1 k) (as_u8 (key_rank o1 k))] \<rparr>"
    using add_pubkey_registers [of h' k] IH snoc.prems by (simp add: h'_def)
  have r: "unat (as_u8 (key_rank o1 k)) = key_rank o1 k" using key_rank_bounds [of o1 k] by (simp add: unat_as_u8)
  have split: "{k' \<in> set (ks @ [k]). key_register o1 k' = j} =
      (if key_register o1 k = j then insert k {k' \<in> set ks. key_register o1 k' = j} else {k' \<in> set ks. key_register o1 k' = j})" for j
    by auto
  show ?case
    using IH snoc.prems unfolding step o1_def [symmetric] split
    by (auto simp: nth_list_update unat_max r Max_insert2 insert_commute max.commute)
qed

lemma sketch_merges:
  assumes "hll_offset h \<le> 24" "hll_registers h = replicate 256 0" "\<forall>k \<in> set (ks @ ls). length k = 32"
  shows "hll_registers (foldl add_pubkey h (ks @ ls)) =
    map2 max (hll_registers (foldl add_pubkey h ks)) (hll_registers (foldl add_pubkey h ls))"
proof -
  define o1 where "o1 = hll_offset h"
  define on where "on xs j = key_rank o1 ` {k \<in> set xs. key_register o1 k = j}" for xs j
  have regs: "length (hll_registers (foldl add_pubkey h xs)) = 256"
      "\<And>j. j < 256 \<Longrightarrow> unat (hll_registers (foldl add_pubkey h xs) ! j) = Max (insert 0 (on xs j))"
    if "set xs \<subseteq> set (ks @ ls)" for xs
    using sketch_registers [OF assms(1), of xs] assms(2,3) that by (auto simp: on_def o1_def)
  have union: "insert 0 (on (ks @ ls) j) = insert 0 (on ks j) \<union> insert 0 (on ls j)" for j by (auto simp: on_def)
  have fin: "finite (on xs j)" for xs j by (simp add: on_def)
  have "Max (insert 0 (on (ks @ ls) j)) = max (Max (insert 0 (on ks j))) (Max (insert 0 (on ls j)))" for j
    unfolding union using fin by (subst Max_Un) auto
  then show ?thesis
    using regs [of ks] regs [of ls] regs [of "ks @ ls"] by (auto intro!: nth_equalityI simp: word_unat_eq_iff unat_max)
qed

text \<open>The printed form reads back as the registers.\<close>

lemma encode_hex_reads: "hex_pairs (encode_hex h) = Some (hll_registers h)"
proof -
  have nibbles: "unat (drop_bit 4 r) = unat r div 16" "unat (r AND 0x0f) = unat r mod 16" for r :: u8
  proof -
    show "unat (drop_bit 4 r) = unat r div 16"
      using unsigned_less [of r, where 'a = nat] by (subst unsigned_drop_bit_eq) (simp add: drop_bit_eq_div take_bit_nat_eq_self)
    have "r AND 0x0f = take_bit 4 r" by (simp add: take_bit_eq_mask mask_eq_exp_minus_1)
    then show "unat (r AND 0x0f) = unat r mod 16" by (simp only: unsigned_take_bit_eq) (simp add: take_bit_eq_mod)
  qed
  have "unat r div 16 < 16" for r :: u8 using unsigned_less [of r, where 'a = nat] by simp
  then have "hex_pairs (concat (map (\<lambda>r. [hex_char (unat (drop_bit 4 r)), hex_char (unat (r AND 0x0f))]) rs)) = Some rs" for rs
    by (induction rs) (simp_all add: nibbles hex_digit_hex_char)
  then show ?thesis by (simp add: encode_hex_def)
qed

text \<open>C18: a count sketch starts 8 to 23 bytes into the keys, so that every 32-byte key is counted; after any keys each
  register holds the highest rank (one more than the leading zero bits of the seven bytes after the register's byte) of the keys
  that fall on it, or 0; so the sketch depends only on the set of keys, and the sketch of two lists is the maximum of theirs,
  register by register.\<close>

theorem hll_of_set:
  assumes "for_filter X f = Some h" "\<forall>k \<in> set (ks @ ls). length k = 32"
  shows "8 \<le> hll_offset h \<and> hll_offset h \<le> 23 \<and>
    (\<forall>j < 256. unat (hll_registers (foldl add_pubkey h ks) ! j) =
       Max (insert 0 (key_rank (hll_offset h) ` {k \<in> set ks. key_register (hll_offset h) k = j}))) \<and>
    hll_registers (foldl add_pubkey h (ks @ ls)) =
      map2 max (hll_registers (foldl add_pubkey h ks)) (hll_registers (foldl add_pubkey h ls))"
proof -
  note h = offset_bounds [OF assms(1)]
  have "\<forall>j < 256. unat (hll_registers (foldl add_pubkey h ks) ! j) =
       Max (insert 0 (key_rank (hll_offset h) ` {k \<in> set ks. key_register (hll_offset h) k = j}))"
    using sketch_registers [of h ks] h assms(2) by auto
  then show ?thesis using h sketch_merges [of h ks ls] assms(2) by auto
qed

definition counted_filter :: nostr_filter where
  "counted_filter = empty_filter \<lparr> f_tags := [(0x74, \<lparr> fs_items = [str ''x''], fs_originals = [] \<rparr>)] \<rparr>"

definition new_sketch :: hyper_log_log where
  "new_sketch = \<lparr> hll_offset = 18, hll_registers = replicate 256 0 \<rparr>"

lemma counted_filter_sketch: "for_filter sample_ext counted_filter = Some new_sketch"
  by code_simp

theorem hll_of_set_witness:
  "for_filter sample_ext counted_filter = Some new_sketch \<and>
   hll_registers (foldl add_pubkey new_sketch ([replicate 32 0] @ [replicate 32 1])) =
     map2 max (hll_registers (foldl add_pubkey new_sketch [replicate 32 0])) (hll_registers (foldl add_pubkey new_sketch [replicate 32 1]))"
  using hll_of_set [OF counted_filter_sketch, of "[replicate 32 0]" "[replicate 32 1]"] counted_filter_sketch by simp

end
