(* ===== verification/Ws_Inflate.thy ===== *)
theory Ws_Inflate
  imports Wok_Prelude
begin

text \<open>
  The inflater of a WebSocket connection, \<open>InflateCtx\<close> and \<open>inflate_into\<close> of \<open>wok-ws/src/frame.rs\<close>, with the
  ring of recent output it keeps so that a released decompressor can be built again.

  The decompressor of the \<open>flate2\<close> crate is the parameter \<open>F\<close>: its state \<open>'d\<close>, a fresh one, its reset and one
  call, which takes the input left and the room for output and gives the result, how many bytes it read, the
  bytes it wrote and the state after. A loop that depends on it is a \<^theory_text>\<open>partial_function\<close> into options,
  so that not returning is \<^term>\<open>None\<close>. Messages are without interpolated values.
\<close>

section \<open>Errors and state\<close>

datatype ws_error = Io string | Eof | Timeout string | Protocol string | InvalidData string | MessageTooLarge
  | Inflate string | Deflate string

definition CLOSE_PROTOCOL_ERROR :: u16 where "CLOSE_PROTOCOL_ERROR = 1002"

definition CLOSE_INVALID_DATA :: u16 where "CLOSE_INVALID_DATA = 1007"

definition CLOSE_TOO_BIG :: u16 where "CLOSE_TOO_BIG = 1009"

definition close_code :: "ws_error \<Rightarrow> u16 option" where
  "close_code e = (case e of
     Protocol _ \<Rightarrow> Some CLOSE_PROTOCOL_ERROR
   | InvalidData _ \<Rightarrow> Some CLOSE_INVALID_DATA
   | Inflate _ \<Rightarrow> Some CLOSE_INVALID_DATA
   | MessageTooLarge \<Rightarrow> Some CLOSE_TOO_BIG
   | Io _ \<Rightarrow> None | Eof \<Rightarrow> None | Timeout _ \<Rightarrow> None | Deflate _ \<Rightarrow> None)"

definition WINDOW :: nat where "WINDOW = 2 ^ 15"

record 'd flate =
  fl_new :: 'd
  fl_reset :: "'d \<Rightarrow> 'd"
  fl_run :: "'d \<Rightarrow> bytes \<Rightarrow> nat \<Rightarrow> (string + unit) \<times> nat \<times> bytes \<times> 'd"

record 'd inflate_ctx =
  ic_takeover :: bool
  ic_inner :: "'d option"
  ic_history :: bytes
  ic_head :: nat
  ic_used :: bool

definition inflate_ctx_new :: "bool \<Rightarrow> 'd inflate_ctx" where
  "inflate_ctx_new takeover = \<lparr> ic_takeover = takeover, ic_inner = None, ic_history = [], ic_head = 0, ic_used = False \<rparr>"

section \<open>Operations\<close>

text \<open>The loop of \<open>inflate_into\<close>: \<open>consumed\<close> bytes of the input are read, \<open>out\<close> is written.\<close>

partial_function (option) inflate_loop ::
    "'d flate \<Rightarrow> nat \<Rightarrow> bytes \<Rightarrow> nat \<Rightarrow> 'd \<Rightarrow> bytes \<Rightarrow> ((ws_error + bytes) \<times> 'd) option" where
  [code]: "inflate_loop F max_out input consumed inner out =
     (let room = min (max_out + 1 - length out) (32 * 1024) in
      case fl_run F inner (drop consumed input) room of (result, n, written, inner') \<Rightarrow>
        (case result of
           Inl e \<Rightarrow> Some (Inl (Inflate e), inner')
         | Inr u \<Rightarrow>
             (let out' = out @ written in
              if max_out < length out' then Some (Inl MessageTooLarge, inner')
              else if n = 0 \<and> written = [] then Some (Inr out', inner')
              else inflate_loop F max_out input (consumed + n) inner' out')))"

definition inflate_into :: "'d flate \<Rightarrow> 'd \<Rightarrow> bytes \<Rightarrow> nat \<Rightarrow> ((ws_error + bytes) \<times> 'd) option" where
  "inflate_into F inner input max_out = inflate_loop F max_out input 0 inner []"

text \<open>The writing loop of \<open>remember\<close> once the ring is full.\<close>

partial_function (option) ring_write :: "bytes \<Rightarrow> nat \<Rightarrow> bytes \<Rightarrow> (bytes \<times> nat) option" where
  [code]: "ring_write history head data =
     (if data = [] then Some (history, head)
      else let n = min (WINDOW - head) (length data) in
        ring_write (take head history @ take n data @ drop (head + n) history) ((head + n) mod WINDOW) (drop n data))"

definition remember :: "'d inflate_ctx \<Rightarrow> bytes \<Rightarrow> 'd inflate_ctx option" where
  "remember ctx data0 =
     (let (data, history, head) = (if WINDOW \<le> length data0 then (drop (length data0 - WINDOW) data0, [], 0)
            else (data0, ic_history ctx, ic_head ctx));
          fill = min (WINDOW - length history) (length data)
      in case ring_write (history @ take fill data) head (drop fill data) of
           None \<Rightarrow> None
         | Some (history', head') \<Rightarrow> Some (ctx \<lparr> ic_history := history', ic_head := head' \<rparr>))"

text \<open>The stored block that replays the history: a header byte, the length and its complement, the bytes
  oldest first.\<close>

definition u16_to_le :: "u16 \<Rightarrow> bytes" where
  "u16_to_le w = rev (u16_to_be w)"

definition replay_block :: "'d inflate_ctx \<Rightarrow> bytes" where
  "replay_block ctx =
     (let len = (of_nat (length (ic_history ctx)) :: u16) in
      [0] @ u16_to_le len @ u16_to_le (not len) @ drop (ic_head ctx) (ic_history ctx) @ take (ic_head ctx) (ic_history ctx))"

definition inner_ready :: "'d flate \<Rightarrow> 'd inflate_ctx \<Rightarrow> (ws_error + 'd) option" where
  "inner_ready F ctx =
     (case ic_inner ctx of
        Some inner \<Rightarrow> Some (Inr (if \<not> ic_takeover ctx then fl_reset F inner else inner))
      | None \<Rightarrow>
          if ic_history ctx = [] then Some (Inr (fl_new F))
          else case inflate_into F (fl_new F) (replay_block ctx) WINDOW of
              None \<Rightarrow> None
            | Some (Inl e, _) \<Rightarrow> Some (Inl e)
            | Some (Inr replayed, inner) \<Rightarrow>
                if length replayed \<noteq> length (ic_history ctx) then Some (Inl (Inflate ''history replay'')) else Some (Inr inner))"

definition decompress :: "'d flate \<Rightarrow> 'd inflate_ctx \<Rightarrow> bytes \<Rightarrow> nat \<Rightarrow> ((ws_error + bytes) \<times> 'd inflate_ctx) option" where
  "decompress F ctx0 payload max_out =
     (let ctx = ctx0 \<lparr> ic_used := True \<rparr> in
      case inner_ready F ctx of
        None \<Rightarrow> None
      | Some (Inl e) \<Rightarrow> Some (Inl e, ctx)
      | Some (Inr inner) \<Rightarrow>
          (case inflate_into F inner (payload @ [0x00, 0x00, 0xFF, 0xFF]) max_out of
             None \<Rightarrow> None
           | Some (Inl e, inner') \<Rightarrow> Some (Inl e, ctx \<lparr> ic_inner := Some inner' \<rparr>)
           | Some (Inr out, inner') \<Rightarrow>
               let ctx' = ctx \<lparr> ic_inner := Some inner' \<rparr> in
               if ic_takeover ctx then map_option (\<lambda>c. (Inr out, c)) (remember ctx' out) else Some (Inr out, ctx')))"

definition release_idle :: "'d inflate_ctx \<Rightarrow> 'd inflate_ctx" where
  "release_idle ctx =
     (if \<not> ic_used ctx \<and> ic_inner ctx \<noteq> None
      then ctx \<lparr> ic_used := False, ic_inner := None, ic_head := 0,
        ic_history := drop (ic_head ctx) (ic_history ctx) @ take (ic_head ctx) (ic_history ctx) \<rparr>
      else ctx \<lparr> ic_used := False \<rparr>)"

section \<open>The ring\<close>

text \<open>The bytes of the ring oldest first, and its invariant: it starts at 0 until it is full.\<close>

definition last_n :: "nat \<Rightarrow> 'a list \<Rightarrow> 'a list" where
  "last_n n xs = drop (length xs - n) xs"

definition unrolled :: "bytes \<Rightarrow> nat \<Rightarrow> bytes" where
  "unrolled history head = drop head history @ take head history"

definition ring_ok :: "'d inflate_ctx \<Rightarrow> bool" where
  "ring_ok ctx \<longleftrightarrow> length (ic_history ctx) \<le> WINDOW \<and> ic_head ctx < WINDOW \<and>
     (length (ic_history ctx) < WINDOW \<longrightarrow> ic_head ctx = 0)"

abbreviation recent :: "'d inflate_ctx \<Rightarrow> bytes" where
  "recent ctx \<equiv> unrolled (ic_history ctx) (ic_head ctx)"

lemma WINDOW_pos [simp]: "0 < WINDOW"
  by (simp add: WINDOW_def)

lemma last_n_short: "length xs \<le> n \<Longrightarrow> last_n n xs = xs"
  by (simp add: last_n_def)

lemma last_n_append_long: "n \<le> length ys \<Longrightarrow> last_n n (xs @ ys) = last_n n ys"
  by (simp add: last_n_def)

lemma last_n_last_n: "last_n n (last_n n xs @ ys) = last_n n (xs @ ys)"
  by (cases "length xs \<le> n") (auto simp: last_n_def add.commute)

lemma ring_step:
  assumes "length h = W" "head < W" "n \<le> W - head" "n \<le> length data"
  defines "h' \<equiv> take head h @ take n data @ drop (head + n) h"
  shows "length h' = W" "unrolled h' ((head + n) mod W) = drop n (unrolled h head) @ take n data"
proof -
  show len: "length h' = W" using assms by (simp add: h'_def)
  show "unrolled h' ((head + n) mod W) = drop n (unrolled h head) @ take n data"
  proof (cases "head + n < W")
    case True
    then show ?thesis using assms by (simp add: unrolled_def add.commute)
  next
    case False
    then have "head + n = W" using assms(3) \<open>head < W\<close> by simp
    then show ?thesis using assms by (simp add: unrolled_def)
  qed
qed

lemma ring_write_full:
  assumes "length h = WINDOW" "head < WINDOW"
  shows "\<exists>h' head'. ring_write h head data = Some (h', head') \<and> length h' = WINDOW \<and> head' < WINDOW \<and>
    unrolled h' head' = last_n WINDOW (unrolled h head @ data)"
  using assms
proof (induction "length data" arbitrary: h head data rule: less_induct)
  case less
  show ?case
  proof (cases "data = []")
    case True
    then show ?thesis using less.prems by (subst ring_write.simps) (simp add: last_n_short unrolled_def)
  next
    case False
    define n where "n = min (WINDOW - head) (length data)"
    let ?h = "take head h @ take n data @ drop (head + n) h"
    let ?head = "(head + n) mod WINDOW"
    have n: "0 < n" "n \<le> WINDOW - head" "n \<le> length data" using False less.prems by (simp_all add: n_def)
    note step = ring_step [OF less.prems n(2,3)]
    have "length (drop n data) < length data" using n False by simp
    moreover have "?head < WINDOW" by simp
    ultimately obtain h' head' where IH: "ring_write ?h ?head (drop n data) = Some (h', head')"
      "length h' = WINDOW" "head' < WINDOW" "unrolled h' head' = last_n WINDOW (unrolled ?h ?head @ drop n data)"
      using less.hyps [OF _ step(1)] by blast
    have "ring_write h head data = Some (h', head')"
      using IH(1) False by (subst ring_write.simps) (simp add: n_def Let_def)
    moreover have "last_n WINDOW (unrolled ?h ?head @ drop n data) = last_n WINDOW (unrolled h head @ data)"
    proof -
      have l: "length (unrolled h head) = WINDOW" using less.prems by (simp add: unrolled_def)
      have "unrolled ?h ?head @ drop n data = drop n (unrolled h head @ data)"
        using l n(2) by (simp add: step(2))
      then show ?thesis using l n by (simp add: last_n_def)
    qed
    ultimately show ?thesis using IH by metis
  qed
qed

lemma remember_ring:
  assumes "ring_ok ctx"
  shows "\<exists>ctx'. remember ctx data = Some ctx' \<and> ring_ok ctx' \<and> recent ctx' = last_n WINDOW (recent ctx @ data) \<and>
    ic_takeover ctx' = ic_takeover ctx"
proof -
  define d h k where "d = (if WINDOW \<le> length data then drop (length data - WINDOW) data else data)"
    and "h = (if WINDOW \<le> length data then [] else ic_history ctx)"
    and "k = (if WINDOW \<le> length data then 0 else ic_head ctx)"
  define fill where "fill = min (WINDOW - length h) (length d)"
  let ?h = "h @ take fill d"
  have hk: "length h \<le> WINDOW" "k < WINDOW" "length h < WINDOW \<Longrightarrow> k = 0"
    using assms by (auto simp: h_def k_def ring_ok_def)
  have keep: "unrolled ?h k = unrolled h k @ take fill d"
    using hk by (cases "length h < WINDOW") (simp_all add: unrolled_def fill_def)
  have "\<exists>h' k'. ring_write ?h k (drop fill d) = Some (h', k') \<and> length h' \<le> WINDOW \<and> k' < WINDOW \<and>
      (length h' < WINDOW \<longrightarrow> k' = 0) \<and> unrolled h' k' = last_n WINDOW (unrolled h k @ d)"
  proof (cases "drop fill d = []")
    case True
    have "unrolled h k @ take fill d = unrolled h k @ d" using True by simp
    moreover have "length (unrolled h k @ d) \<le> WINDOW" using True hk(1) by (auto simp: unrolled_def fill_def min_def split: if_splits)
    ultimately have "ring_write ?h k (drop fill d) = Some (?h, k)" "unrolled ?h k = last_n WINDOW (unrolled h k @ d)"
      using True keep by (subst ring_write.simps, simp, simp add: last_n_short)
    then show ?thesis using hk True by (auto simp: fill_def min_def split: if_splits)
  next
    case False
    then have "length ?h = WINDOW" using hk(1) by (simp add: fill_def min_def split: if_splits)
    from ring_write_full [OF this hk(2), of "drop fill d"] show ?thesis by (auto simp: keep)
  qed
  then obtain h' k' where w: "ring_write ?h k (drop fill d) = Some (h', k')" "length h' \<le> WINDOW" "k' < WINDOW"
      "length h' < WINDOW \<longrightarrow> k' = 0" "unrolled h' k' = last_n WINDOW (unrolled h k @ d)"
    by blast
  have "remember ctx data = Some (ctx \<lparr> ic_history := h', ic_head := k' \<rparr>)"
    using w(1) by (cases "WINDOW \<le> length data") (simp_all add: remember_def d_def h_def k_def fill_def Let_def)
  moreover have "last_n WINDOW (unrolled h k @ d) = last_n WINDOW (recent ctx @ data)"
    by (cases "WINDOW \<le> length data") (simp_all add: h_def k_def d_def unrolled_def last_n_append_long, simp add: last_n_def)
  ultimately show ?thesis using w by (simp add: ring_ok_def)
qed

section \<open>The loop\<close>

text \<open>What a call of the decompressor promises: it reads at most its input and writes at most the room it was
  given.\<close>

definition fl_ok :: "'d flate \<Rightarrow> bool" where
  "fl_ok F \<longleftrightarrow> (\<forall>d input room result n written d'. fl_run F d input room = (result, n, written, d') \<longrightarrow>
     n \<le> length input \<and> length written \<le> room)"

lemma inflate_loop_returns:
  assumes "fl_ok F" "consumed \<le> length input" "length out \<le> max_out"
  shows "\<exists>r d. inflate_loop F max_out input consumed inner out = Some (r, d) \<and> (\<forall>out'. r = Inr out' \<longrightarrow> length out' \<le> max_out)"
  using assms(2,3)
proof (induction "(length input - consumed) + (max_out + 1 - length out)" arbitrary: consumed inner out rule: less_induct)
  case less
  define room where "room = min (max_out + 1 - length out) (32 * 1024)"
  obtain result n w d where run: "fl_run F inner (drop consumed input) room = (result, n, w, d)"
    by (metis surj_pair)
  with assms(1) have n: "n \<le> length input - consumed" unfolding fl_ok_def by (metis length_drop)
  note unf = inflate_loop.simps [of F max_out input consumed inner out, folded room_def, unfolded Let_def run prod.case]
  show ?case
  proof (cases "(\<exists>e. result = Inl e) \<or> max_out < length (out @ w) \<or> (n = 0 \<and> w = [])")
    case True
    then show ?thesis using less.prems(2) by (cases result) (auto simp: unf room_def [symmetric])
  next
    case False
    then obtain u where u: "result = Inr u" by (cases result) auto
    have m: "(length input - (consumed + n)) + (max_out + 1 - length (out @ w)) < (length input - consumed) + (max_out + 1 - length out)"
      using False n less.prems by (cases w) auto
    have "\<exists>r d'. inflate_loop F max_out input (consumed + n) d (out @ w) = Some (r, d') \<and> (\<forall>out'. r = Inr out' \<longrightarrow> length out' \<le> max_out)"
      using less.hyps [OF m] False n less.prems(1) by simp
    moreover have "inflate_loop F max_out input consumed inner out = inflate_loop F max_out input (consumed + n) d (out @ w)"
      using False u by (auto simp: unf room_def [symmetric])
    ultimately show ?thesis by simp
  qed
qed

lemma inflate_into_returns:
  assumes "fl_ok F"
  obtains r d where "inflate_into F inner input max_out = Some (r, d)" "\<And>out. r = Inr out \<Longrightarrow> length out \<le> max_out"
  using inflate_loop_returns [OF assms, of 0 input "[]" max_out inner] unfolding inflate_into_def by auto

lemma inner_ready_returns: "fl_ok F \<Longrightarrow> \<exists>r. inner_ready F ctx = Some r"
proof -
  assume "fl_ok F"
  then obtain r d where "inflate_into F (fl_new F) (replay_block ctx) WINDOW = Some (r, d)" by (rule inflate_into_returns)
  then show ?thesis by (cases r) (auto simp: inner_ready_def split: option.split)
qed

lemma decompress_returns:
  assumes "fl_ok F" "ring_ok ctx"
  obtains r ctx' where "decompress F ctx payload max_out = Some (r, ctx')" "ring_ok ctx'" "ic_takeover ctx' = ic_takeover ctx"
    "\<And>out. r = Inr out \<Longrightarrow> length out \<le> max_out"
    "recent ctx' = (case r of Inr out \<Rightarrow> if ic_takeover ctx then last_n WINDOW (recent ctx @ out) else recent ctx | Inl _ \<Rightarrow> recent ctx)"
proof -
  let ?ctx = "ctx \<lparr> ic_used := True \<rparr>"
  have ok: "ring_ok ?ctx" using assms(2) by (simp add: ring_ok_def)
  obtain q where q: "inner_ready F ?ctx = Some q" using inner_ready_returns [OF assms(1)] by metis
  show thesis
  proof (cases q)
    case (Inl e)
    then show thesis using that [of "Inl e" ?ctx] q ok by (simp add: decompress_def Let_def)
  next
    case (Inr inner)
    obtain r d where r: "inflate_into F inner (payload @ [0x00, 0x00, 0xFF, 0xFF]) max_out = Some (r, d)"
        "\<And>out. r = Inr out \<Longrightarrow> length out \<le> max_out"
      using inflate_into_returns [OF assms(1)] by metis
    let ?c = "?ctx \<lparr> ic_inner := Some d \<rparr>"
    have okc: "ring_ok ?c" using ok by (simp add: ring_ok_def)
    show thesis
    proof (cases r)
      case (Inl e)
      then show thesis using that [of "Inl e" ?c] q Inr r okc by (simp add: decompress_def Let_def)
    next
      case out: (Inr out)
      obtain c' where "remember ?c out = Some c'" "ring_ok c'" "recent c' = last_n WINDOW (recent ?c @ out)" "ic_takeover c' = ic_takeover ?c"
        using remember_ring [OF okc, of out] by blast
      then show thesis
        using that [of "Inr out" "if ic_takeover ctx then c' else ?c"] q Inr r okc out by (simp add: decompress_def Let_def split: if_splits)
    qed
  qed
qed

lemma release_idle_ring:
  assumes "ring_ok ctx"
  shows "ring_ok (release_idle ctx)" "recent (release_idle ctx) = recent ctx" "ic_takeover (release_idle ctx) = ic_takeover ctx"
  using assms by (auto simp: release_idle_def ring_ok_def unrolled_def)

section \<open>Properties\<close>

text \<open>A connection inflates messages, each with a bound on its size, and is released when idle. The run keeps
  the output of each message that inflated.\<close>

datatype inflate_op = Deflated bytes nat | Idle

fun inflate_run :: "'d flate \<Rightarrow> 'd inflate_ctx \<Rightarrow> inflate_op list \<Rightarrow> (bytes list \<times> 'd inflate_ctx) option" where
  "inflate_run F ctx [] = Some ([], ctx)"
| "inflate_run F ctx (Idle # ops) = inflate_run F (release_idle ctx) ops"
| "inflate_run F ctx (Deflated payload max_out # ops) =
     (case decompress F ctx payload max_out of
        None \<Rightarrow> None
      | Some (Inl e, ctx') \<Rightarrow> inflate_run F ctx' ops
      | Some (Inr out, ctx') \<Rightarrow> map_option (\<lambda>(outs, c). (out # outs, c)) (inflate_run F ctx' ops))"

lemma inflate_run_recent:
  assumes "fl_ok F"
  shows "ring_ok ctx \<Longrightarrow> ic_takeover ctx \<Longrightarrow> recent ctx = last_n WINDOW past \<Longrightarrow>
    \<exists>outs ctx'. inflate_run F ctx ops = Some (outs, ctx') \<and> ring_ok ctx' \<and> recent ctx' = last_n WINDOW (past @ concat outs)"
proof (induction ops arbitrary: ctx past)
  case Nil
  then show ?case by simp
next
  case (Cons op ops)
  show ?case
  proof (cases op)
    case Idle
    then show ?thesis using Cons release_idle_ring [of ctx] by simp
  next
    case (Deflated payload max_out)
    obtain r c where r: "decompress F ctx payload max_out = Some (r, c)" "ring_ok c" "ic_takeover c = ic_takeover ctx"
      and rec: "recent c = (case r of Inr out \<Rightarrow> if ic_takeover ctx then last_n WINDOW (recent ctx @ out) else recent ctx | Inl _ \<Rightarrow> recent ctx)"
      by (rule decompress_returns [OF assms Cons.prems(1)])
    have t: "ic_takeover c" using r(3) Cons.prems(2) by simp
    show ?thesis
    proof (cases r)
      case (Inl e)
      then show ?thesis using Cons.IH [OF r(2) t, of past] rec Cons.prems(3) r(1) by (simp add: Deflated)
    next
      case (Inr out)
      then have "recent c = last_n WINDOW (past @ out)" using rec Cons.prems(2,3) by (simp add: last_n_last_n)
      from Cons.IH [OF r(2) t this] obtain outs ctx' where "inflate_run F c ops = Some (outs, ctx')" "ring_ok ctx'"
        "recent ctx' = last_n WINDOW ((past @ out) @ concat outs)" by blast
      then show ?thesis using r(1) Inr by (simp add: Deflated)
    qed
  qed
qed

text \<open>C15: inflating returns. Provided a call of the decompressor reads no more than its input and writes no
  more than the room it is given, inflating a message ends, with an error or with at most the allowed number
  of bytes, however the decompressor behaves otherwise.\<close>

theorem decompress_terminates:
  assumes "fl_ok F" "ring_ok ctx"
  shows "\<exists>r ctx'. decompress F ctx payload max_out = Some (r, ctx') \<and> ring_ok ctx' \<and> (\<forall>out. r = Inr out \<longrightarrow> length out \<le> max_out)"
  using decompress_returns [OF assms] by metis

text \<open>C14: on a connection with context takeover, whatever messages arrive and whenever it is released while
  idle, the history kept for a new decompressor is exactly the last 32768 bytes of everything inflated so far,
  oldest first, and inflating always returns.\<close>

theorem history_is_window:
  assumes "fl_ok F"
  shows "\<exists>outs ctx. inflate_run F (inflate_ctx_new True) ops = Some (outs, ctx) \<and>
    drop (ic_head ctx) (ic_history ctx) @ take (ic_head ctx) (ic_history ctx) = last_n 32768 (concat outs)"
proof -
  have "ring_ok (inflate_ctx_new True)" "ic_takeover (inflate_ctx_new True)" "recent (inflate_ctx_new True) = last_n WINDOW []"
    by (simp_all add: inflate_ctx_new_def ring_ok_def unrolled_def last_n_def)
  from inflate_run_recent [OF assms this] show ?thesis by (force simp: unrolled_def WINDOW_def)
qed

text \<open>A decompressor that copies its input, for examples.\<close>

definition copy_flate :: "unit flate" where
  "copy_flate = \<lparr> fl_new = (), fl_reset = id, fl_run = (\<lambda>d input room. (Inr (), min room (length input), take room input, d)) \<rparr>"

lemma copy_flate_ok: "fl_ok copy_flate"
  by (auto simp: fl_ok_def copy_flate_def)

theorem decompress_terminates_witness:
  "\<exists>r ctx'. decompress copy_flate (inflate_ctx_new False) [1, 2] 9 = Some (r, ctx') \<and> ring_ok ctx'"
proof -
  have "ring_ok (inflate_ctx_new False)" by (simp add: inflate_ctx_new_def ring_ok_def)
  from decompress_terminates [OF copy_flate_ok this] show ?thesis by blast
qed

theorem history_is_window_witness:
  "\<exists>outs ctx. inflate_run copy_flate (inflate_ctx_new True) [Deflated [1, 2] 9, Idle, Deflated [3] 9] = Some (outs, ctx) \<and>
    drop (ic_head ctx) (ic_history ctx) @ take (ic_head ctx) (ic_history ctx) = last_n 32768 (concat outs)"
  using history_is_window [OF copy_flate_ok] by blast

end
