(* ===== verification/Ws_Frame.thy ===== *)
theory Ws_Frame
  imports Ws_Inflate Rust_Str Wok_Collections
begin

unbundle bit_operations_syntax

text \<open>
  The WebSocket frame codec of \<open>wok-ws/src/frame.rs\<close>: masking, the incremental parser with its message
  assembler, and the encoder. The parser calls its inflater through \<open>I\<close>, which gives the outcome of inflating
  a payload under a bound and the inflater after; the encoder calls its deflater through \<open>D\<close> likewise. The
  capacity bookkeeping of the read buffer is left out. An error fails the connection, so the parser after an
  error is left out too.
\<close>

section \<open>Masking\<close>

definition OP_CONT :: u8 where "OP_CONT = 0x0"

definition OP_TEXT :: u8 where "OP_TEXT = 0x1"

definition OP_BINARY :: u8 where "OP_BINARY = 0x2"

definition OP_CLOSE :: u8 where "OP_CLOSE = 0x8"

definition OP_PING :: u8 where "OP_PING = 0x9"

definition OP_PONG :: u8 where "OP_PONG = 0xA"

lemmas op_defs = OP_CONT_def OP_TEXT_def OP_BINARY_def OP_CLOSE_def OP_PING_def OP_PONG_def

fun apply_mask :: "bytes \<Rightarrow> bytes \<Rightarrow> bytes" where
  "apply_mask (a # b # c # d # rest) m =
     (a XOR m ! 0) # (b XOR m ! 1) # (c XOR m ! 2) # (d XOR m ! 3) # apply_mask rest m"
| "apply_mask remainder m = map2 (XOR) remainder m"

section \<open>Parser\<close>

datatype message_kind = TextMessage | BinaryMessage

datatype ws_event = WsMessage message_kind bytes | Ping bytes | Pong bytes | Close bytes

datatype role = Server | Client

record raw_frame =
  rf_fin :: bool
  rf_rsv1 :: bool
  rf_opcode :: u8
  rf_payload :: bytes

record 'i ws_parser =
  wp_max_message :: nat
  wp_buf :: bytes
  wp_frag_opcode :: "u8 option"
  wp_frag_rsv1 :: bool
  wp_frag :: bytes
  wp_completed :: u64
  wp_inflater :: "'i option"
  wp_role :: role

definition parser_with_role :: "nat \<Rightarrow> 'i option \<Rightarrow> role \<Rightarrow> 'i ws_parser" where
  "parser_with_role max_message inflater r =
     \<lparr> wp_max_message = max_message, wp_buf = [], wp_frag_opcode = None, wp_frag_rsv1 = False, wp_frag = [],
       wp_completed = 0, wp_inflater = inflater, wp_role = r \<rparr>"

definition assembly_pending :: "'i ws_parser \<Rightarrow> bool" where
  "assembly_pending p \<longleftrightarrow> wp_buf p \<noteq> [] \<or> wp_frag_opcode p \<noteq> None"

text \<open>The payload length and the offset after it; \<^term>\<open>None\<close> while the length is incomplete.\<close>

definition frame_length :: "bytes \<Rightarrow> ws_error + (nat \<times> nat) option" where
  "frame_length b =
     (let len = unat (b ! 1 AND 0x7F) in
      if len = 126 then (if length b < 2 + 2 then Inr None else Inr (Some (be_nat (slice 2 4 b), 4)))
      else if len = 127 then
        (if length b < 2 + 8 then Inr None
         else let len = be_nat (slice 2 10 b) in
           if 2 ^ 63 \<le> len then Inl (Protocol ''2^63 length'') else Inr (Some (len, 10)))
      else Inr (Some (len, 2)))"

definition check_header :: "'i ws_parser \<Rightarrow> u8 \<Rightarrow> u8 \<Rightarrow> ws_error + unit" where
  "check_header p b0 b1 =
     (let rsv1 = (b0 AND 0x40 \<noteq> 0); opcode = b0 AND 0x0F; masked = (b1 AND 0x80 \<noteq> 0) in
      if b0 AND 0x20 \<noteq> 0 \<or> b0 AND 0x10 \<noteq> 0 then Inl (Protocol ''RSV2/RSV3 set'')
      else if rsv1 \<and> wp_inflater p = None then Inl (Protocol ''RSV1 set without negotiated extension'')
      else if rsv1 \<and> (opcode = OP_CONT \<or> 0x8 \<le> opcode) then Inl (Protocol ''RSV1 set on a control or continuation frame'')
      else case wp_role p of
          Server \<Rightarrow> if \<not> masked then Inl (Protocol ''client frame not masked'') else Inr ()
        | Client \<Rightarrow> if masked then Inl (Protocol ''server frame masked'') else Inr ())"

text \<open>From the checks on a control frame to the end; the header is complete and its length is read.\<close>

definition frame_body :: "'i ws_parser \<Rightarrow> nat \<Rightarrow> nat \<Rightarrow> ws_error + (raw_frame \<times> 'i ws_parser) option" where
  "frame_body p len off0 =
     (let b = wp_buf p; b0 = b ! 0; fin = (b0 AND 0x80 \<noteq> 0); rsv1 = (b0 AND 0x40 \<noteq> 0); opcode = b0 AND 0x0F;
          masked = (b ! 1 AND 0x80 \<noteq> 0); off = (if masked then off0 + 4 else off0) in
      if 0x8 \<le> opcode \<and> \<not> fin then Inl (Protocol ''fragmented control frame'')
      else if 0x8 \<le> opcode \<and> 125 < len then Inl (Protocol ''control frame too large'')
      else if wp_max_message p < len then Inl MessageTooLarge
      else if length b < off + len then Inr None
      else
        let body = slice off (off + len) b;
            payload = (if masked then apply_mask body (slice off0 (off0 + 4) b) else body) in
        Inr (Some (\<lparr> rf_fin = fin, rf_rsv1 = rsv1, rf_opcode = opcode, rf_payload = payload \<rparr>,
          p \<lparr> wp_buf := drop (off + len) b \<rparr>)))"

definition try_parse_frame :: "'i ws_parser \<Rightarrow> ws_error + (raw_frame \<times> 'i ws_parser) option" where
  "try_parse_frame p =
     (if length (wp_buf p) < 2 then Inr None
      else
        rbind (check_header p (wp_buf p ! 0) (wp_buf p ! 1)) (\<lambda>_.
        rbind (frame_length (wp_buf p)) (\<lambda>r. case r of None \<Rightarrow> Inr None | Some (len, off) \<Rightarrow> frame_body p len off)))"

definition close_code_allowed :: "u16 \<Rightarrow> bool" where
  "close_code_allowed code \<longleftrightarrow> (1000 \<le> code \<and> code \<le> 1003) \<or> (1007 \<le> code \<and> code \<le> 1014) \<or> (3000 \<le> code \<and> code \<le> 4999)"

definition check_close :: "bytes \<Rightarrow> ws_error + unit" where
  "check_close payload = (case payload of
     [] \<Rightarrow> Inr ()
   | [_] \<Rightarrow> Inl (Protocol ''1-byte close body'')
   | hi # lo # reason \<Rightarrow>
       if \<not> close_code_allowed (of_nat (be_nat [hi, lo])) then Inl (Protocol ''close status code not allowed'')
       else if \<not> utf8_valid reason then Inl (InvalidData ''close reason not UTF-8'')
       else Inr ())"

definition MAX_INFLATE_RATIO :: nat where "MAX_INFLATE_RATIO = 32"

definition INFLATE_ENVELOPE :: nat where "INFLATE_ENVELOPE = 64 * 1024"

definition inflate_allowance :: "nat \<Rightarrow> nat" where
  "inflate_allowance max_message = max_message div 2 + INFLATE_ENVELOPE"

definition inflate_limit :: "nat \<Rightarrow> nat \<Rightarrow> nat" where
  "inflate_limit wire_len max_message =
     min (max (min (wire_len * MAX_INFLATE_RATIO) usize_max) (inflate_allowance max_message)) max_message"

type_synonym 'i inflating = "'i \<Rightarrow> bytes \<Rightarrow> nat \<Rightarrow> (ws_error + bytes) \<times> 'i"

definition maybe_inflate :: "'i inflating \<Rightarrow> 'i ws_parser \<Rightarrow> bool \<Rightarrow> bytes \<Rightarrow> ws_error + bytes \<times> 'i ws_parser" where
  "maybe_inflate I p rsv1 payload =
     (if rsv1 then
        let limit = inflate_limit (length payload) (wp_max_message p) in
        (case wp_inflater p of
           Some d \<Rightarrow> (case I d payload limit of
               (Inl e, _) \<Rightarrow> Inl e
             | (Inr out, d') \<Rightarrow> Inr (out, p \<lparr> wp_inflater := Some d' \<rparr>))
         | None \<Rightarrow> Inl (Protocol ''RSV1 without extension''))
      else Inr (payload, p))"

definition kind_of :: "u8 \<Rightarrow> message_kind" where
  "kind_of opcode = (if opcode = OP_TEXT then TextMessage else BinaryMessage)"

definition handle_frame :: "'i inflating \<Rightarrow> 'i ws_parser \<Rightarrow> raw_frame \<Rightarrow> ws_error + ws_event option \<times> 'i ws_parser" where
  "handle_frame I p frame =
     (let opcode = rf_opcode frame; payload = rf_payload frame in
      if opcode = OP_PING then Inr (Some (Ping payload), p)
      else if opcode = OP_PONG then Inr (Some (Pong payload), p)
      else if opcode = OP_CLOSE then rbind (check_close payload) (\<lambda>_. Inr (Some (Close payload), p))
      else if opcode = OP_TEXT \<or> opcode = OP_BINARY then
        (if wp_frag_opcode p \<noteq> None then Inl (Protocol ''new message during fragmented message'')
         else if rf_fin frame then
           rbind (maybe_inflate I p (rf_rsv1 frame) payload) (\<lambda>(out, p'). Inr (Some (WsMessage (kind_of opcode) out), p'))
         else if wp_max_message p < length payload then Inl MessageTooLarge
         else Inr (None, p \<lparr> wp_frag_opcode := Some opcode, wp_frag_rsv1 := rf_rsv1 frame, wp_frag := payload \<rparr>))
      else if opcode = OP_CONT then
        (case wp_frag_opcode p of
           None \<Rightarrow> Inl (Protocol ''continuation without message'')
         | Some frag_opcode \<Rightarrow>
             let frag = wp_frag p @ payload in
             if wp_max_message p < length frag then Inl MessageTooLarge
             else if rf_fin frame then
               rbind (maybe_inflate I (p \<lparr> wp_frag_opcode := None, wp_frag := [] \<rparr>) (wp_frag_rsv1 p) frag)
                 (\<lambda>(out, p'). Inr (Some (WsMessage (kind_of frag_opcode) out), p'))
             else Inr (None, p \<lparr> wp_frag := frag \<rparr>))
      else Inl (Protocol ''unknown opcode''))"

lemma check_header_shape: "check_header p b0 b1 = Inr u \<Longrightarrow> b1 AND 0x80 \<noteq> 0 \<longleftrightarrow> wp_role p = Server"
  by (cases "wp_role p") (auto simp: check_header_def Let_def split: if_splits)

lemma frame_length_off: "frame_length b = Inr (Some (len, off)) \<Longrightarrow> off = 2 \<or> off = 4 \<or> off = 10"
  by (auto simp: frame_length_def Let_def split: if_splits)

lemma frame_body_Some:
  "frame_body p len off = Inr (Some (fr, p')) \<Longrightarrow>
    \<exists>n. off \<le> n \<and> n \<le> length (wp_buf p) \<and> p' = p \<lparr> wp_buf := drop n (wp_buf p) \<rparr>"
  unfolding frame_body_def Let_def
  by (simp split: if_split_asm) (metis le_add1 nat_le_linear not_less trans_le_add1)+

lemma try_parse_frame_Some:
  assumes "try_parse_frame p = Inr (Some (fr, p'))"
  shows "\<exists>n. 2 \<le> n \<and> n \<le> length (wp_buf p) \<and> p' = p \<lparr> wp_buf := drop n (wp_buf p) \<rparr>"
proof -
  obtain len off where fl: "frame_length (wp_buf p) = Inr (Some (len, off))" "frame_body p len off = Inr (Some (fr, p'))"
    using assms by (auto simp: try_parse_frame_def rbind_eq_Inr split: if_split_asm option.splits)
  have "2 \<le> off" using frame_length_off [OF fl(1)] by auto
  moreover obtain n where "off \<le> n" "n \<le> length (wp_buf p)" "p' = p \<lparr> wp_buf := drop n (wp_buf p) \<rparr>"
    using frame_body_Some [OF fl(2)] by blast
  ultimately show ?thesis by (intro exI [of _ n]) simp
qed

lemma maybe_inflate_keeps:
  assumes "maybe_inflate I p rsv1 payload = Inr (out, p')"
  shows "\<exists>i. p' = p \<lparr> wp_inflater := i \<rparr>"
proof (cases rsv1)
  case True
  then show ?thesis
    using assms by (fastforce simp: maybe_inflate_def Let_def split: option.splits sum.splits prod.splits)
next
  case False
  then show ?thesis using assms by (intro exI [of _ "wp_inflater p"]) (simp add: maybe_inflate_def)
qed

lemma handle_frame_buf: "handle_frame I p frame = Inr (ev, p') \<Longrightarrow> wp_buf p' = wp_buf p \<and> wp_max_message p' = wp_max_message p \<and> wp_role p' = wp_role p"
  by (auto simp: handle_frame_def Let_def rbind_eq_Inr dest!: maybe_inflate_keeps split: if_splits option.splits)

text \<open>The loop over the buffered frames.\<close>

definition decoded_after :: "nat \<Rightarrow> ws_event option \<Rightarrow> nat" where
  "decoded_after decoded event =
     (case event of Some (WsMessage _ payload) \<Rightarrow> usize_sat_add decoded (length payload) | _ \<Rightarrow> decoded)"

definition count_completed :: "'i ws_parser \<Rightarrow> 'i ws_parser" where
  "count_completed p = (if wp_frag_opcode p = None then p \<lparr> wp_completed := wp_completed p + 1 \<rparr> else p)"

function drain_events_into ::
    "'i inflating \<Rightarrow> 'i ws_parser \<Rightarrow> ws_event list \<Rightarrow> nat \<Rightarrow> nat \<Rightarrow> ws_error + ws_event list \<times> 'i ws_parser" where
  "drain_events_into I p events decoded budget =
     rbind (try_parse_frame p) (\<lambda>r. case r of
       None \<Rightarrow> Inr (events, p)
     | Some (frame, p1) \<Rightarrow>
         rbind (handle_frame I p1 frame) (\<lambda>(event, p2).
         let p3 = count_completed p2;
             events' = (case event of Some ev \<Rightarrow> events @ [ev] | None \<Rightarrow> events);
             decoded' = decoded_after decoded event in
         if budget \<le> decoded' then Inr (events', p3) else drain_events_into I p3 events' decoded' budget))"
  by pat_completeness auto
termination
proof (relation "measure (\<lambda>(I, p, events, decoded, budget). length (wp_buf p))")
  fix I :: "'i inflating" and p :: "'i ws_parser" and x a frame p1 y event p2 p3 events' decoded'
  assume "try_parse_frame p = Inr x" "x = Some a" "(frame, p1) = a" "handle_frame I p1 frame = Inr y" "(event, p2) = y"
    "p3 = count_completed p2"
  then show "((I, p3, events', decoded', budget), I, p, events, decoded, budget) \<in> measure (\<lambda>(I, p, events, decoded, budget). length (wp_buf p))" for events decoded budget
    using try_parse_frame_Some [of p frame p1] handle_frame_buf [of I p1 frame event p2] by (auto simp: count_completed_def)
qed simp

declare drain_events_into.simps [simp del]

definition feed :: "'i inflating \<Rightarrow> 'i ws_parser \<Rightarrow> bytes \<Rightarrow> ws_error + ws_event list \<times> 'i ws_parser" where
  "feed I p data = drain_events_into I (p \<lparr> wp_buf := wp_buf p @ data \<rparr>) [] 0 usize_max"

section \<open>Encoder\<close>

record 'c ws_encoder =
  we_deflater :: "'c option"
  we_role :: role
  we_mask_counter :: u32

definition encoder_with_role :: "'c option \<Rightarrow> role \<Rightarrow> 'c ws_encoder" where
  "encoder_with_role deflater r = \<lparr> we_deflater = deflater, we_role = r, we_mask_counter = 0x9e3779b9 \<rparr>"

definition xorshift :: "u32 \<Rightarrow> u32" where
  "xorshift x0 =
     (let x1 = x0 XOR push_bit 13 x0; x2 = x1 XOR drop_bit 17 x1 in x2 XOR push_bit 5 x2)"

definition length_bytes :: "u8 \<Rightarrow> nat \<Rightarrow> bytes" where
  "length_bytes mask_bit len =
     (if len < 126 then [mask_bit OR of_nat len]
      else if len \<le> 0xFFFF then (mask_bit OR 126) # u16_to_be (of_nat len)
      else (mask_bit OR 127) # u64_to_be (of_nat len))"

definition encode_frame :: "'c ws_encoder \<Rightarrow> bool \<Rightarrow> bool \<Rightarrow> u8 \<Rightarrow> bytes \<Rightarrow> bytes \<Rightarrow> bytes \<times> 'c ws_encoder" where
  "encode_frame e fin rsv1 opcode payload out =
     (let b0 = (if fin then 0x80 else 0) OR (if rsv1 then 0x40 else 0) OR opcode;
          mask_bit = (case we_role e of Server \<Rightarrow> 0 | Client \<Rightarrow> 0x80);
          out1 = out @ [b0] @ length_bytes mask_bit (length payload) in
      if we_role e = Client then
        let x = xorshift (we_mask_counter e); mask = u32_to_be x in
        (out1 @ mask @ apply_mask payload mask, e \<lparr> we_mask_counter := x \<rparr>)
      else (out1 @ payload, e))"

type_synonym 'c deflating = "'c \<Rightarrow> bytes \<Rightarrow> (ws_error + bytes) \<times> 'c"

definition opcode_of :: "message_kind \<Rightarrow> u8" where
  "opcode_of kind = (case kind of TextMessage \<Rightarrow> OP_TEXT | BinaryMessage \<Rightarrow> OP_BINARY)"

definition encode_message_into ::
    "'c deflating \<Rightarrow> 'c ws_encoder \<Rightarrow> message_kind \<Rightarrow> bytes \<Rightarrow> bytes \<Rightarrow> (ws_error + bytes) \<times> 'c ws_encoder" where
  "encode_message_into D e kind payload out =
     (case we_deflater e of
        Some d \<Rightarrow> (case D d payload of
            (Inl err, d') \<Rightarrow> (Inl err, e \<lparr> we_deflater := Some d' \<rparr>)
          | (Inr compressed, d') \<Rightarrow>
              (case encode_frame (e \<lparr> we_deflater := Some d' \<rparr>) True True (opcode_of kind) compressed out of
                 (out', e') \<Rightarrow> (Inr out', e')))
      | None \<Rightarrow> (case encode_frame e True False (opcode_of kind) payload out of (out', e') \<Rightarrow> (Inr out', e')))"

definition encode_message :: "'c deflating \<Rightarrow> 'c ws_encoder \<Rightarrow> message_kind \<Rightarrow> bytes \<Rightarrow> (ws_error + bytes) \<times> 'c ws_encoder" where
  "encode_message D e kind payload = encode_message_into D e kind payload []"

definition encode_control :: "'c ws_encoder \<Rightarrow> u8 \<Rightarrow> bytes \<Rightarrow> bytes \<times> 'c ws_encoder" where
  "encode_control e opcode payload = encode_frame e True False opcode payload []"

definition encode_close :: "'c ws_encoder \<Rightarrow> u16 \<Rightarrow> bytes \<times> 'c ws_encoder" where
  "encode_close e code = encode_control e OP_CLOSE (u16_to_be code)"

end
