(* ===== verification/Ws_Codec.thy ===== *)
theory Ws_Codec
  imports Ws_Frame
begin

unbundle bit_operations_syntax

text \<open>
  The frame codec: a frame that is encoded parses back, messages stay within their bound, and where the bytes
  of a connection are cut makes no difference.
\<close>

section \<open>Masking twice\<close>

lemma map2_xor_xor: "map2 (XOR) (map2 (XOR) xs m) m = take (length m) xs" for xs m :: bytes
  by (induction xs m rule: list_induct2') (simp_all add: xor.assoc)

lemma apply_mask_involution:
  assumes "length m = 4"
  shows "apply_mask (apply_mask xs m) m = xs"
proof -
  obtain a b c d where m: "m = [a, b, c, d]"
    using assms by (auto simp: numeral_eq_Suc length_Suc_conv)
  show ?thesis unfolding m by (induction xs "[a, b, c, d]" rule: apply_mask.induct) (simp_all add: xor.assoc)
qed

lemma length_apply_mask [simp]: "length m = 4 \<Longrightarrow> length (apply_mask xs m) = length xs"
  by (induction xs m rule: apply_mask.induct) simp_all

section \<open>Parsing what was encoded\<close>

lemma header_bits:
  fixes opcode :: u8 and fin rsv1 :: bool
  assumes "opcode < 16"
  defines "b0 \<equiv> (if fin then 0x80 else 0) OR (if rsv1 then 0x40 else 0) OR opcode"
  shows "b0 AND 0x80 \<noteq> 0 \<longleftrightarrow> fin" "b0 AND 0x40 \<noteq> 0 \<longleftrightarrow> rsv1" "b0 AND 0x20 = 0" "b0 AND 0x10 = 0" "b0 AND 0x0F = opcode"
proof -
  have "unat opcode < 16" using assms(1) by (simp add: word_less_nat_alt)
  moreover have "n < 16 \<Longrightarrow> n \<in> {0, 1, 2, 3, 4, 5, 6, 7, 8, 9, 10, 11, 12, 13, 14, 15}" for n :: nat
    unfolding insert_iff empty_iff by presburger
  ultimately have "unat opcode \<in> {0, 1, 2, 3, 4, 5, 6, 7, 8, 9, 10, 11, 12, 13, 14, 15}" by blast
  then have "opcode \<in> {0, 1, 2, 3, 4, 5, 6, 7, 8, 9, 10, 11, 12, 13, 14, 15}" by (auto simp: word_unat_eq_iff)
  then show "b0 AND 0x80 \<noteq> 0 \<longleftrightarrow> fin" "b0 AND 0x40 \<noteq> 0 \<longleftrightarrow> rsv1" "b0 AND 0x20 = 0" "b0 AND 0x10 = 0" "b0 AND 0x0F = opcode"
    unfolding b0_def by (cases fin; cases rsv1; auto)+
qed

lemma length_byte_bits:
  fixes w :: u8
  assumes "unat w < 128"
  shows "(0x80 OR w) AND 0x7F = w" "(0x80 OR w) AND 0x80 \<noteq> 0" "w AND 0x80 = 0" "w AND 0x7F = w"
proof -
  have "take_bit 7 w = w"
    unfolding word_unat_eq_iff unsigned_take_bit_eq using assms by (simp add: take_bit_eq_mod)
  then have w: "w AND 0x7F = w" by (simp add: take_bit_eq_mask mask_eq_exp_minus_1)
  have "w AND 0x80 = (w AND 0x7F) AND 0x80" by (simp only: w)
  also have "\<dots> = w AND (0x7F AND 0x80)" by (simp only: and.assoc)
  finally have h: "w AND 0x80 = 0" by simp
  then show "(0x80 OR w) AND 0x7F = w" "(0x80 OR w) AND 0x80 \<noteq> 0" "w AND 0x80 = 0" "w AND 0x7F = w"
    using w h by (simp_all add: bit.conj_disj_distrib2)
qed

lemma frame_length_encoded:
  assumes "mask_bit = 0 \<or> mask_bit = 0x80" "len < 2 ^ 63"
  shows "frame_length (b0 # length_bytes mask_bit len @ rest) = Inr (Some (len, Suc (length (length_bytes mask_bit len))))"
    "((b0 # length_bytes mask_bit len @ rest) ! 1) AND 0x80 \<noteq> 0 \<longleftrightarrow> mask_bit = 0x80"
proof -
  let ?w = "if len < 126 then of_nat len else if len \<le> 0xFFFF then 126 else 127 :: u8"
  have w: "unat ?w < 128" by (simp add: unat_of_nat)
  have lb: "length_bytes mask_bit len = (mask_bit OR ?w) # (if len < 126 then [] else if len \<le> 0xFFFF then u16_to_be (of_nat len) else u64_to_be (of_nat len))"
    by (simp add: length_bytes_def)
  have bits: "(mask_bit OR ?w) AND 0x7F = ?w" "(mask_bit OR ?w) AND 0x80 \<noteq> 0 \<longleftrightarrow> mask_bit = 0x80"
    using length_byte_bits [OF w] assms(1) by auto
  show "((b0 # length_bytes mask_bit len @ rest) ! 1) AND 0x80 \<noteq> 0 \<longleftrightarrow> mask_bit = 0x80"
    using bits(2) by (simp add: lb)
  consider "len < 126" | "126 \<le> len" "len \<le> 0xFFFF" | "0xFFFF < len" by linarith
  then show "frame_length (b0 # length_bytes mask_bit len @ rest) = Inr (Some (len, Suc (length (length_bytes mask_bit len))))"
  proof cases
    case 1
    then show ?thesis using bits(1) by (simp add: frame_length_def lb unat_of_nat)
  next
    case 2
    have "slice 2 4 (b0 # (mask_bit OR 126) # u16_to_be (of_nat len) @ rest) = u16_to_be (of_nat len)"
      using slice_append_right [of "[b0, mask_bit OR 126]" 2 0 2] by (simp add: slice_append_left)
    then show ?thesis using bits(1) 2 by (simp add: frame_length_def lb unat_of_nat)
  next
    case 3
    have "slice 2 10 (b0 # (mask_bit OR 127) # u64_to_be (of_nat len) @ rest) = u64_to_be (of_nat len)"
      using slice_append_right [of "[b0, mask_bit OR 127]" 2 0 8] by (simp add: slice_append_left)
    then show ?thesis using bits(1) 3 assms(2) by (simp add: frame_length_def lb unat_of_nat)
  qed
qed

text \<open>The frames an encoder may send to a parser: what the protocol asks of the first byte and of control frames.\<close>

definition sendable :: "'i ws_parser \<Rightarrow> bool \<Rightarrow> bool \<Rightarrow> u8 \<Rightarrow> bytes \<Rightarrow> bool" where
  "sendable p fin rsv1 opcode payload \<longleftrightarrow> opcode < 16 \<and> length payload \<le> wp_max_message p \<and> length payload < 2 ^ 63 \<and>
     (rsv1 \<longrightarrow> wp_inflater p \<noteq> None \<and> opcode \<noteq> OP_CONT \<and> opcode < 8) \<and> (8 \<le> opcode \<longrightarrow> fin \<and> length payload \<le> 125)"

lemma encode_frame_shape:
  obtains key where "fst (encode_frame e fin rsv1 opcode payload []) =
      ((if fin then 0x80 else 0) OR (if rsv1 then 0x40 else 0) OR opcode) #
        length_bytes (if we_role e = Client then 0x80 else 0) (length payload) @
        (if we_role e = Client then key @ apply_mask payload key else payload)" "length key = 4"
  using that [of "u32_to_be (xorshift (we_mask_counter e))"]
  by (cases "we_role e") (simp_all add: encode_frame_def Let_def)

lemma frame_body_split:
  assumes "wp_buf p = pre @ key @ body @ rest" "length pre = off" "length body = len"
    and "length key = (if wp_buf p ! 1 AND 0x80 \<noteq> 0 then 4 else 0)"
    and "0x8 \<le> wp_buf p ! 0 AND 0x0F \<Longrightarrow> wp_buf p ! 0 AND 0x80 \<noteq> 0 \<and> len \<le> 125" "len \<le> wp_max_message p"
  shows "frame_body p len off = Inr (Some (\<lparr> rf_fin = (wp_buf p ! 0 AND 0x80 \<noteq> 0), rf_rsv1 = (wp_buf p ! 0 AND 0x40 \<noteq> 0),
    rf_opcode = wp_buf p ! 0 AND 0x0F, rf_payload = (if wp_buf p ! 1 AND 0x80 \<noteq> 0 then apply_mask body key else body) \<rparr>, p \<lparr> wp_buf := rest \<rparr>))"
proof -
  have "slice off (off + length key) (wp_buf p) = key"
    using slice_append_right [of pre off 0 "length key" "key @ body @ rest"] assms(2) by (simp add: assms(1) slice_append_left)
  moreover have "slice (off + length key) (off + length key + len) (wp_buf p) = body"
    using slice_append_right [of "pre @ key" "off + length key" 0 len "body @ rest"] assms(2,3) by (simp add: assms(1) slice_append_left)
  moreover have "drop (off + length key + len) (wp_buf p) = rest" "\<not> length (wp_buf p) < off + length key + len"
    using assms(2,3) by (simp_all add: assms(1))
  ultimately show ?thesis
    using assms(4-6) unfolding frame_body_def Let_def by (auto simp: not_less split: if_splits)
qed

lemma parse_encoded_frame:
  assumes "sendable p fin rsv1 opcode payload" "we_role e \<noteq> wp_role p"
    and "wp_buf p = fst (encode_frame e fin rsv1 opcode payload []) @ rest"
  shows "try_parse_frame p = Inr (Some (\<lparr> rf_fin = fin, rf_rsv1 = rsv1, rf_opcode = opcode, rf_payload = payload \<rparr>, p \<lparr> wp_buf := rest \<rparr>))"
proof -
  let ?b0 = "(if fin then 0x80 else 0) OR (if rsv1 then 0x40 else 0) OR opcode"
  let ?c = "we_role e = Client"
  let ?mb = "if ?c then 0x80 else 0 :: u8"
  let ?lb = "length_bytes ?mb (length payload)"
  obtain key where enc: "fst (encode_frame e fin rsv1 opcode payload []) = ?b0 # ?lb @ (if ?c then key @ apply_mask payload key else payload)"
      and key: "length key = 4"
    by (rule encode_frame_shape)
  let ?key = "if ?c then key else []"
  let ?body = "if ?c then apply_mask payload key else payload"
  have buf: "wp_buf p = (?b0 # ?lb) @ ?key @ ?body @ rest" by (simp add: assms(3) enc)
  have s: "opcode < 16" "length payload \<le> wp_max_message p" "length payload < 2 ^ 63"
      "rsv1 \<longrightarrow> wp_inflater p \<noteq> None \<and> opcode \<noteq> OP_CONT \<and> opcode < 8" "8 \<le> opcode \<longrightarrow> fin \<and> length payload \<le> 125"
    using assms(1) by (simp_all add: sendable_def)
  note h = header_bits [OF s(1), of fin rsv1]
  have fl: "frame_length (wp_buf p) = Inr (Some (length payload, length (?b0 # ?lb)))" "wp_buf p ! 1 AND 0x80 \<noteq> 0 \<longleftrightarrow> ?c"
    using frame_length_encoded [of ?mb "length payload" ?b0 "?key @ ?body @ rest"] s(3) by (simp_all add: buf)
  have b0: "wp_buf p ! 0 = ?b0" by (simp add: buf)
  have role: "wp_role p = (if ?c then Server else Client)"
    using assms(2) by (cases "we_role e"; cases "wp_role p") simp_all
  have ch: "check_header p (wp_buf p ! 0) (wp_buf p ! 1) = Inr ()"
    using h s(4) fl(2) role by (auto simp: check_header_def b0 Let_def)
  have "frame_body p (length payload) (length (?b0 # ?lb)) =
      Inr (Some (\<lparr> rf_fin = fin, rf_rsv1 = rsv1, rf_opcode = opcode, rf_payload = payload \<rparr>, p \<lparr> wp_buf := rest \<rparr>))"
    using frame_body_split [OF buf refl, of "length payload"] h s(2,5) fl(2) key by (simp add: b0 apply_mask_involution)
  moreover have "\<not> length (wp_buf p) < 2"
    by (simp add: buf length_bytes_def)
  ultimately show ?thesis using ch by (simp add: try_parse_frame_def fl(1))
qed

section \<open>More bytes\<close>

lemma nth_two_append: "2 \<le> length b \<Longrightarrow> (b @ d) ! 0 = b ! 0" "2 \<le> length b \<Longrightarrow> (b @ d) ! 1 = b ! 1"
    "2 \<le> length b \<Longrightarrow> (b @ d) ! Suc 0 = b ! Suc 0"
  by (cases b; auto simp: nth_append)+

lemma frame_length_append:
  assumes "2 \<le> length b"
  shows "frame_length b = Inl err \<Longrightarrow> frame_length (b @ d) = Inl err"
    "frame_length b = Inr (Some x) \<Longrightarrow> frame_length (b @ d) = Inr (Some x)"
proof -
  have "slice 2 4 (b @ d) = slice 2 4 b" if "4 \<le> length b" using that by (simp add: slice_def)
  moreover have "slice 2 10 (b @ d) = slice 2 10 b" if "10 \<le> length b" using that by (simp add: slice_def)
  moreover have "(b @ d) ! Suc 0 = b ! Suc 0" using assms by (simp add: nth_append)
  ultimately show "frame_length b = Inl err \<Longrightarrow> frame_length (b @ d) = Inl err"
    "frame_length b = Inr (Some x) \<Longrightarrow> frame_length (b @ d) = Inr (Some x)"
    unfolding frame_length_def Let_def by (auto split: if_splits)
qed

abbreviation extend :: "'i ws_parser \<Rightarrow> bytes \<Rightarrow> 'i ws_parser" where
  "extend p d \<equiv> p \<lparr> wp_buf := wp_buf p @ d \<rparr>"

lemma frame_body_append:
  assumes "2 \<le> length (wp_buf p)"
  shows "frame_body p len off = Inl err \<Longrightarrow> frame_body (extend p d) len off = Inl err"
    "frame_body p len off = Inr (Some (fr, p')) \<Longrightarrow> frame_body (extend p d) len off = Inr (Some (fr, extend p' d))"
proof -
  note nth = nth_two_append [OF assms]
  have sl: "slice a c (wp_buf p @ d) = slice a c (wp_buf p)" if "c \<le> length (wp_buf p)" for a c
    using that by (simp add: slice_def)
  show "frame_body p len off = Inl err \<Longrightarrow> frame_body (extend p d) len off = Inl err"
    unfolding frame_body_def Let_def by (simp add: nth split: if_split_asm)
  show "frame_body p len off = Inr (Some (fr, p')) \<Longrightarrow> frame_body (extend p d) len off = Inr (Some (fr, extend p' d))"
    unfolding frame_body_def Let_def by (auto simp: nth sl split: if_split_asm)
qed

lemma check_header_extend: "check_header (p \<lparr> wp_buf := b \<rparr>) b0 b1 = check_header p b0 b1"
  by (simp add: check_header_def Let_def)

lemma try_parse_frame_append:
  shows "try_parse_frame p = Inl err \<Longrightarrow> try_parse_frame (extend p d) = Inl err"
    "try_parse_frame p = Inr (Some (fr, p')) \<Longrightarrow> try_parse_frame (extend p d) = Inr (Some (fr, extend p' d))"
proof -
  show "try_parse_frame p = Inl err \<Longrightarrow> try_parse_frame (extend p d) = Inl err"
  proof -
    assume a: "try_parse_frame p = Inl err"
    then have two: "2 \<le> length (wp_buf p)" by (simp add: try_parse_frame_def split: if_splits)
    note a' = a [unfolded try_parse_frame_def]
    show ?thesis
    proof (cases "check_header p (wp_buf p ! 0) (wp_buf p ! 1)")
      case (Inl e)
      then show ?thesis using a' two by (simp add: try_parse_frame_def check_header_extend nth_two_append)
    next
      case (Inr u)
      show ?thesis
      proof (cases "frame_length (wp_buf p)")
        case (Inl e)
        then show ?thesis
          using a' two Inr frame_length_append(1) [OF two Inl, of d] by (simp add: try_parse_frame_def check_header_extend nth_two_append)
      next
        case r: (Inr r)
        then obtain len off where r': "r = Some (len, off)" "frame_body p len off = Inl err"
          using a' two Inr by (cases r) (auto split: if_splits)
        then show ?thesis
          using two Inr frame_length_append(2) [OF two, of "(len, off)" d] r frame_body_append(1) [OF two r'(2), of d]
          by (simp add: try_parse_frame_def check_header_extend nth_two_append)
      qed
    qed
  qed
  show "try_parse_frame (extend p d) = Inr (Some (fr, extend p' d))" if a: "try_parse_frame p = Inr (Some (fr, p'))"
  proof -
    have two: "2 \<le> length (wp_buf p)" using a by (simp add: try_parse_frame_def split: if_splits)
    obtain u len off where "check_header p (wp_buf p ! 0) (wp_buf p ! 1) = Inr u" "frame_length (wp_buf p) = Inr (Some (len, off))"
        "frame_body p len off = Inr (Some (fr, p'))"
      using a by (auto simp: try_parse_frame_def rbind_eq_Inr split: if_split_asm option.splits)
    then show ?thesis
      using two frame_length_append(2) [OF two, of "(len, off)" d] frame_body_append(2) [OF two, of len off fr p' d]
      by (simp add: try_parse_frame_def check_header_extend nth_two_append)
  qed
qed

lemma maybe_inflate_extend:
  "maybe_inflate I (p \<lparr> wp_buf := b \<rparr>) rsv1 payload = map_sum id (\<lambda>(out, p'). (out, p' \<lparr> wp_buf := b \<rparr>)) (maybe_inflate I p rsv1 payload)"
  by (auto simp: maybe_inflate_def Let_def split: option.split prod.split sum.split)

lemma handle_frame_extend:
  "handle_frame I (p \<lparr> wp_buf := b \<rparr>) fr = map_sum id (\<lambda>(ev, p'). (ev, p' \<lparr> wp_buf := b \<rparr>)) (handle_frame I p fr)"
proof -
  have m: "maybe_inflate I (p \<lparr> wp_buf := b, wp_frag_opcode := None, wp_frag := [] \<rparr>) r f =
      map_sum id (\<lambda>(out, p'). (out, p' \<lparr> wp_buf := b \<rparr>)) (maybe_inflate I (p \<lparr> wp_frag_opcode := None, wp_frag := [] \<rparr>) r f)" for r f
  proof -
    have eq: "p \<lparr> wp_buf := b, wp_frag_opcode := None, wp_frag := [] \<rparr> = p \<lparr> wp_frag_opcode := None, wp_frag := [], wp_buf := b \<rparr>" by simp
    show ?thesis unfolding eq by (rule maybe_inflate_extend)
  qed
  have r: "rbind (map_sum id (\<lambda>(out, p'). (out, p' \<lparr> wp_buf := b \<rparr>)) x) (\<lambda>(out, p'). Inr (Some (WsMessage k out), p')) =
      map_sum id (\<lambda>(ev, p'). (ev, p' \<lparr> wp_buf := b \<rparr>)) (rbind x (\<lambda>(out, p'). Inr (Some (WsMessage k out), p')))"
    for k and x :: "ws_error + bytes \<times> 'a ws_parser"
    by (cases x) (auto split: prod.split)
  have c: "rbind (check_close c) (\<lambda>_. Inr (Some (Close c), q)) = map_sum id (\<lambda>(ev, p'). (ev, p' \<lparr> wp_buf := b \<rparr>)) (rbind (check_close c) (\<lambda>_. Inr (Some (Close c), p)))"
    if "q = p \<lparr> wp_buf := b \<rparr>" for c q
    using that by (cases "check_close c") simp_all
  show ?thesis
    unfolding handle_frame_def Let_def
    by (simp add: maybe_inflate_extend m r c [OF refl] split: option.split)
qed

section \<open>The loop without a budget\<close>

function drain_all :: "'i inflating \<Rightarrow> 'i ws_parser \<Rightarrow> ws_event list \<Rightarrow> ws_error + ws_event list \<times> 'i ws_parser" where
  "drain_all I p events =
     rbind (try_parse_frame p) (\<lambda>r. case r of
       None \<Rightarrow> Inr (events, p)
     | Some (frame, p1) \<Rightarrow>
         rbind (handle_frame I p1 frame) (\<lambda>(event, p2).
         drain_all I (count_completed p2) (case event of Some ev \<Rightarrow> events @ [ev] | None \<Rightarrow> events)))"
  by pat_completeness auto
termination
proof (relation "measure (\<lambda>(I, p, events). length (wp_buf p))")
  fix I :: "'i inflating" and p :: "'i ws_parser" and x a frame p1 y event p2 events'
  assume "try_parse_frame p = Inr x" "x = Some a" "(frame, p1) = a" "handle_frame I p1 frame = Inr y" "(event, p2) = y"
  then show "((I, count_completed p2, events'), I, p, events) \<in> measure (\<lambda>(I, p, events). length (wp_buf p))" for events
    using try_parse_frame_Some [of p frame p1] handle_frame_buf [of I p1 frame event p2] by (auto simp: count_completed_def)
qed simp

declare drain_all.simps [simp del]

lemma drain_all_cases:
  "try_parse_frame p = Inl e \<Longrightarrow> drain_all I p events = Inl e"
  "try_parse_frame p = Inr None \<Longrightarrow> drain_all I p events = Inr (events, p)"
  "try_parse_frame p = Inr (Some (fr, p1)) \<Longrightarrow> handle_frame I p1 fr = Inl e \<Longrightarrow> drain_all I p events = Inl e"
  "try_parse_frame p = Inr (Some (fr, p1)) \<Longrightarrow> handle_frame I p1 fr = Inr (event, p2) \<Longrightarrow>
     drain_all I p events = drain_all I (count_completed p2) (case event of Some ev \<Rightarrow> events @ [ev] | None \<Rightarrow> events)"
  by (subst drain_all.simps, simp)+

text \<open>The four ways a pass of the loop goes, for inductions over it.\<close>

lemma drain_all_induct [case_names Error Wait Fail Step]:
  assumes "\<And>p events e. try_parse_frame p = Inl e \<Longrightarrow> P p events"
    and "\<And>p events. try_parse_frame p = Inr None \<Longrightarrow> P p events"
    and "\<And>p events fr p1 e. try_parse_frame p = Inr (Some (fr, p1)) \<Longrightarrow> handle_frame I p1 fr = Inl e \<Longrightarrow> P p events"
    and "\<And>p events fr p1 event p2. try_parse_frame p = Inr (Some (fr, p1)) \<Longrightarrow> handle_frame I p1 fr = Inr (event, p2) \<Longrightarrow>
      P (count_completed p2) (case event of Some ev \<Rightarrow> events @ [ev] | None \<Rightarrow> events) \<Longrightarrow> P p events"
  shows "P p events"
proof (induction "length (wp_buf p)" arbitrary: p events rule: less_induct)
  case less
  consider e where "try_parse_frame p = Inl e" | "try_parse_frame p = Inr None"
    | fr p1 e where "try_parse_frame p = Inr (Some (fr, p1))" "handle_frame I p1 fr = Inl e"
    | fr p1 event p2 where "try_parse_frame p = Inr (Some (fr, p1))" "handle_frame I p1 fr = Inr (event, p2)"
    by (metis old.prod.exhaust old.sum.exhaust option.exhaust)
  then show ?case
  proof cases
    case 4
    then have "length (wp_buf (count_completed p2)) < length (wp_buf p)"
      using try_parse_frame_Some [OF 4(1)] handle_frame_buf [OF 4(2)] by (auto simp: count_completed_def)
    then show ?thesis using assms(4) [OF 4] less by blast
  qed (use assms(1-3) in blast)+
qed

lemma count_completed_simps [simp]:
  "wp_buf (count_completed p) = wp_buf p" "wp_max_message (count_completed p) = wp_max_message p"
  "wp_frag (count_completed p) = wp_frag p" "wp_inflater (count_completed p) = wp_inflater p" "wp_role (count_completed p) = wp_role p"
  "count_completed (p \<lparr> wp_buf := b \<rparr>) = count_completed p \<lparr> wp_buf := b \<rparr>"
  by (simp_all add: count_completed_def)

lemma drain_all_extend:
  "drain_all I (extend p d) events = rbind (drain_all I p events) (\<lambda>(events1, p1). drain_all I (extend p1 d) events1)"
proof (induction p events rule: drain_all_induct [where I = I])
  case (Error p events e)
  then show ?case using drain_all_cases(1) [OF try_parse_frame_append(1) [OF Error]] by (simp add: drain_all_cases(1))
next
  case (Wait p events)
  then show ?case by (simp add: drain_all_cases(2))
next
  case (Fail p events fr p1 e)
  have "handle_frame I (extend p1 d) fr = Inl e" using Fail(2) by (simp add: handle_frame_extend)
  then show ?case using drain_all_cases(3) [OF try_parse_frame_append(2) [OF Fail(1)]] drain_all_cases(3) [OF Fail] by simp
next
  case (Step p events fr p1 event p2)
  have "handle_frame I (extend p1 d) fr = Inr (event, extend p2 d)"
    using Step(2) handle_frame_buf [OF Step(2)] by (simp add: handle_frame_extend)
  then show ?case
    using drain_all_cases(4) [OF try_parse_frame_append(2) [OF Step(1)]] drain_all_cases(4) [OF Step(1,2)] Step(3) by simp
qed

lemma drain_all_acc:
  "drain_all I p (before @ events) = map_sum id (\<lambda>(events', p'). (before @ events', p')) (drain_all I p events)"
proof (induction p events rule: drain_all_induct [where I = I])
  case (Step p events fr p1 event p2)
  then show ?case by (cases event) (simp_all add: drain_all_cases(4))
qed (simp_all add: drain_all_cases)

lemma drain_all_drained: "drain_all I p events = Inr (events', p') \<Longrightarrow> try_parse_frame p' = Inr None"
  by (induction p events rule: drain_all_induct [where I = I]) (simp_all add: drain_all_cases)

lemma try_parse_payload:
  assumes "try_parse_frame p = Inr (Some (fr, p'))"
  shows "length (rf_payload fr) \<le> wp_max_message p"
proof -
  obtain len off where "frame_body p len off = Inr (Some (fr, p'))"
    using assms by (auto simp: try_parse_frame_def rbind_eq_Inr split: if_split_asm option.splits)
  then show ?thesis
    unfolding frame_body_def Let_def by (auto simp: length_slice not_less split: if_split_asm)
qed

section \<open>The inflater's contract\<close>

text \<open>What the parser relies on: an inflater that is fine stays fine, and what it gives is within the bound it was
  given.\<close>

locale inflater =
  fixes inflate :: "'i inflating" and fine :: "'i \<Rightarrow> bool"
  assumes inflate_fine: "fine d \<Longrightarrow> inflate d payload limit = (r, d') \<Longrightarrow> fine d'"
    and inflate_bound: "fine d \<Longrightarrow> inflate d payload limit = (Inr out, d') \<Longrightarrow> length out \<le> limit"
begin

definition parser_ok :: "'i ws_parser \<Rightarrow> bool" where
  "parser_ok p \<longleftrightarrow> length (wp_frag p) \<le> wp_max_message p \<and> (\<forall>d. wp_inflater p = Some d \<longrightarrow> fine d)"

lemma maybe_inflate_ok:
  assumes "parser_ok p" "maybe_inflate inflate p rsv1 payload = Inr (out, p')" "length payload \<le> wp_max_message p"
  shows "length out \<le> wp_max_message p" "parser_ok p'"
proof -
  have "length out \<le> wp_max_message p \<and> parser_ok p'"
  proof (cases rsv1)
    case True
    obtain d d' where d: "wp_inflater p = Some d" "inflate d payload (inflate_limit (length payload) (wp_max_message p)) = (Inr out, d')"
        "p' = p \<lparr> wp_inflater := Some d' \<rparr>"
      using assms(2) True by (auto simp: maybe_inflate_def Let_def split: option.splits prod.splits sum.splits)
    have "fine d" using assms(1) d(1) by (simp add: parser_ok_def)
    moreover have "inflate_limit (length payload) (wp_max_message p) \<le> wp_max_message p" by (simp add: inflate_limit_def)
    ultimately show ?thesis
      using inflate_bound [OF _ d(2)] inflate_fine [OF _ d(2)] assms(1) d(3) by (auto simp: parser_ok_def)
  next
    case False
    then show ?thesis using assms by (simp add: maybe_inflate_def)
  qed
  then show "length out \<le> wp_max_message p" "parser_ok p'" by simp_all
qed

lemma handle_frame_ok:
  assumes "parser_ok p" "handle_frame inflate p fr = Inr (ev, p')" "length (rf_payload fr) \<le> wp_max_message p"
  shows "parser_ok p'" "ev = Some (WsMessage k out) \<Longrightarrow> length out \<le> wp_max_message p"
proof -
  let ?q = "p \<lparr> wp_frag_opcode := None, wp_frag := [] \<rparr>"
  have q: "parser_ok ?q" using assms(1) by (simp add: parser_ok_def)
  have "parser_ok p' \<and> (\<forall>k out. ev = Some (WsMessage k out) \<longrightarrow> length out \<le> wp_max_message p)"
    using assms(2) maybe_inflate_ok [OF assms(1) _ assms(3)] maybe_inflate_ok [OF q] assms(1)
    unfolding handle_frame_def Let_def rbind_eq_Inr
    by (auto simp: rbind_eq_Inr not_less parser_ok_def split: if_split_asm option.splits)
  then show "parser_ok p'" "ev = Some (WsMessage k out) \<Longrightarrow> length out \<le> wp_max_message p" by blast+
qed

lemma step_ok:
  assumes "parser_ok p" "try_parse_frame p = Inr (Some (fr, p1))" "handle_frame inflate p1 fr = Inr (event, p2)"
  shows "parser_ok (count_completed p2)" "wp_max_message p2 = wp_max_message p" "length (wp_buf p2) + 2 \<le> length (wp_buf p)"
    "event = Some (WsMessage k out) \<Longrightarrow> length out \<le> wp_max_message p"
proof -
  obtain n where n: "2 \<le> n" "n \<le> length (wp_buf p)" "p1 = p \<lparr> wp_buf := drop n (wp_buf p) \<rparr>"
    using try_parse_frame_Some [OF assms(2)] by blast
  then have p1: "parser_ok p1" "wp_max_message p1 = wp_max_message p" using assms(1) by (simp_all add: parser_ok_def)
  note fr = try_parse_payload [OF assms(2), folded p1(2)]
  show "parser_ok (count_completed p2)" using handle_frame_ok(1) [OF p1(1) assms(3) fr] by (simp add: parser_ok_def)
  show "wp_max_message p2 = wp_max_message p" "length (wp_buf p2) + 2 \<le> length (wp_buf p)"
    using handle_frame_buf [OF assms(3)] n by auto
  show "event = Some (WsMessage k out) \<Longrightarrow> length out \<le> wp_max_message p"
    using handle_frame_ok(2) [OF p1(1) assms(3) fr] p1(2) by simp
qed

lemma drain_all_ok:
  "drain_all inflate p events = Inr (events', p') \<Longrightarrow> parser_ok p \<Longrightarrow>
    parser_ok p' \<and> wp_max_message p' = wp_max_message p \<and> length (wp_buf p') \<le> length (wp_buf p) \<and>
    (\<forall>k out. WsMessage k out \<in> set events' \<longrightarrow> WsMessage k out \<in> set events \<or> length out \<le> wp_max_message p)"
proof (induction p events rule: drain_all_induct [where I = inflate])
  case (Step p events fr p1 event p2)
  note ok = step_ok [OF Step.prems(2) Step.hyps]
  from Step.IH [OF Step.prems(1) [unfolded drain_all_cases(4) [OF Step.hyps]] ok(1)] ok(2-4) show ?case
    by (cases event) auto
qed (auto simp: drain_all_cases)

lemma drain_within_budget:
  "parser_ok p \<Longrightarrow> decoded + length (wp_buf p) * wp_max_message p < budget \<Longrightarrow>
    drain_events_into inflate p events decoded budget = drain_all inflate p events"
proof (induction p events arbitrary: decoded rule: drain_all_induct [where I = inflate])
  case (Step p events fr p1 event p2)
  note ok = step_ok [OF Step.prems(1) Step.hyps]
  have "decoded_after decoded event \<le> decoded + wp_max_message p"
    using ok(4) by (auto simp: decoded_after_def usize_sat_add_def split: option.split ws_event.split)
  moreover have "(length (wp_buf p2) + 2) * wp_max_message p \<le> length (wp_buf p) * wp_max_message p"
    using ok(3) by (rule mult_right_mono) simp
  ultimately have d: "decoded_after decoded event + length (wp_buf p2) * wp_max_message p2 < budget"
    using Step.prems(2) ok(2) by (simp add: algebra_simps)
  then show ?case
    using Step.IH [of "decoded_after decoded event"] Step.hyps ok(1) drain_all_cases(4) [OF Step.hyps]
    by (subst drain_events_into.simps) (simp add: Let_def)
qed (subst drain_events_into.simps; simp add: drain_all_cases)+

lemma feed_drain_all:
  assumes "parser_ok p" "(length (wp_buf p) + length data) * wp_max_message p < usize_max"
  shows "feed inflate p data = drain_all inflate (extend p data) []"
proof -
  have "parser_ok (extend p data)" using assms(1) by (simp add: parser_ok_def)
  then show ?thesis using drain_within_budget [of "extend p data" 0] assms(2) by (simp add: feed_def)
qed

lemma feed_ok:
  assumes "parser_ok p" "(length (wp_buf p) + length data) * wp_max_message p < usize_max" "feed inflate p data = Inr (events, p')"
  shows "parser_ok p'" "wp_max_message p' = wp_max_message p" "length (wp_buf p') \<le> length (wp_buf p) + length data"
    "try_parse_frame p' = Inr None" "WsMessage k out \<in> set events \<Longrightarrow> length out \<le> wp_max_message p"
proof -
  have e: "parser_ok (extend p data)" using assms(1) by (simp add: parser_ok_def)
  note d = assms(3) [unfolded feed_drain_all [OF assms(1,2)]]
  show "parser_ok p'" "wp_max_message p' = wp_max_message p" "length (wp_buf p') \<le> length (wp_buf p) + length data"
    "WsMessage k out \<in> set events \<Longrightarrow> length out \<le> wp_max_message p"
    using drain_all_ok [OF d e] by auto
  show "try_parse_frame p' = Inr None" by (rule drain_all_drained [OF d])
qed

lemma feed_append:
  assumes "parser_ok p" "(length (wp_buf p) + length (a @ b)) * wp_max_message p < usize_max"
  shows "feed inflate p (a @ b) =
    rbind (feed inflate p a) (\<lambda>(events1, p1). rbind (feed inflate p1 b) (\<lambda>(events2, p2). Inr (events1 @ events2, p2)))"
proof -
  have a: "(length (wp_buf p) + length a) * wp_max_message p < usize_max"
    using assms(2) by (rule le_less_trans [rotated]) (simp add: mult_right_mono)
  have "feed inflate p (a @ b) = rbind (drain_all inflate (extend p a) []) (\<lambda>(events1, p1). drain_all inflate (extend p1 b) events1)"
    using feed_drain_all [OF assms] drain_all_extend [of inflate "extend p a" b "[]"] by simp
  also have "\<dots> = rbind (feed inflate p a) (\<lambda>(events1, p1). drain_all inflate (extend p1 b) events1)"
    by (simp only: feed_drain_all [OF assms(1) a])
  also have "\<dots> = rbind (feed inflate p a) (\<lambda>(events1, p1). rbind (feed inflate p1 b) (\<lambda>(events2, p2). Inr (events1 @ events2, p2)))"
  proof (rule rbind_cong [OF refl])
    fix x assume x: "feed inflate p a = Inr x"
    obtain events1 p1 where [simp]: "x = (events1, p1)" by fastforce
    note ok = feed_ok [OF assms(1) a x [simplified]]
    have "(length (wp_buf p1) + length b) * wp_max_message p1 < usize_max"
      using assms(2) ok(2,3) by (auto intro: le_less_trans [rotated] mult_right_mono)
    then have f: "feed inflate p1 b = drain_all inflate (extend p1 b) []" by (rule feed_drain_all [OF ok(1)])
    show "(case x of (events1, p1) \<Rightarrow> drain_all inflate (extend p1 b) events1) =
        (case x of (events1, p1) \<Rightarrow> rbind (feed inflate p1 b) (\<lambda>(events2, p2). Inr (events1 @ events2, p2)))"
      using drain_all_acc [of inflate "extend p1 b" events1 "[]"] by (cases "drain_all inflate (extend p1 b) []") (auto simp: f)
  qed
  finally show ?thesis .
qed

end

section \<open>The connection's inflater\<close>

text \<open>The inflater of a connection as the parser sees it, with the decompressor it was made for.\<close>

definition ctx_inflate :: "('d flate \<times> 'd inflate_ctx) inflating" where
  "ctx_inflate = (\<lambda>(F, ctx) payload limit. case the (decompress F ctx payload limit) of (r, ctx') \<Rightarrow> (r, (F, ctx')))"

definition ctx_fine :: "'d flate \<times> 'd inflate_ctx \<Rightarrow> bool" where
  "ctx_fine = (\<lambda>(F, ctx). fl_ok F \<and> ring_ok ctx)"

interpretation conn: inflater ctx_inflate ctx_fine
proof
  fix x :: "'a flate \<times> 'a inflate_ctx" and payload limit r x' out
  assume fine: "ctx_fine x"
  obtain F ctx where x: "x = (F, ctx)" by fastforce
  from fine have F: "fl_ok F" "ring_ok ctx" by (simp_all add: ctx_fine_def x)
  obtain q c where q: "decompress F ctx payload limit = Some (q, c)" "ring_ok c" "\<And>out. q = Inr out \<Longrightarrow> length out \<le> limit"
    by (rule decompress_returns [OF F, of payload limit]) blast
  then have eq: "ctx_inflate x payload limit = (q, (F, c))" by (simp add: ctx_inflate_def x)
  show "ctx_inflate x payload limit = (r, x') \<Longrightarrow> ctx_fine x'" using eq q(2) F(1) by (auto simp: ctx_fine_def)
  show "ctx_inflate x payload limit = (Inr out, x') \<Longrightarrow> length out \<le> limit" using eq q(3) by auto
qed

lemma fresh_parser_ok: "fl_ok F \<Longrightarrow> conn.parser_ok (parser_with_role max_message (Some (F, inflate_ctx_new takeover)) r)"
  unfolding conn.parser_ok_def by (simp add: parser_with_role_def ctx_fine_def ring_ok_def inflate_ctx_new_def)

section \<open>Properties\<close>

text \<open>C40: a legal frame that is encoded parses back on the other side: whatever follows it in the buffer, the
  parser takes exactly its bytes, removes the mask and finds the same header and payload. Legal is a four-bit
  opcode, a payload within the parser's message limit and below \<open>2 ^ 63\<close> bytes, a control frame that is final and
  has at most 125 bytes, and the compression bit only on the first frame of a data message, when compression
  was negotiated.\<close>

theorem frame_roundtrip:
  assumes "sendable p fin rsv1 opcode payload" "we_role e \<noteq> wp_role p"
    and "wp_buf p = fst (encode_frame e fin rsv1 opcode payload []) @ rest"
  shows "try_parse_frame p = Inr (Some (\<lparr> rf_fin = fin, rf_rsv1 = rsv1, rf_opcode = opcode, rf_payload = payload \<rparr>, p \<lparr> wp_buf := rest \<rparr>))"
  by (rule parse_encoded_frame [OF assms])

theorem frame_roundtrip_witness:
  "try_parse_frame ((parser_with_role 100 (None :: unit option) Server)
      \<lparr> wp_buf := fst (encode_frame (encoder_with_role (None :: unit option) Client) True False OP_TEXT [0x68, 0x69] []) @ [7] \<rparr>) =
    Inr (Some (\<lparr> rf_fin = True, rf_rsv1 = False, rf_opcode = OP_TEXT, rf_payload = [0x68, 0x69] \<rparr>,
      (parser_with_role 100 None Server) \<lparr> wp_buf := [7] \<rparr>))"
proof -
  let ?p = "(parser_with_role 100 (None :: unit option) Server)
      \<lparr> wp_buf := fst (encode_frame (encoder_with_role (None :: unit option) Client) True False OP_TEXT [0x68, 0x69] []) @ [7] \<rparr>"
  have "sendable ?p True False OP_TEXT [0x68, 0x69]" by (simp add: sendable_def parser_with_role_def OP_TEXT_def)
  from frame_roundtrip [OF this, of "encoder_with_role (None :: unit option) Client" "[7]"] show ?thesis
    by (simp add: parser_with_role_def encoder_with_role_def)
qed

fun feed_all :: "'i inflating \<Rightarrow> 'i ws_parser \<Rightarrow> bytes list \<Rightarrow> ws_error + ws_event list \<times> 'i ws_parser" where
  "feed_all I p [] = Inr ([], p)"
| "feed_all I p (chunk # chunks) =
     rbind (feed I p chunk) (\<lambda>(events1, p1). rbind (feed_all I p1 chunks) (\<lambda>(events2, p2). Inr (events1 @ events2, p2)))"

lemma feed_all_concat:
  "conn.parser_ok p \<Longrightarrow> try_parse_frame p = Inr None \<Longrightarrow> (length (wp_buf p) + length (concat chunks)) * wp_max_message p < usize_max \<Longrightarrow>
    feed_all ctx_inflate p chunks = feed ctx_inflate p (concat chunks)"
proof (induction chunks arbitrary: p)
  case Nil
  then show ?case using conn.feed_drain_all [of p "[]"] by (simp add: drain_all_cases(2))
next
  case (Cons c chunks)
  have c: "(length (wp_buf p) + length c) * wp_max_message p < usize_max"
    using Cons.prems(3) by (rule le_less_trans [rotated]) (simp add: mult_right_mono)
  have "feed_all ctx_inflate p1 chunks = feed ctx_inflate p1 (concat chunks)" if f: "feed ctx_inflate p c = Inr (events1, p1)" for events1 p1
  proof -
    note ok = conn.feed_ok [OF Cons.prems(1) c f]
    have "(length (wp_buf p1) + length (concat chunks)) * wp_max_message p1 < usize_max"
      using Cons.prems(3) ok(2,3) by (auto intro: le_less_trans [rotated] mult_right_mono)
    then show ?thesis by (rule Cons.IH [OF ok(1,4)])
  qed
  then show ?case
    using conn.feed_append [OF Cons.prems(1), of c "concat chunks"] Cons.prems(3)
    by (cases "feed ctx_inflate p c") auto
qed

text \<open>C7: where the bytes of a connection are cut makes no difference. A new parser with an inflater that is fed a
  connection's bytes in any pieces gives the same events and ends in the same state as one that is fed all of
  them at once, or fails with the same error. The bytes times the message limit stay below \<open>usize::MAX\<close>.\<close>

theorem feed_chunks:
  assumes "fl_ok F" "length (concat chunks) * max_message < usize_max"
  shows "feed_all ctx_inflate (parser_with_role max_message (Some (F, inflate_ctx_new takeover)) r) chunks =
    feed ctx_inflate (parser_with_role max_message (Some (F, inflate_ctx_new takeover)) r) (concat chunks)"
proof (rule feed_all_concat)
  show "conn.parser_ok (parser_with_role max_message (Some (F, inflate_ctx_new takeover)) r)"
    by (rule fresh_parser_ok [OF assms(1)])
qed (use assms(2) in \<open>simp_all add: parser_with_role_def try_parse_frame_def\<close>)

theorem feed_chunks_witness:
  "feed_all ctx_inflate (parser_with_role 100 (Some (copy_flate, inflate_ctx_new True)) Server) [[0x81], [0x80, 1, 2], [3, 4]] =
    feed ctx_inflate (parser_with_role 100 (Some (copy_flate, inflate_ctx_new True)) Server) [0x81, 0x80, 1, 2, 3, 4]"
  using feed_chunks [OF copy_flate_ok, of "[[0x81], [0x80, 1, 2], [3, 4]]" 100 True Server] by (simp add: usize_max_def)

text \<open>C11: no message that a new parser with an inflater delivers is longer than its limit, compressed or in
  fragments, and neither is what it keeps of an unfinished one. The bytes times the message limit stay below
  \<open>usize::MAX\<close>.\<close>

theorem messages_bounded:
  assumes "fl_ok F" "length data * max_message < usize_max"
    and "feed ctx_inflate (parser_with_role max_message (Some (F, inflate_ctx_new takeover)) r) data = Inr (events, p')"
  shows "(\<forall>kind out. WsMessage kind out \<in> set events \<longrightarrow> length out \<le> max_message) \<and> length (wp_frag p') \<le> max_message"
proof -
  let ?p = "parser_with_role max_message (Some (F, inflate_ctx_new takeover)) r"
  have "conn.parser_ok ?p" by (rule fresh_parser_ok [OF assms(1)])
  note ok = conn.feed_ok [OF this _ assms(3)]
  have "(length (wp_buf ?p) + length data) * wp_max_message ?p < usize_max" using assms(2) by (simp add: parser_with_role_def)
  note ok = ok [OF this]
  have "wp_max_message ?p = max_message" by (simp add: parser_with_role_def)
  then show ?thesis using ok(1,2,5) unfolding conn.parser_ok_def by metis
qed

text \<open>A client's greeting, masked.\<close>

lemma greeting_feed:
  "\<exists>p'. feed ctx_inflate (parser_with_role 100 (Some (copy_flate, inflate_ctx_new True)) Server) [0x81, 0x82, 1, 2, 3, 4, 0x69, 0x6B] =
    Inr ([WsMessage TextMessage [0x68, 0x69]], p')"
proof -
  let ?p = "parser_with_role 100 (Some (copy_flate, inflate_ctx_new True)) Server"
  let ?d = "[0x81, 0x82, 1, 2, 3, 4, 0x69, 0x6B] :: bytes"
  let ?fr = "\<lparr> rf_fin = True, rf_rsv1 = False, rf_opcode = OP_TEXT, rf_payload = [0x68, 0x69] \<rparr>"
  have ok: "conn.parser_ok ?p" by (rule fresh_parser_ok [OF copy_flate_ok])
  have 1: "try_parse_frame (extend ?p ?d) = Inr (Some (?fr, ?p))"
    by (simp add: try_parse_frame_def check_header_def frame_length_def frame_body_def slice_def parser_with_role_def op_defs Let_def)
  have 2: "handle_frame ctx_inflate ?p ?fr = Inr (Some (WsMessage TextMessage [0x68, 0x69]), ?p)"
    by (simp add: handle_frame_def maybe_inflate_def kind_of_def parser_with_role_def op_defs Let_def)
  have 3: "try_parse_frame (count_completed ?p) = Inr None" by (simp add: try_parse_frame_def parser_with_role_def)
  have "feed ctx_inflate ?p ?d = drain_all ctx_inflate (extend ?p ?d) []"
    by (rule conn.feed_drain_all [OF ok]) (simp add: parser_with_role_def usize_max_def)
  also have "\<dots> = Inr ([WsMessage TextMessage [0x68, 0x69]], count_completed ?p)"
    unfolding drain_all_cases(4) [OF 1 2] using drain_all_cases(2) [OF 3] by simp
  finally show ?thesis by blast
qed

theorem messages_bounded_witness:
  "\<exists>p'. feed ctx_inflate (parser_with_role 100 (Some (copy_flate, inflate_ctx_new True)) Server) [0x81, 0x82, 1, 2, 3, 4, 0x69, 0x6B] =
    Inr ([WsMessage TextMessage [0x68, 0x69]], p') \<and> length (wp_frag p') \<le> 100"
proof -
  obtain p' where f: "feed ctx_inflate (parser_with_role 100 (Some (copy_flate, inflate_ctx_new True)) Server) [0x81, 0x82, 1, 2, 3, 4, 0x69, 0x6B] =
    Inr ([WsMessage TextMessage [0x68, 0x69]], p')" using greeting_feed by blast
  from messages_bounded [OF copy_flate_ok _ f] f show ?thesis by (auto simp: usize_max_def)
qed

end
