(* ===== verification/Spec2Isabelle.thy ===== *)
theory Spec2Isabelle
  imports Event_Validate Event_Npub Neg_Protocol Db_Keys Query_Pending Query_Trace Query_Hll Ws_Codec
begin

text \<open>
  \<^bold>\<open>Verification of the wok Nostr relay.\<close>

  \<^bold>\<open>The program.\<close> wok is a Nostr relay in Rust. Bytes of a client reach it through the WebSocket codec of
  \<open>wok-ws\<close>, which cuts them into frames and messages and inflates compressed ones. A message that carries an
  event is parsed as strict JSON, checked (id, signature, time) and packed into a flat record by \<open>wok-event\<close>.
  A message that asks for events is compiled to filters by \<open>wok-query\<close>, which matches packed events against
  them: stored events in a scan, new ones through the index of live subscriptions, which holds them back in a
  buffer while the scan of the subscription still runs. Free-text search uses the terms of \<open>wok-db\<close>.
  Two relays, or a relay and a client, find out which events the other lacks with the range-based set
  reconciliation of \<open>wok-negentropy\<close>. Paths below are relative to \<open>src/crates\<close>.

  \<^bold>\<open>How the code is modelled.\<close> A byte is an \<^typ>\<open>8 word\<close>, a \<open>u64\<close> a \<^typ>\<open>64 word\<close>, a \<open>usize\<close> a natural
  number, and a string its UTF-8 bytes. A \<open>Result\<close> is a sum with the error on the left, chained with \<open>rbind\<close> where
  the source has a question mark; code that may panic returns an option with \<^term>\<open>None\<close> for the panic. Structs are
  records, enums datatypes, a method that changes its receiver returns it, and a callback with captured variables
  is a function on their values. A \<open>BTreeMap\<close> is an association list sorted by key and a \<open>HashMap\<close> an association
  list whose order stands for the hash order.

  \<^bold>\<open>Theories.\<close>
  \<^item> \<open>Wok_Prelude\<close>: machine types, results, loops with early return, integers as bytes. \<open>Wok_Collections\<close>: the
    binary search and the sorted maps of the standard library, and the locale \<open>self_delimiting\<close> of codes that
    tell where they end. \<open>Rust_Str\<close>: UTF-8 and number parsing.
  \<^item> \<open>Event_Error\<close> (\<open>wok-event/src/error.rs\<close>) and \<open>Event_Json\<close> (\<open>json.rs\<close>): \<open>parse_strict\<close> and the two writers,
    \<open>write_tao\<close> for stored text and \<open>write_nip01\<close> for the id preimage. What is parsed is well formed, what is
    written parses back, and the two writers differ exactly on U+007F.
  \<^item> \<open>Event_Kinds\<close> (\<open>kinds.rs\<close>): kind classes, hex decoding and addresses, with the crates for hex, SHA-256 and
    Schnorr signatures as the record \<open>ext\<close>.
  \<^item> \<open>Event_Packed\<close> (\<open>packed.rs\<close>): the record with its tags, a self-delimiting code; it reads back what it was
    built from. \<open>Event_Parse\<close> (\<open>parse.rs\<close>): \<open>pack_event\<close> and \<open>normalize_event_json\<close>; which fields, expiration and
    filter tags a packed event has, and that normalized text is a fixed point.
  \<^item> \<open>Event_Validate\<close> (\<open>hash.rs\<close>, \<open>validate.rs\<close>, \<open>deletion_protection.rs\<close>): ids, signatures, the time window,
    the check of packed tags against JSON, and \<open>parse_and_verify_event\<close>. What is accepted satisfies every check, and
    the id preimage determines the fields.
  \<^item> \<open>Event_Npub\<close> (\<open>bech32.rs\<close>): \<open>decode_npub\<close> and \<open>encode_npub\<close>. The checksum step is linear over exclusive or, which
    gives that the decoder accepts exactly the encoder's spellings and refuses one mistyped character.
  \<^item> \<open>Neg_Encoding\<close> (\<open>wok-negentropy/src/encoding.rs\<close>), \<open>Neg_Types\<close> (\<open>types.rs\<close>), \<open>Neg_Vector\<close> (\<open>storage.rs\<close>,
    \<open>vector.rs\<close>), \<open>Neg_Protocol\<close> (\<open>protocol.rs\<close>): varints, the 256-bit accumulator at the width of its limbs, the
    storage trait as a record of operations with the locale \<open>storage_contract\<close>, interpreted on the sealed vector
    and on its sub-ranges, and the whole session. Replies stay within the frame limit, and two small sets are
    reconciled exactly in one round.
  \<^item> \<open>Db_Search\<close> (\<open>wok-db/src/search.rs\<close>): terms, the query parser and the phrase count, with the Unicode
    tables as the record \<open>unicode\<close>. \<open>Db_Keys\<close> (\<open>comparators.rs\<close>): composite keys and the comparators the database sorts by,
    total orders by the locale \<open>ranked\<close>, interpreted on all three.
  \<^item> \<open>Query_Filter\<close> (\<open>wok-query/src/filter.rs\<close>, \<open>subid.rs\<close>): filter compilation, matching and request rules.
    \<open>Query_Match\<close>: a compiled request matches what its JSON asks for, and a scoped request names its events.
  \<^item> \<open>Query_Hll\<close> (\<open>hll.rs\<close>): the registers of approximate counts, which depend on the set of keys only and merge.
  \<^item> \<open>Query_Pending\<close> (\<open>pending.rs\<close>): the bounded buffer; its accounting over any sequence of events.
  \<^item> \<open>Query_Monitor\<close> (\<open>monitor.rs\<close>): slots, postings, both indexes and every operation of \<open>ActiveMonitors\<close>.
    \<open>Query_Postings\<close>: each posting stands where its slot records it; the locale \<open>posting_store\<close>, interpreted on
    \<open>Index\<close>. \<open>Query_Slots\<close>: the invariant, kept by opening, replacing and closing. \<open>Query_Live\<close>: each operation
    simulates one on a plain map of subscriptions. \<open>Query_Trace\<close>: runs refine that specification, closing
    everything empties the indexes, and stored events are delivered in order and once.
  \<^item> \<open>Ws_Inflate\<close>, \<open>Ws_Frame\<close> and \<open>Ws_Codec\<close> (\<open>wok-ws/src/frame.rs\<close>): the inflater with its history ring, the
    incremental parser and the encoder, and their properties over a locale \<open>inflater\<close>, interpreted on the
    connection's inflater: messages are bounded, the cuts between reads make no difference, frames parse back.

  \<^bold>\<open>Parameters.\<close> Code that is not in the repository is an argument. \<open>ext\<close> has the hex decoders, SHA-256, the
  Schnorr check and the digits of a double; \<open>hex_ok\<close> and \<open>sha256_ok\<close> say that the decoders agree and that a digest
  has 32 bytes, and nothing is assumed of the signature check. \<open>unicode\<close> has the character classes and case folding
  and nothing is assumed of it. \<open>flate\<close> is the decompressor; \<open>fl_ok\<close> says that a call reads no more than its
  input and writes no more than its room. The iteration order of a \<open>HashSet\<close> in the protocol and the
  time are arguments as well. The witnesses instantiate each of them.

  \<^bold>\<open>Termination and bounds.\<close> No definition uses fuel. Parsers recurse on the input that is left; the JSON parser
  also refuses values nested deeper than \<open>MAX_DEPTH\<close>, as the code does. The reconcile loop consumes its
  query, and the drain loop of the frame codec its buffer. The two loops of the inflater, which inflate
  a message and write the history ring, end only if the decompressor and the ring's head stay within their bounds, so they
  are partial functions into options; \<open>decompress_terminates\<close> shows that they return under \<open>fl_ok\<close>, with input left to
  read plus output left to write as the measure. Counters
  that the code keeps in 32 or 64 bits are kept at that width; the theorems on live subscriptions take runs of fewer than
  \<open>2 ^ 32\<close> slots and postings and \<open>2 ^ 64 - 1\<close> operations, beyond which the code panics or wraps its pass counter, and
  those on frames take connections on which bytes fed times the message limit stays below \<open>usize::MAX\<close>.

  \<^bold>\<open>A defect.\<close> When the split of a range does not fit the frame, \<open>protocol.rs\<close> (line 232) drops it and closes the
  reply with the fingerprint of what follows the range, so the range itself is answered by nothing;
  \<open>frame_limit_drops_range\<close> in \<open>Neg_Protocol\<close> shows it for the last range.

  \<^bold>\<open>Not modelled.\<close> The database code of \<open>wok-db\<close> and the scans, costs and access rules of \<open>wok-query\<close> that
  drive it run on cursors and transactions of LMDB and RocksDB, C and C++ libraries the sources bind to; so does the
  B-tree storage of \<open>wok-negentropy\<close>, which meets the protocol through the same storage interface.
  \<open>wok-relay\<close>, the sockets and the HTTP side of \<open>wok-ws\<close>, \<open>wok-unix\<close> and \<open>wok-cli\<close> are threads, channels, files and
  system calls around the crates above. Compression of outgoing frames
  depends on the capacity of vectors and on the deflater and is an argument of the encoder. The extraction of a search
  document from event JSON uses derived deserializers; the theorems take the document.
\<close>

end
